(* ===== verification/Sponge_Prelude.thy ===== *)
theory Sponge_Prelude
  imports Main "HOL-Library.Word" "HOL-Library.AList"
begin

text \<open>
  Shared vocabulary of the development: the machine integers of the C++ sources, byte
  strings, exceptions as values, and the generic facts on words, lists and association
  lists that the component theories use.

  Conventions. A \<^verbatim>\<open>size_t\<close> or \<^verbatim>\<open>uintN_t\<close> field or intermediate value on which the code
  does arithmetic is a \<^typ>\<open>64 word\<close> (or the word of its width), so that wrap-around is
  the wrap-around of the machine. The length of a container in memory is a \<^typ>\<open>nat\<close>;
  it enters word arithmetic through \<open>sz\<close>. The premise \<open>length xs < 2 ^ 64\<close> of a lemma says
  that the string exists in the address space.
\<close>

unbundle bit_operations_syntax

type_synonym u8 = "8 word"
type_synonym u16 = "16 word"
type_synonym u32 = "32 word"
type_synonym u64 = "64 word"
type_synonym bytes = "u8 list"

text \<open>
  What can leave a function other than a return: the standard exceptions the sources
  throw or pass on (a system error counts as a runtime error), and undefined behaviour of the language (an unchecked access out of range, the
  front of an empty queue, an over-long shift), which the model keeps apart from results.
\<close>

datatype exn =
    Out_of_range string
  | Invalid_argument string
  | Length_error string
  | Runtime_error string
  | Bad_optional_access
  | Undefined_behaviour string

type_synonym 'a result = "exn + 'a"

definition bindE :: "'a result \<Rightarrow> ('a \<Rightarrow> 'b result) \<Rightarrow> 'b result" where
  "bindE m f = (case m of Inl e \<Rightarrow> Inl e | Inr x \<Rightarrow> f x)"

lemma bindE_simps [simp]:
  "bindE (Inl e) f = Inl e"
  "bindE (Inr x) f = f x"
  by (simp_all add: bindE_def)

lemma bindE_eq_Inr_iff: "bindE m f = Inr y \<longleftrightarrow> (\<exists>x. m = Inr x \<and> f x = Inr y)"
  by (cases m) auto

lemma bindE_eq_Inl_iff: "bindE m f = Inl e \<longleftrightarrow> m = Inl e \<or> (\<exists>x. m = Inr x \<and> f x = Inl e)"
  by (cases m) auto

lemma bindE_cong [fundef_cong]:
  "m = m' \<Longrightarrow> (\<And>x. m' = Inr x \<Longrightarrow> f x = f' x) \<Longrightarrow> bindE m f = bindE m' f'"
  by (cases m') auto

text \<open>\<open>ensures m P\<close>: the call \<open>m\<close> returns, and its result satisfies \<open>P\<close>.\<close>

definition ensures :: "'a result \<Rightarrow> ('a \<Rightarrow> bool) \<Rightarrow> bool" where
  "ensures m P \<longleftrightarrow> (case m of Inl e \<Rightarrow> False | Inr x \<Rightarrow> P x)"

lemma ensures_simps [simp]:
  "ensures (Inl e) P \<longleftrightarrow> False"
  "ensures (Inr x) P \<longleftrightarrow> P x"
  by (simp_all add: ensures_def)

lemma ensures_bindE: "ensures (bindE m f) P \<longleftrightarrow> ensures m (\<lambda>x. ensures (f x) P)"
  by (cases m) simp_all

lemma ensures_mono: "ensures m P \<Longrightarrow> (\<And>x. P x \<Longrightarrow> Q x) \<Longrightarrow> ensures m Q"
  by (cases m) simp_all

lemma ensures_conj: "ensures m P \<Longrightarrow> ensures m Q \<Longrightarrow> ensures m (\<lambda>x. P x \<and> Q x)"
  by (cases m) simp_all

lemma ensures_iff: "ensures m P \<longleftrightarrow> (\<exists>x. m = Inr x \<and> P x)"
  by (cases m) simp_all

text \<open>\<open>outcome E P m\<close>: the call \<open>m\<close> returns a value with \<open>P\<close>, or throws an exception with \<open>E\<close>.\<close>

definition outcome :: "(exn \<Rightarrow> bool) \<Rightarrow> ('a \<Rightarrow> bool) \<Rightarrow> 'a result \<Rightarrow> bool" where
  "outcome E P m \<longleftrightarrow> (case m of Inl e \<Rightarrow> E e | Inr x \<Rightarrow> P x)"

lemma outcome_simps [simp]: "outcome E P (Inl e) = E e" "outcome E P (Inr x) = P x"
  by (simp_all add: outcome_def)

lemma outcome_bindE: "outcome E Q m \<Longrightarrow> (\<And>x. m = Inr x \<Longrightarrow> Q x \<Longrightarrow> outcome E P (f x)) \<Longrightarrow> outcome E P (bindE m f)"
  by (cases m) simp_all

lemma outcome_mono: "outcome E P m \<Longrightarrow> (\<And>x. m = Inr x \<Longrightarrow> P x \<Longrightarrow> Q x) \<Longrightarrow> (\<And>e. E e \<Longrightarrow> F e) \<Longrightarrow> outcome F Q m"
  by (cases m) simp_all

lemma outcome_then:
  "outcome E' Q m \<Longrightarrow> (\<And>e. E' e \<Longrightarrow> E e) \<Longrightarrow> (\<And>x. m = Inr x \<Longrightarrow> Q x \<Longrightarrow> outcome E P (f x)) \<Longrightarrow> outcome E P (bindE m f)"
  by (cases m) simp_all

lemma outcome_D: "outcome E P m \<Longrightarrow> m = Inr x \<Longrightarrow> P x"
  by simp

named_theorems wordarith \<open>transfer of word arithmetic to natural numbers\<close>

subsection \<open>Sizes\<close>

definition sz :: "'a list \<Rightarrow> u64" where
  "sz xs = of_nat (length xs)"

lemma sz_Nil [simp]: "sz [] = 0"
  by (simp add: sz_def)

lemma sz_append: "sz (xs @ ys) = sz xs + sz ys"
  by (simp add: sz_def)

lemma unat_sz [wordarith]: "length xs < 2 ^ 64 \<Longrightarrow> unat (sz xs) = length xs"
  by (simp add: sz_def unat_of_nat take_bit_eq_mod)

lemma sz_eq_0_iff: "length xs < 2 ^ 64 \<Longrightarrow> sz xs = 0 \<longleftrightarrow> xs = []"
  by (metis length_0_conv sz_Nil unat_0 unat_sz)

subsection \<open>Words without wrap-around\<close>

lemma unat_add_nowrap [wordarith]:
  "unat a + unat b < 2 ^ LENGTH('a) \<Longrightarrow> unat (a + b) = unat a + unat (b :: 'a::len word)"
  by (simp add: unat_word_ariths)

lemma unat_diff_nowrap [wordarith]:
  "b \<le> a \<Longrightarrow> unat (a - b) = unat a - unat (b :: 'a::len word)"
  by (rule unat_sub)

lemma unat_lt_pow [simp]: "unat (a :: 'a::len word) < 2 ^ LENGTH('a)"
  by (rule unsigned_less)

lemma unat_u64_lt: "unat (a :: u64) < 18446744073709551616"
  using unat_lt_pow [of a] by (simp del: unat_lt_pow)

lemma unat_u32_lt: "unat (a :: u32) < 4294967296"
  using unat_lt_pow [of a] by (simp del: unat_lt_pow)

lemma unat_u16_lt: "unat (a :: u16) < 65536"
  using unat_lt_pow [of a] by (simp del: unat_lt_pow)

lemma unat_u8_lt: "unat (a :: u8) < 256"
  using unat_lt_pow [of a] by (simp del: unat_lt_pow)

lemma of_nat_unat_u64 [simp]: "(of_nat (unat (a :: u64)) :: u64) = a"
  by simp

subsection \<open>Lists\<close>

lemma take_min_length:
  "take (min n (length xs)) xs = take n xs"
  "take (min (length xs) n) xs = take n xs"
  by (simp_all add: min_def)

lemma drop_min_length: "drop (min n (length xs)) xs = drop n xs"
  by (cases "n \<le> length xs") simp_all

lemma take_take_drop: "take n xs @ take m (drop n xs) = take (n + m) xs"
  by (simp add: take_add)

end
