(* ===== verification/Buffer.thy ===== *)
theory Buffer
  imports Sponge_Prelude
begin

text \<open>
  The reference-counted strings of \<^verbatim>\<open>libsponge/util/buffer.{hh,cc}\<close>: \<open>Buffer\<close>, \<open>BufferList\<close>
  and \<open>BufferViewList\<close>. The storage behind a \<open>Buffer\<close> is never written after construction,
  so a shared pointer to it is modelled by the string itself; a reset pointer is \<^const>\<open>None\<close>.
  A string view is the bytes it shows.

  All three classes promise the same thing to their clients, a byte sequence from which a
  prefix can be discarded; the interface is the locale \<open>consumable\<close>, extended by \<open>byte_rope\<close>
  for the one that also grows, and each class interprets it.
\<close>

subsection \<open>Buffer\<close>

record buffer =
  storage :: "bytes option"
  starting_offset :: nat

definition buffer_empty_ctor :: buffer where
  "buffer_empty_ctor = \<lparr>storage = None, starting_offset = 0\<rparr>"

definition buffer_of :: "bytes \<Rightarrow> buffer" where
  "buffer_of str = \<lparr>storage = Some str, starting_offset = 0\<rparr>"

definition buffer_str :: "buffer \<Rightarrow> bytes" where
  "buffer_str b = (case storage b of None \<Rightarrow> [] | Some s \<Rightarrow> drop (starting_offset b) s)"

definition buffer_at :: "nat \<Rightarrow> buffer \<Rightarrow> u8 result" where
  "buffer_at n b =
     (if n < length (buffer_str b) then Inr (buffer_str b ! n)
      else Inl (Out_of_range ''string_view::at''))"

definition buffer_size :: "buffer \<Rightarrow> nat" where
  "buffer_size b = length (buffer_str b)"

definition buffer_copy :: "buffer \<Rightarrow> bytes" where
  "buffer_copy b = buffer_str b"

definition buffer_remove_prefix :: "nat \<Rightarrow> buffer \<Rightarrow> buffer result" where
  "buffer_remove_prefix n b =
     (if n > length (buffer_str b) then Inl (Out_of_range ''Buffer::remove_prefix'')
      else (let off = starting_offset b + n in
            Inr (case storage b of
                   None \<Rightarrow> b\<lparr>starting_offset := off\<rparr>
                 | Some s \<Rightarrow> b\<lparr>starting_offset := off,
                              storage := (if off = length s then None else Some s)\<rparr>)))"

subsection \<open>BufferList\<close>

type_synonym buffer_list = "buffer list"

definition buffer_list_of_buffer :: "buffer \<Rightarrow> buffer_list" where
  "buffer_list_of_buffer b = [b]"

definition buffer_list_append :: "buffer_list \<Rightarrow> buffer_list \<Rightarrow> buffer_list" where
  "buffer_list_append bs other = foldl (\<lambda>acc buf. acc @ [buf]) bs other"

definition buffer_list_of :: "bytes \<Rightarrow> buffer_list" where
  "buffer_list_of str = buffer_list_append [] (buffer_list_of_buffer (buffer_of str))"

definition buffer_list_to_buffer :: "buffer_list \<Rightarrow> buffer result" where
  "buffer_list_to_buffer bs =
     (case bs of
        [] \<Rightarrow> Inr buffer_empty_ctor
      | [b] \<Rightarrow> Inr b
      | _ \<Rightarrow> Inl (Runtime_error ''BufferList: please use concatenate() to combine a multi-Buffer BufferList into one Buffer''))"

definition buffer_list_concatenate :: "buffer_list \<Rightarrow> bytes" where
  "buffer_list_concatenate bs = foldl (\<lambda>ret buf. ret @ buffer_str buf) [] bs"

definition buffer_list_size :: "buffer_list \<Rightarrow> nat" where
  "buffer_list_size bs = foldl (\<lambda>ret buf. ret + buffer_size buf) 0 bs"

fun buffer_list_remove_prefix :: "nat \<Rightarrow> buffer_list \<Rightarrow> buffer_list result" where
  "buffer_list_remove_prefix n [] =
     (if n > 0 then Inl (Out_of_range ''BufferList::remove_prefix'') else Inr [])"
| "buffer_list_remove_prefix n (b # bs) =
     (if n > 0 then
        if n < length (buffer_str b)
        then bindE (buffer_remove_prefix n b) (\<lambda>b'. Inr (b' # bs))
        else buffer_list_remove_prefix (n - length (buffer_str b)) bs
      else Inr (b # bs))"

subsection \<open>BufferViewList\<close>

type_synonym buffer_view_list = "bytes list"

definition view_list_of_string :: "bytes \<Rightarrow> buffer_view_list" where
  "view_list_of_string str = [str]"

definition view_list_of_buffers :: "buffer_list \<Rightarrow> buffer_view_list" where
  "view_list_of_buffers bs = map buffer_str bs"

fun view_list_remove_prefix :: "nat \<Rightarrow> buffer_view_list \<Rightarrow> buffer_view_list result" where
  "view_list_remove_prefix n [] =
     (if n > 0 then Inl (Out_of_range ''BufferListView::remove_prefix'') else Inr [])"
| "view_list_remove_prefix n (v # vs) =
     (if n > 0 then
        if n < length v then Inr (drop n v # vs)
        else view_list_remove_prefix (n - length v) vs
      else Inr (v # vs))"

definition view_list_size :: "buffer_view_list \<Rightarrow> nat" where
  "view_list_size vs = foldl (\<lambda>ret v. ret + length v) 0 vs"

definition view_list_as_iovecs :: "buffer_view_list \<Rightarrow> (bytes \<times> nat) list" where
  "view_list_as_iovecs vs = map (\<lambda>x. (x, length x)) vs"

subsection \<open>Basic facts\<close>

lemma buffer_str_simps [simp]:
  "buffer_str buffer_empty_ctor = []"
  "buffer_str (buffer_of s) = s"
  by (simp_all add: buffer_str_def buffer_empty_ctor_def buffer_of_def)

lemma buffer_size_copy [simp]:
  "buffer_size b = length (buffer_str b)"
  "buffer_copy b = buffer_str b"
  by (simp_all add: buffer_size_def buffer_copy_def)

lemma buffer_remove_prefix_str:
  "buffer_remove_prefix n b = Inr b' \<Longrightarrow> buffer_str b' = drop n (buffer_str b)"
  by (auto simp: buffer_remove_prefix_def buffer_str_def Let_def add.commute
      split: option.splits if_splits)

lemma buffer_remove_prefix_defined:
  "n \<le> length (buffer_str b) \<Longrightarrow> \<exists>b'. buffer_remove_prefix n b = Inr b'"
  by (auto simp: buffer_remove_prefix_def Let_def)

lemma buffer_list_append_eq [simp]: "buffer_list_append bs other = bs @ other"
  unfolding buffer_list_append_def by (induction other arbitrary: bs) auto

lemma buffer_list_of_eq [simp]: "buffer_list_of str = [buffer_of str]"
  by (simp add: buffer_list_of_def buffer_list_of_buffer_def)

lemma buffer_list_concatenate_eq: "buffer_list_concatenate bs = concat (map buffer_str bs)"
proof -
  have "foldl (\<lambda>ret buf. ret @ buffer_str buf) acc bs = acc @ concat (map buffer_str bs)" for acc
    by (induction bs arbitrary: acc) auto
  then show ?thesis by (simp add: buffer_list_concatenate_def)
qed

lemma buffer_list_concatenate_simps [simp]:
  "buffer_list_concatenate [] = []"
  "buffer_list_concatenate (b # bs) = buffer_str b @ buffer_list_concatenate bs"
  "buffer_list_concatenate (bs @ bs') = buffer_list_concatenate bs @ buffer_list_concatenate bs'"
  by (simp_all add: buffer_list_concatenate_eq)

lemma buffer_list_size_eq [simp]: "buffer_list_size bs = length (buffer_list_concatenate bs)"
proof -
  have "foldl (\<lambda>ret buf. ret + buffer_size buf) acc bs = acc + length (buffer_list_concatenate bs)" for acc
    by (induction bs arbitrary: acc) auto
  then show ?thesis by (simp add: buffer_list_size_def)
qed

lemma buffer_list_remove_prefix_spec:
  "(n \<le> length (buffer_list_concatenate bs) \<longrightarrow>
      (\<exists>bs'. buffer_list_remove_prefix n bs = Inr bs' \<and>
             buffer_list_concatenate bs' = drop n (buffer_list_concatenate bs))) \<and>
   (n > length (buffer_list_concatenate bs) \<longrightarrow>
      buffer_list_remove_prefix n bs = Inl (Out_of_range ''BufferList::remove_prefix''))"
proof (induction n bs rule: buffer_list_remove_prefix.induct)
  case (1 n)
  then show ?case by simp
next
  case (2 n b bs)
  consider "n = 0" | "0 < n" "n < length (buffer_str b)" | "0 < n" "length (buffer_str b) \<le> n"
    by linarith
  then show ?case
  proof cases
    case 2
    then obtain b' where "buffer_remove_prefix n b = Inr b'"
      using buffer_remove_prefix_defined [of n b] by auto
    with 2 show ?thesis by (auto simp: buffer_remove_prefix_str)
  next
    case 3
    then have "n - length (buffer_str b) \<le> m \<longleftrightarrow> n \<le> length (buffer_str b) + m" for m
      by linarith
    with 3 "2.IH" show ?thesis by auto
  qed simp
qed

lemma view_list_remove_prefix_spec:
  "(n \<le> length (concat vs) \<longrightarrow>
      (\<exists>vs'. view_list_remove_prefix n vs = Inr vs' \<and> concat vs' = drop n (concat vs))) \<and>
   (n > length (concat vs) \<longrightarrow>
      view_list_remove_prefix n vs = Inl (Out_of_range ''BufferListView::remove_prefix''))"
proof (induction n vs rule: view_list_remove_prefix.induct)
  case (1 n)
  then show ?case by simp
next
  case (2 n v vs)
  consider "n = 0" | "0 < n" "n < length v" | "0 < n" "length v \<le> n" by linarith
  then show ?case
  proof cases
    case 3
    then have "n - length v \<le> m \<longleftrightarrow> n \<le> length v + m" for m by linarith
    with 3 "2.IH" show ?thesis by auto
  qed auto
qed

lemma view_list_size_eq [simp]: "view_list_size vs = length (concat vs)"
proof -
  have "foldl (\<lambda>ret v. ret + length v) acc vs = acc + length (concat vs)" for acc
    by (induction vs arbitrary: acc) auto
  then show ?thesis by (simp add: view_list_size_def)
qed

subsection \<open>The interface the clients rely on\<close>

locale consumable =
  fixes content :: "'r \<Rightarrow> bytes"
    and remove_prefix :: "nat \<Rightarrow> 'r \<Rightarrow> 'r result"
    and csize :: "'r \<Rightarrow> nat"
    and overrun :: exn
  assumes csize_content: "csize r = length (content r)"
    and remove_prefix_within:
      "n \<le> length (content r) \<Longrightarrow>
         \<exists>r'. remove_prefix n r = Inr r' \<and> content r' = drop n (content r)"
    and remove_prefix_beyond: "length (content r) < n \<Longrightarrow> remove_prefix n r = Inl overrun"
begin

lemma remove_prefix_content:
  assumes "remove_prefix n r = Inr r'"
  shows "content r' = drop n (content r)" and "n \<le> length (content r)"
  using assms remove_prefix_within [of n r] remove_prefix_beyond [of r n]
  by (cases "n \<le> length (content r)"; force)+

lemma remove_prefix_error_iff: "(\<exists>e. remove_prefix n r = Inl e) \<longleftrightarrow> length (content r) < n"
  using remove_prefix_within [of n r] remove_prefix_beyond [of r n]
  by (cases "n \<le> length (content r)") force+

lemma remove_prefix_twice:
  assumes "n + m \<le> length (content r)"
  shows "\<exists>r' r''. remove_prefix n r = Inr r' \<and> remove_prefix m r' = Inr r'' \<and>
                  content r'' = drop (n + m) (content r)"
proof -
  from assms obtain r' where r': "remove_prefix n r = Inr r'" "content r' = drop n (content r)"
    using remove_prefix_within [of n r] by auto
  with assms obtain r'' where "remove_prefix m r' = Inr r''" "content r'' = drop m (content r')"
    using remove_prefix_within [of m r'] by fastforce
  with r' show ?thesis by (auto simp: add.commute)
qed

end

locale byte_rope = consumable +
  fixes append :: "'r \<Rightarrow> 'r \<Rightarrow> 'r"
    and singleton :: "bytes \<Rightarrow> 'r"
  assumes content_append: "content (append r s) = content r @ content s"
    and content_singleton: "content (singleton xs) = xs"
begin

lemma enqueue_dequeue:
  assumes "remove_prefix n (append r (singleton xs)) = Inr r'" and "n \<le> csize r"
  shows "content r' = drop n (content r) @ xs"
  using remove_prefix_content [OF assms(1)] assms(2)
  by (simp add: content_append content_singleton csize_content)

end

interpretation buf: consumable buffer_str buffer_remove_prefix buffer_size
    "Out_of_range ''Buffer::remove_prefix''"
proof unfold_locales
  fix n r
  assume "n \<le> length (buffer_str r)"
  then show "\<exists>r'. buffer_remove_prefix n r = Inr r' \<and> buffer_str r' = drop n (buffer_str r)"
    using buffer_remove_prefix_defined buffer_remove_prefix_str by blast
qed (simp_all add: buffer_remove_prefix_def)

interpretation bufs: byte_rope buffer_list_concatenate buffer_list_remove_prefix buffer_list_size
    "Out_of_range ''BufferList::remove_prefix''" buffer_list_append buffer_list_of
  by unfold_locales (use buffer_list_remove_prefix_spec in auto)

interpretation views: consumable concat view_list_remove_prefix view_list_size
    "Out_of_range ''BufferListView::remove_prefix''"
  by unfold_locales (use view_list_remove_prefix_spec in auto)

end
