(* ===== verification/File_Descriptor.thy ===== *)
theory File_Descriptor
  imports Buffer "HOL-Library.Sublist"
begin

text \<open>
  File descriptors: \<^verbatim>\<open>libsponge/util/file_descriptor.{hh,cc}\<close> and the wrapper \<^verbatim>\<open>SystemCall\<close> of
  \<^verbatim>\<open>libsponge/util/util.cc\<close>. The operating system is a parameter: a record of system calls on a
  kernel state of any type. A system call returns its return value, as the integer the kernel
  returns, what it stores through its pointers, and the next kernel state; \<^verbatim>\<open>errno\<close> is read from
  that state. What the lemmas rely on is the predicate \<open>posix_io\<close>: reads and writes are observed
  as the list of the chunks they transfer. A \<^verbatim>\<open>FileDescriptor\<close> is a shared pointer to a wrapper;
  its operations act on the wrapper.
\<close>

subsection \<open>System calls\<close>

record pollfd =
  pfd_fd :: int
  pfd_events :: u16
  pfd_revents :: u16

record 'w posix =
  px_errno :: "'w \<Rightarrow> int"
  px_close :: "int \<Rightarrow> 'w \<Rightarrow> int \<times> 'w"
  px_read :: "int \<Rightarrow> nat \<Rightarrow> 'w \<Rightarrow> int \<times> bytes \<times> 'w"
  px_writev :: "int \<Rightarrow> (bytes \<times> nat) list \<Rightarrow> 'w \<Rightarrow> int \<times> 'w"
  px_getfl :: "int \<Rightarrow> 'w \<Rightarrow> int \<times> 'w"
  px_setfl :: "int \<Rightarrow> u32 \<Rightarrow> 'w \<Rightarrow> int \<times> 'w"
  px_shutdown :: "int \<Rightarrow> int \<Rightarrow> 'w \<Rightarrow> int \<times> 'w"
  px_poll :: "pollfd list \<Rightarrow> int \<Rightarrow> 'w \<Rightarrow> int \<times> u16 list \<times> 'w"

text \<open>\<^verbatim>\<open>SystemCall\<close> takes the return value as an \<^verbatim>\<open>int\<close>; a wider one is truncated.\<close>

definition to_int :: "int \<Rightarrow> int" where
  "to_int n = sint (word_of_int n :: 32 word)"

definition SystemCall :: "string \<Rightarrow> int \<Rightarrow> int \<Rightarrow> int \<Rightarrow> int result" where
  "SystemCall attempt return_value errno errno_mask =
     (if to_int return_value \<ge> 0 \<or> errno = errno_mask then Inr (to_int return_value)
      else Inl (Runtime_error attempt))"

definition size_of_int :: "int \<Rightarrow> u64" where
  "size_of_int n = word_of_int n"

text \<open>\<^verbatim>\<open>std::string::resize\<close> pads with zero bytes, and throws for a size beyond the maximal one.\<close>

definition string_resize :: "u64 \<Rightarrow> bytes \<Rightarrow> bytes result" where
  "string_resize n str =
     (if n \<ge> 2 ^ 62 then Inl (Length_error ''basic_string::_M_replace_aux'')
      else Inr (take (unat n) str @ replicate (unat n - length str) 0))"

subsection \<open>The wrapper\<close>

record fd_wrapper =
  fdw_fd :: int
  fdw_eof :: bool
  fdw_closed :: bool
  fdw_read_count :: u32
  fdw_write_count :: u32

definition fdw_init :: "int \<Rightarrow> fd_wrapper result" where
  "fdw_init fd =
     (if fd < 0 then Inl (Runtime_error ''invalid fd number'')
      else Inr \<lparr>fdw_fd = fd, fdw_eof = False, fdw_closed = False, fdw_read_count = 0, fdw_write_count = 0\<rparr>)"

definition fdw_close :: "'w posix \<Rightarrow> fd_wrapper \<Rightarrow> 'w \<Rightarrow> (fd_wrapper \<times> 'w) result" where
  "fdw_close sys f w =
     (let (ret, w) = px_close sys (fdw_fd f) w in
      bindE (SystemCall ''close'' ret (px_errno sys w) 0) (\<lambda>_.
        Inr (f\<lparr>fdw_eof := True, fdw_closed := True\<rparr>, w)))"

text \<open>The destructor prints an exception of \<^verbatim>\<open>close\<close> and goes on.\<close>

definition fdw_destroy :: "'w posix \<Rightarrow> fd_wrapper \<Rightarrow> 'w \<Rightarrow> 'w" where
  "fdw_destroy sys f w =
     (if fdw_closed f then w
      else case fdw_close sys f w of Inl _ \<Rightarrow> snd (px_close sys (fdw_fd f) w) | Inr (_, w) \<Rightarrow> w)"

definition fd_register_read :: "fd_wrapper \<Rightarrow> fd_wrapper" where
  "fd_register_read f = f\<lparr>fdw_read_count := fdw_read_count f + 1\<rparr>"

definition fd_register_write :: "fd_wrapper \<Rightarrow> fd_wrapper" where
  "fd_register_write f = f\<lparr>fdw_write_count := fdw_write_count f + 1\<rparr>"

definition fd_num :: "fd_wrapper \<Rightarrow> int" where
  "fd_num f = fdw_fd f"

definition fd_eof :: "fd_wrapper \<Rightarrow> bool" where
  "fd_eof f = fdw_eof f"

definition fd_closed :: "fd_wrapper \<Rightarrow> bool" where
  "fd_closed f = fdw_closed f"

definition fd_read_count :: "fd_wrapper \<Rightarrow> u32" where
  "fd_read_count f = fdw_read_count f"

definition fd_write_count :: "fd_wrapper \<Rightarrow> u32" where
  "fd_write_count f = fdw_write_count f"

subsection \<open>Reading\<close>

definition BUFFER_SIZE :: u64 where "BUFFER_SIZE = 1024 * 1024"

definition fd_read_into :: "'w posix \<Rightarrow> u64 \<Rightarrow> bytes \<Rightarrow> fd_wrapper \<Rightarrow> 'w \<Rightarrow> (bytes \<times> fd_wrapper \<times> 'w) result" where
  "fd_read_into sys limit str f w =
     (let size_to_read = min BUFFER_SIZE limit in
      bindE (string_resize size_to_read str) (\<lambda>str.
      let (ret, stored, w) = px_read sys (fd_num f) (unat size_to_read) w in
      bindE (SystemCall ''read'' ret (px_errno sys w) 0) (\<lambda>bytes_read.
      let str = stored @ drop (length stored) str;
          f = (if limit > 0 \<and> bytes_read = 0 then f\<lparr>fdw_eof := True\<rparr> else f)
      in if bytes_read > uint size_to_read then Inl (Runtime_error ''read() read more than requested'')
         else bindE (string_resize (size_of_int bytes_read) str) (\<lambda>str. Inr (str, fd_register_read f, w)))))"

definition fd_read :: "'w posix \<Rightarrow> u64 \<Rightarrow> fd_wrapper \<Rightarrow> 'w \<Rightarrow> (bytes \<times> fd_wrapper \<times> 'w) result" where
  "fd_read sys limit f w = fd_read_into sys limit [] f w"

subsection \<open>Writing\<close>

text \<open>One round of the loop of \<^verbatim>\<open>write\<close>: what is left, and the number of bytes written.\<close>

definition fd_write_round ::
  "'w posix \<Rightarrow> buffer_view_list \<Rightarrow> fd_wrapper \<Rightarrow> 'w \<Rightarrow> (buffer_view_list \<times> int \<times> fd_wrapper \<times> 'w) result" where
  "fd_write_round sys buffer f w =
     (let (ret, w) = px_writev sys (fd_num f) (view_list_as_iovecs buffer) w in
      bindE (SystemCall ''writev'' ret (px_errno sys w) 0) (\<lambda>bytes_written.
      if bytes_written = 0 \<and> view_list_size buffer \<noteq> 0
      then Inl (Runtime_error ''write returned 0 given non-empty input buffer'')
      else if bytes_written > int (view_list_size buffer)
      then Inl (Runtime_error ''write wrote more than length of input buffer'')
      else bindE (view_list_remove_prefix (unat (size_of_int bytes_written)) buffer) (\<lambda>buffer.
        Inr (buffer, bytes_written, fd_register_write f, w))))"

lemma to_int_bounds: "- (2 ^ 31) \<le> to_int n" "to_int n < 2 ^ 31"
  using sint_range_size [of "word_of_int n :: 32 word"] by (simp_all add: to_int_def word_size)

lemma fd_write_round_shrinks:
  assumes "fd_write_round sys buffer f w = Inr (buffer', n, f', w')" and "view_list_size buffer' \<noteq> 0"
  shows "view_list_size buffer' < view_list_size buffer"
proof -
  from assms(1) obtain ret where n: "n = to_int ret" "\<not> (n = 0 \<and> view_list_size buffer \<noteq> 0)"
    and rm: "view_list_remove_prefix (unat (size_of_int n)) buffer = Inr buffer'"
    by (auto simp: fd_write_round_def SystemCall_def bindE_eq_Inr_iff Let_def simp del: view_list_size_eq
        split: prod.splits if_splits)
  note c = views.remove_prefix_content [OF rm]
  have "n \<noteq> 0 \<or> concat buffer = []" using n(2) by auto
  moreover have "concat buffer \<noteq> []"
  proof
    assume "concat buffer = []"
    with c(1) assms(2) show False by simp
  qed
  ultimately have "n \<noteq> 0" by blast
  moreover have "\<bar>n\<bar> < 2 ^ 63" using to_int_bounds [of ret] n(1) by (simp add: abs_less_iff)
  ultimately have "size_of_int n \<noteq> 0"
    unfolding size_of_int_def word_of_int_eq_0_iff using zdvd_imp_le [of "2 ^ 64" "\<bar>n\<bar>"] by auto
  then have "0 < unat (size_of_int n)" by (simp add: unat_gt_0)
  with c assms(2) show ?thesis by simp
qed

function fd_write_loop ::
  "'w posix \<Rightarrow> bool \<Rightarrow> buffer_view_list \<Rightarrow> u64 \<Rightarrow> fd_wrapper \<Rightarrow> 'w \<Rightarrow> (u64 \<times> fd_wrapper \<times> 'w) result" where
  "fd_write_loop sys write_all buffer total_bytes_written f w =
     (case fd_write_round sys buffer f w of
        Inl e \<Rightarrow> Inl e
      | Inr (buffer, bytes_written, f, w) \<Rightarrow>
          let total_bytes_written = total_bytes_written + size_of_int bytes_written in
          if write_all \<and> view_list_size buffer \<noteq> 0
          then fd_write_loop sys write_all buffer total_bytes_written f w
          else Inr (total_bytes_written, f, w))"
  by pat_completeness auto
termination
  by (relation "measure (\<lambda>(sys, wa, buffer, t, f, w). view_list_size buffer)")
    (auto dest!: fd_write_round_shrinks)

declare fd_write_loop.simps [simp del]

definition fd_write :: "'w posix \<Rightarrow> buffer_view_list \<Rightarrow> bool \<Rightarrow> fd_wrapper \<Rightarrow> 'w \<Rightarrow> (u64 \<times> fd_wrapper \<times> 'w) result" where
  "fd_write sys buffer write_all f w = fd_write_loop sys write_all buffer 0 f w"

subsection \<open>Blocking\<close>

definition O_NONBLOCK :: u32 where "O_NONBLOCK = 0x800"

definition fd_set_blocking :: "'w posix \<Rightarrow> bool \<Rightarrow> fd_wrapper \<Rightarrow> 'w \<Rightarrow> 'w result" where
  "fd_set_blocking sys blocking_state f w =
     (let (ret, w) = px_getfl sys (fd_num f) w in
      bindE (SystemCall ''fcntl'' ret (px_errno sys w) 0) (\<lambda>n.
      let flags = word_of_int n :: u32;
          flags = (if blocking_state then flags XOR (flags AND O_NONBLOCK) else flags OR O_NONBLOCK);
          (ret, w) = px_setfl sys (fd_num f) flags w
      in bindE (SystemCall ''fcntl'' ret (px_errno sys w) 0) (\<lambda>_. Inr w)))"

lemma to_int_small [simp]: "0 \<le> n \<Longrightarrow> n < 2 ^ 31 \<Longrightarrow> to_int n = n"
  by (simp add: to_int_def sint_sbintrunc' signed_take_bit_int_eq_self)

lemma to_int_minus_1 [simp]: "to_int (- 1) = - 1"
  by (simp add: to_int_def)

lemma size_of_int_nat: "0 \<le> n \<Longrightarrow> n < 2 ^ 64 \<Longrightarrow> unat (size_of_int n) = nat n"
  by (simp add: size_of_int_def unat_eq_nat_uint uint_word_of_int)

subsection \<open>What the kernel promises\<close>

text \<open>
  \<open>taken fd w\<close> are the chunks that reads of the descriptor \<open>fd\<close> have returned up to the kernel
  state \<open>w\<close>, \<open>given fd w\<close> those that writes to it have accepted. A read that succeeds stores as
  many bytes as it returns, and no more than were asked for; a write that succeeds accepts a
  prefix of what it is given; a call that fails sets \<^verbatim>\<open>errno\<close>; no other call reads or writes; and
  \<^verbatim>\<open>poll\<close> answers for every descriptor it is asked about.
\<close>

record 'w traffic =
  taken :: "int \<Rightarrow> 'w \<Rightarrow> bytes list"
  given :: "int \<Rightarrow> 'w \<Rightarrow> bytes list"

definition quiet :: "'w traffic \<Rightarrow> 'w \<Rightarrow> 'w \<Rightarrow> bool" where
  "quiet t w w' \<longleftrightarrow> (\<forall>fd. taken t fd w' = taken t fd w \<and> given t fd w' = given t fd w)"

definition posix_read :: "'w posix \<Rightarrow> 'w traffic \<Rightarrow> bool" where
  "posix_read sys t \<longleftrightarrow> (\<forall>fd n w. case px_read sys fd n w of (ret, stored, w') \<Rightarrow>
     (if ret < 0 then ret = -1 \<and> px_errno sys w' \<noteq> 0 \<and> quiet t w w'
      else ret \<le> int n \<and> length stored = nat ret \<and>
        (\<forall>x. given t x w' = given t x w \<and> taken t x w' = (if x = fd then taken t x w @ [stored] else taken t x w))))"

definition posix_writev :: "'w posix \<Rightarrow> 'w traffic \<Rightarrow> bool" where
  "posix_writev sys t \<longleftrightarrow> (\<forall>fd iov w. case px_writev sys fd iov w of (ret, w') \<Rightarrow>
     (if ret < 0 then ret = -1 \<and> px_errno sys w' \<noteq> 0 \<and> quiet t w w'
      else ret \<le> int (length (concat (map fst iov))) \<and>
        (\<forall>x. taken t x w' = taken t x w \<and>
          given t x w' = (if x = fd then given t x w @ [take (nat ret) (concat (map fst iov))] else given t x w))))"

definition posix_io :: "'w posix \<Rightarrow> 'w traffic \<Rightarrow> bool" where
  "posix_io sys t \<longleftrightarrow> posix_read sys t \<and> posix_writev sys t \<and>
     (\<forall>fd w. quiet t w (snd (px_close sys fd w))) \<and> (\<forall>fd w. quiet t w (snd (px_getfl sys fd w))) \<and>
     (\<forall>fd n w. quiet t w (snd (px_setfl sys fd n w))) \<and> (\<forall>fd how w. quiet t w (snd (px_shutdown sys fd how w))) \<and>
     (\<forall>fds ms w. quiet t w (snd (snd (px_poll sys fds ms w))) \<and> length (fst (snd (px_poll sys fds ms w))) = length fds)"

lemma quiet_refl [simp]: "quiet t w w"
  by (simp add: quiet_def)

lemma quiet_trans: "quiet t w w' \<Longrightarrow> quiet t w' w'' \<Longrightarrow> quiet t w w''"
  by (simp add: quiet_def)

lemma fdw_close_ok:
  assumes "posix_io sys t"
  shows "outcome (\<lambda>e. e = Runtime_error ''close'')
    (\<lambda>(f', w'). quiet t w w' \<and> f' = f\<lparr>fdw_eof := True, fdw_closed := True\<rparr>) (fdw_close sys f w)"
proof -
  obtain ret w' where r: "px_close sys (fdw_fd f) w = (ret, w')" by (cases "px_close sys (fdw_fd f) w")
  have "quiet t w (snd (px_close sys (fdw_fd f) w))" using assms unfolding posix_io_def by blast
  with r show ?thesis by (auto simp: fdw_close_def SystemCall_def)
qed

lemma fd_set_blocking_ok:
  assumes "posix_io sys t" and "fd_set_blocking sys b f w = Inr w'"
  shows "quiet t w w'"
proof -
  obtain ret w1 where r: "px_getfl sys (fdw_fd f) w = (ret, w1)" by (cases "px_getfl sys (fdw_fd f) w")
  have "quiet t w (snd (px_getfl sys (fdw_fd f) w))" using assms(1) unfolding posix_io_def by blast
  moreover have "quiet t w1 (snd (px_setfl sys (fdw_fd f) flags w1))" for flags using assms(1) unfolding posix_io_def by blast
  moreover from assms(2) r obtain flags where "w' = snd (px_setfl sys (fdw_fd f) flags w1)"
    by (auto simp: fd_set_blocking_def fd_num_def bindE_eq_Inr_iff Let_def split_beta)
  ultimately show ?thesis using r quiet_trans by fastforce
qed

lemma fd_read_ok:
  assumes io: "posix_io sys t"
  shows "outcome (\<lambda>e. e = Runtime_error ''read'')
    (\<lambda>(d, f', w'). length d \<le> unat limit \<and>
        f' = fd_register_read (if limit > 0 \<and> d = [] then f\<lparr>fdw_eof := True\<rparr> else f) \<and>
        (\<exists>ret. 0 \<le> ret \<and> px_read sys (fdw_fd f) (unat (min BUFFER_SIZE limit)) w = (ret, d, w')) \<and>
        (\<forall>x. given t x w' = given t x w \<and> taken t x w' = (if x = fdw_fd f then taken t x w @ [d] else taken t x w)))
    (fd_read sys limit f w)"
proof -
  let ?n = "min BUFFER_SIZE limit"
  obtain ret stored w' where r: "px_read sys (fdw_fd f) (unat ?n) w = (ret, stored, w')"
    by (cases "px_read sys (fdw_fd f) (unat ?n) w")
  have n: "unat ?n \<le> 1048576" "unat ?n \<le> unat limit" by (simp_all add: min_def word_le_nat_alt BUFFER_SIZE_def)
  have str: "string_resize ?n [] = Inr (replicate (unat ?n) 0)"
    using n(1) by (simp add: string_resize_def word_le_nat_alt)
  have spec: "if ret < 0 then ret = -1 \<and> px_errno sys w' \<noteq> 0 \<and> quiet t w w'
      else ret \<le> int (unat ?n) \<and> length stored = nat ret \<and>
        (\<forall>x. given t x w' = given t x w \<and> taken t x w' = (if x = fdw_fd f then taken t x w @ [stored] else taken t x w))"
    using io r by (auto simp: posix_io_def posix_read_def dest!: spec [of _ "fdw_fd f"] spec [of _ "unat ?n"] spec [of _ w])
  show ?thesis
  proof (cases "ret < 0")
    case True
    with spec show ?thesis by (simp add: fd_read_def fd_read_into_def str r SystemCall_def fd_num_def Let_def)
  next
    case False
    with spec have b: "0 \<le> ret" "ret \<le> int (unat ?n)" "length stored = nat ret"
      unfolding if_not_P [OF False] by (simp_all only: not_less)
    have "ret \<le> 1048576" using b(2) n(1) by linarith
    then have b31: "ret < 2 ^ 31" by simp
    then have ti: "to_int ret = ret" using b(1) by simp
    have sz: "unat (size_of_int ret) = nat ret" using b(1) b31 by (intro size_of_int_nat) simp_all
    have "string_resize (size_of_int ret) (stored @ drop (length stored) (replicate (unat ?n) 0)) = Inr stored"
      using b b31 sz by (simp add: string_resize_def word_le_nat_alt)
    moreover have "\<not> uint ?n < ret" using b(2) by (simp add: not_less)
    moreover have "ret = 0 \<longleftrightarrow> stored = []" using b by auto
    ultimately have "fd_read sys limit f w =
        Inr (stored, fd_register_read (if limit > 0 \<and> stored = [] then f\<lparr>fdw_eof := True\<rparr> else f), w')"
      using b(1) by (simp add: fd_read_def fd_read_into_def str r SystemCall_def fd_num_def ti Let_def)
    moreover have "nat ret \<le> unat ?n" using b(2) by (simp only: nat_le_iff)
    then have "length stored \<le> unat limit" using b(3) n(2) by linarith
    ultimately show ?thesis using spec b(1) r unfolding if_not_P [OF False] by simp
  qed
qed

text \<open>A write accepts a prefix of the buffer, in as many chunks as it takes.\<close>

definition fd_gave :: "'w traffic \<Rightarrow> bytes list \<Rightarrow> fd_wrapper \<Rightarrow> 'w \<Rightarrow> fd_wrapper \<Rightarrow> 'w \<Rightarrow> bool" where
  "fd_gave t chunks f w f' w' \<longleftrightarrow>
     f' = f\<lparr>fdw_write_count := fdw_write_count f + of_nat (length chunks)\<rparr> \<and>
     (\<forall>x. taken t x w' = taken t x w \<and> given t x w' = (if x = fdw_fd f then given t x w @ chunks else given t x w))"

lemma fd_gave_trans: "fd_gave t c1 f w f1 w1 \<Longrightarrow> fd_gave t c2 f1 w1 f2 w2 \<Longrightarrow> fd_gave t (c1 @ c2) f w f2 w2"
  by (auto simp: fd_gave_def add_ac)

definition write_error :: "exn \<Rightarrow> bool" where
  "write_error e \<longleftrightarrow> e = Runtime_error ''writev'' \<or> e = Runtime_error ''write returned 0 given non-empty input buffer''"

lemma fd_write_round_ok:
  assumes io: "posix_io sys t" and size: "length (concat buffer) < 2 ^ 31"
  shows "case fd_write_round sys buffer f w of
      Inl e \<Rightarrow> write_error e
    | Inr (buffer', n, f', w') \<Rightarrow> 0 \<le> n \<and> n < 2 ^ 31 \<and> nat n \<le> length (concat buffer) \<and>
        concat buffer' = drop (nat n) (concat buffer) \<and> fd_gave t [take (nat n) (concat buffer)] f w f' w'"
proof -
  let ?iov = "view_list_as_iovecs buffer"
  have iov: "concat (map fst ?iov) = concat buffer" by (simp add: view_list_as_iovecs_def comp_def)
  obtain ret w' where r: "px_writev sys (fdw_fd f) ?iov w = (ret, w')" by (cases "px_writev sys (fdw_fd f) ?iov w")
  have spec: "if ret < 0 then ret = -1 \<and> px_errno sys w' \<noteq> 0 \<and> quiet t w w'
      else ret \<le> int (length (concat buffer)) \<and>
        (\<forall>x. taken t x w' = taken t x w \<and>
          given t x w' = (if x = fdw_fd f then given t x w @ [take (nat ret) (concat buffer)] else given t x w))"
    using io r unfolding iov [symmetric] posix_io_def posix_writev_def
    by (auto dest!: spec [of _ "fdw_fd f"] spec [of _ ?iov] spec [of _ w])
  show ?thesis
  proof (cases "ret < 0")
    case True
    with spec show ?thesis
      by (simp add: fd_write_round_def r SystemCall_def fd_num_def Let_def write_error_def)
  next
    case False
    with spec have b: "0 \<le> ret" "ret \<le> int (length (concat buffer))" unfolding if_not_P [OF False] by (simp_all only: not_less)
    with size have b31: "ret < 2 ^ 31" by simp
    then have ti: "to_int ret = ret" using b(1) by simp
    have sz: "unat (size_of_int ret) = nat ret" using b(1) b31 by (intro size_of_int_nat) simp_all
    from b have le: "nat ret \<le> length (concat buffer)" by simp
    then obtain buffer' where rm: "view_list_remove_prefix (nat ret) buffer = Inr buffer'" "concat buffer' = drop (nat ret) (concat buffer)"
      using views.remove_prefix_within by blast
    have eq: "fd_write_round sys buffer f w =
        (if ret = 0 \<and> concat buffer \<noteq> [] then Inl (Runtime_error ''write returned 0 given non-empty input buffer'')
         else Inr (buffer', ret, fd_register_write f, w'))"
      using b by (simp add: fd_write_round_def r SystemCall_def fd_num_def Let_def ti sz rm(1))
    show ?thesis
      using spec b(1) b31 le rm(2) unfolding if_not_P [OF False] eq by (simp add: write_error_def fd_gave_def fd_register_write_def)
  qed
qed

lemma fd_write_loop_ok:
  assumes "posix_io sys t" and "length (concat buffer) < 2 ^ 31" and "unat n + length (concat buffer) < 2 ^ 64"
  shows "case fd_write_loop sys write_all buffer n f w of
      Inl e \<Rightarrow> write_error e
    | Inr (n', f', w') \<Rightarrow> \<exists>chunks. fd_gave t chunks f w f' w' \<and> prefix (concat chunks) (concat buffer) \<and>
        unat n' = unat n + length (concat chunks) \<and> (if write_all then concat chunks = concat buffer else length chunks = 1)"
  using assms
proof (induction sys write_all buffer n f w rule: fd_write_loop.induct)
  case (1 sys write_all buffer n f w)
  note ok = fd_write_round_ok [OF "1.prems"(1,2), of f w]
  show ?case
  proof (cases "fd_write_round sys buffer f w")
    case (Inl e)
    with ok show ?thesis by (simp add: fd_write_loop.simps [of sys])
  next
    case (Inr r)
    obtain buffer' k f1 w1 where r: "r = (buffer', k, f1, w1)" by (cases r)
    with ok Inr have k: "0 \<le> k" "k < 2 ^ 31" "nat k \<le> length (concat buffer)"
      and rest: "concat buffer' = drop (nat k) (concat buffer)"
      and gave: "fd_gave t [take (nat k) (concat buffer)] f w f1 w1" by auto
    define n1 where "n1 = n + size_of_int k"
    have "unat (size_of_int k) = nat k" using k(1,2) by (intro size_of_int_nat) simp_all
    then have n1: "unat n1 = unat n + nat k"
      unfolding n1_def using "1.prems"(3) k(3) by (subst unat_add_nowrap) simp_all
    show ?thesis
    proof (cases "write_all \<and> view_list_size buffer' \<noteq> 0")
      case True
      have loop: "fd_write_loop sys write_all buffer n f w = fd_write_loop sys write_all buffer' n1 f1 w1"
        using True Inr r by (simp add: fd_write_loop.simps [of sys _ buffer] n1_def)
      have sizes: "length (concat buffer') < 2 ^ 31" "unat n1 + length (concat buffer') < 2 ^ 64"
        using "1.prems"(2,3) k(3) rest n1 by simp_all
      have ih: "case fd_write_loop sys write_all buffer' n1 f1 w1 of
          Inl e \<Rightarrow> write_error e
        | Inr (n', f', w') \<Rightarrow> \<exists>chunks. fd_gave t chunks f1 w1 f' w' \<and> prefix (concat chunks) (concat buffer') \<and>
            unat n' = unat n1 + length (concat chunks) \<and> (if write_all then concat chunks = concat buffer' else length chunks = 1)"
        by (rule "1.IH" [OF Inr r [symmetric] refl refl n1_def True "1.prems"(1) sizes])
      show ?thesis
      proof (cases "fd_write_loop sys write_all buffer' n1 f1 w1")
        case (Inl e)
        with ih show ?thesis unfolding loop by simp
      next
        case (Inr r')
        obtain n' f' w' where r': "r' = (n', f', w')" by (cases r')
        with ih Inr True obtain chunks where c: "fd_gave t chunks f1 w1 f' w'" "concat chunks = concat buffer'"
          "unat n' = unat n1 + length (concat chunks)" by auto
        have "concat (take (nat k) (concat buffer) # chunks) = concat buffer" using c(2) rest by simp
        moreover have "fd_gave t (take (nat k) (concat buffer) # chunks) f w f' w'" using fd_gave_trans [OF gave c(1)] by simp
        ultimately show ?thesis
          using c(2,3) n1 k(3) rest True Inr r' unfolding loop
          by (auto intro!: exI [of _ "take (nat k) (concat buffer) # chunks"])
      qed
    next
      case False
      then have "fd_write_loop sys write_all buffer n f w = Inr (n1, f1, w1)"
        using Inr r by (auto simp: fd_write_loop.simps [of sys _ buffer] n1_def Let_def)
      moreover have "write_all \<Longrightarrow> take (nat k) (concat buffer) = concat buffer" using False rest by simp
      ultimately show ?thesis
        using gave n1 k(3) by (auto intro!: exI [of _ "[take (nat k) (concat buffer)]"] simp: take_is_prefix)
    qed
  qed
qed

lemma fd_write_ok:
  assumes "posix_io sys t" and "length (concat buffer) < 2 ^ 31"
  shows "outcome write_error
    (\<lambda>(n, f', w'). \<exists>chunks. fd_gave t chunks f w f' w' \<and> prefix (concat chunks) (concat buffer) \<and>
        unat n = length (concat chunks) \<and> (if write_all then concat chunks = concat buffer else length chunks = 1))
    (fd_write sys buffer write_all f w)"
proof -
  have "unat (0 :: u64) + length (concat buffer) < 2 ^ 64" using assms(2) by simp
  from fd_write_loop_ok [OF assms this, where write_all = write_all and f = f and w = w] show ?thesis unfolding fd_write_def outcome_def by (simp only: unat_0 add_0)
qed

text \<open>A device that takes every write as a whole gets one chunk.\<close>

lemma fd_write_whole:
  assumes io: "posix_io sys t" and size: "length (concat buffer) < 2 ^ 31"
    and whole: "\<And>iov w. fst (px_writev sys (fdw_fd f) iov w) < 0 \<or> fst (px_writev sys (fdw_fd f) iov w) = int (length (concat (map fst iov)))"
  shows "outcome write_error (\<lambda>(n, f', w'). fd_gave t [concat buffer] f w f' w') (fd_write sys buffer True f w)"
proof (cases "fd_write_round sys buffer f w")
  case (Inl e)
  with fd_write_round_ok [OF io size, of f w] show ?thesis by (simp add: fd_write_def fd_write_loop.simps [of sys])
next
  case (Inr x)
  obtain buffer' n f' w' where x: "x = (buffer', n, f', w')" by (cases x)
  with fd_write_round_ok [OF io size, of f w] Inr have n: "0 \<le> n" "n < 2 ^ 31" "nat n \<le> length (concat buffer)"
    and rest: "concat buffer' = drop (nat n) (concat buffer)" and gave: "fd_gave t [take (nat n) (concat buffer)] f w f' w'" by auto
  let ?call = "px_writev sys (fdw_fd f) (view_list_as_iovecs buffer) w"
  from Inr x have "n = to_int (fst ?call)" "\<not> to_int (fst ?call) < 0"
    using n(1) by (auto simp: fd_write_round_def SystemCall_def fd_num_def bindE_eq_Inr_iff Let_def split: prod.splits if_splits)
  moreover have "concat (map fst (view_list_as_iovecs buffer)) = concat buffer" by (simp add: view_list_as_iovecs_def comp_def)
  moreover have "fst ?call < 0 \<Longrightarrow> to_int (fst ?call) < 0"
  proof -
    assume "fst ?call < 0"
    moreover have "posix_writev sys t" using io by (simp add: posix_io_def)
    then have "case ?call of (ret, w') \<Rightarrow> ret < 0 \<longrightarrow> ret = -1"
      unfolding posix_writev_def by (auto split: prod.splits dest!: spec [of _ "view_list_as_iovecs buffer"] split: if_splits)
    ultimately have "fst ?call = - 1" by (auto split: prod.splits)
    then show "to_int (fst ?call) < 0" by simp
  qed
  ultimately have "n = int (length (concat buffer))" using whole [of "view_list_as_iovecs buffer" w] size by auto
  then have all: "nat n = length (concat buffer)" by simp
  then have "view_list_size buffer' = 0" using rest by simp
  with Inr x have "fd_write sys buffer True f w = Inr (0 + size_of_int n, f', w')" by (simp add: fd_write_def fd_write_loop.simps [of sys])
  with gave all show ?thesis by simp
qed

text \<open>Whatever relation the system call keeps, \<^verbatim>\<open>write\<close> keeps.\<close>

lemma fd_write_loop_keeps:
  assumes "\<And>fd iov w. R w (snd (px_writev sys fd iov w))" and "\<And>w w' w''. R w w' \<Longrightarrow> R w' w'' \<Longrightarrow> R w w''"
    and "fd_write_loop sys write_all buffer n f w = Inr (n', f', w')"
  shows "R w w'"
  using assms
proof (induction sys write_all buffer n f w rule: fd_write_loop.induct)
  case (1 sys write_all buffer n f w)
  from "1.prems"(3) obtain buffer1 k f1 w1 where r: "fd_write_round sys buffer f w = Inr (buffer1, k, f1, w1)"
    by (auto simp: fd_write_loop.simps [of sys _ buffer] split: sum.splits)
  then have "w1 = snd (px_writev sys (fdw_fd f) (view_list_as_iovecs buffer) w)"
    by (auto simp: fd_write_round_def fd_num_def bindE_eq_Inr_iff Let_def split: prod.splits if_splits)
  then have step: "R w w1" using "1.prems"(1) by simp
  show ?case
  proof (cases "write_all \<and> view_list_size buffer1 \<noteq> 0")
    case True
    with "1.prems"(3) r have rest: "fd_write_loop sys write_all buffer1 (n + size_of_int k) f1 w1 = Inr (n', f', w')"
      by (simp add: fd_write_loop.simps [of sys _ buffer])
    have "R w1 w'" by (rule "1.IH" [OF r refl refl refl refl True]) (fact "1.prems"(1), erule (1) "1.prems"(2), rule rest)
    with step "1.prems"(2) show ?thesis by blast
  next
    case False
    with "1.prems"(3) r step show ?thesis by (auto simp: fd_write_loop.simps [of sys _ buffer] Let_def)
  qed
qed

lemma fd_write_keeps:
  assumes "\<And>fd iov w. R w (snd (px_writev sys fd iov w))" and "\<And>w w' w''. R w w' \<Longrightarrow> R w' w'' \<Longrightarrow> R w w''"
  shows "fd_write sys buffer write_all f w = Inr (n, f', w') \<Longrightarrow> R w w'"
  unfolding fd_write_def by (rule fd_write_loop_keeps [where R = R]) (use assms in blast)+

subsection \<open>A kernel\<close>

text \<open>
  A kernel that keeps the promises: every descriptor has bytes to read, a write accepts a bounded
  number of bytes, nothing fails, and \<^verbatim>\<open>poll\<close> finds every descriptor ready for what is asked.
\<close>

record kernel =
  k_input :: "int \<Rightarrow> bytes"
  k_taken :: "int \<Rightarrow> bytes list"
  k_given :: "int \<Rightarrow> bytes list"

definition kernel_posix :: "nat \<Rightarrow> kernel posix" where
  "kernel_posix room =
     \<lparr>px_errno = (\<lambda>w. 0), px_close = (\<lambda>fd w. (0, w)),
      px_read = (\<lambda>fd n w. let d = take n (k_input w fd) in
        (int (length d), d, w\<lparr>k_input := (k_input w)(fd := drop n (k_input w fd)), k_taken := (k_taken w)(fd := k_taken w fd @ [d])\<rparr>)),
      px_writev = (\<lambda>fd iov w. let d = take (Suc room) (concat (map fst iov)) in
        (int (length d), w\<lparr>k_given := (k_given w)(fd := k_given w fd @ [d])\<rparr>)),
      px_getfl = (\<lambda>fd w. (0, w)), px_setfl = (\<lambda>fd n w. (0, w)), px_shutdown = (\<lambda>fd how w. (0, w)),
      px_poll = (\<lambda>fds ms w. (int (length fds), map pfd_events fds, w))\<rparr>"

definition kernel_traffic :: "kernel traffic" where
  "kernel_traffic = \<lparr>taken = (\<lambda>fd w. k_taken w fd), given = (\<lambda>fd w. k_given w fd)\<rparr>"

lemma posix_io_kernel: "posix_io (kernel_posix room) kernel_traffic"
  by (auto simp: posix_io_def posix_read_def posix_writev_def kernel_posix_def kernel_traffic_def quiet_def Let_def
      take_min_length min_def nat_add_distrib)

lemma kernel_calls [simp]:
  "px_poll (kernel_posix room) fds ms w = (int (length fds), map pfd_events fds, w)" "px_errno (kernel_posix room) w = 0"
  "px_getfl (kernel_posix room) fd w = (0, w)" "px_setfl (kernel_posix room) fd n w = (0, w)"
  "px_shutdown (kernel_posix room) fd how w = (0, w)"
  by (simp_all add: kernel_posix_def)

lemma kernel_read:
  assumes "length (k_input w (fdw_fd f)) \<le> unat limit" and "length (k_input w (fdw_fd f)) \<le> 1000"
  shows "fd_read (kernel_posix room) limit f w =
    (let d = k_input w (fdw_fd f)
     in Inr (d, fd_register_read (if limit > 0 \<and> d = [] then f\<lparr>fdw_eof := True\<rparr> else f),
             w\<lparr>k_input := (k_input w)(fdw_fd f := []), k_taken := (k_taken w)(fdw_fd f := k_taken w (fdw_fd f) @ [d])\<rparr>))"
proof -
  let ?n = "min BUFFER_SIZE limit" and ?d = "k_input w (fdw_fd f)"
  have n: "unat ?n \<le> 1048576" "length ?d \<le> unat ?n" using assms by (simp_all add: min_def word_le_nat_alt BUFFER_SIZE_def)
  then have str: "string_resize ?n [] = Inr (replicate (unat ?n) 0)" "take (unat ?n) ?d = ?d" "drop (unat ?n) ?d = []"
    by (simp_all add: string_resize_def word_le_nat_alt)
  have i: "to_int (int (length ?d)) = int (length ?d)" using assms(2) by simp
  have sz: "unat (size_of_int (int (length ?d))) = length ?d" using assms(2) size_of_int_nat [of "int (length ?d)"] by simp
  then have "string_resize (size_of_int (int (length ?d))) (?d @ drop (length ?d) (replicate (unat ?n) 0)) = Inr ?d"
    using assms(2) by (simp add: string_resize_def word_le_nat_alt)
  moreover have "\<not> uint ?n < int (length ?d)" using n(2) by (simp add: uint_nat del: of_nat_unat)
  moreover have "px_read (kernel_posix room) (fdw_fd f) (unat ?n) w = (int (length ?d), ?d,
      w\<lparr>k_input := (k_input w)(fdw_fd f := []), k_taken := (k_taken w)(fdw_fd f := k_taken w (fdw_fd f) @ [?d])\<rparr>)"
    by (simp add: kernel_posix_def Let_def str(2,3) del: length_take)
  ultimately show ?thesis by (simp add: fd_read_def fd_read_into_def str(1) SystemCall_def fd_num_def i Let_def)
qed

subsection \<open>Properties\<close>

text \<open>
  C37. A blocking write loses nothing. Whatever part of the buffer each \<^verbatim>\<open>writev\<close> accepts, \<^verbatim>\<open>write\<close> with
  \<^verbatim>\<open>write_all\<close> terminates; it either throws the error of the system call (or reports that the call
  accepted nothing), or returns the size of the buffer after the kernel has accepted all of it,
  in order and without anything else, and has counted every call.
\<close>

theorem write_all_writes_all:
  assumes "posix_io sys t" and "length (concat buffer) < 2 ^ 31"
  shows "case fd_write sys buffer True f w of
      Inl e \<Rightarrow> write_error e
    | Inr (n, f', w') \<Rightarrow> unat n = length (concat buffer) \<and>
        (\<exists>chunks. concat chunks = concat buffer \<and> given t (fd_num f) w' = given t (fd_num f) w @ chunks \<and>
           fd_write_count f' = fd_write_count f + of_nat (length chunks)) \<and>
        (\<forall>x. taken t x w' = taken t x w) \<and> (\<forall>x. x \<noteq> fd_num f \<longrightarrow> given t x w' = given t x w)"
  using fd_write_ok [OF assms, where write_all = True and f = f and w = w]
  by (auto simp: outcome_def fd_gave_def fd_num_def fd_write_count_def split: sum.splits)

theorem write_all_writes_all_witness:
  "let sys = kernel_posix 1; buffer = [[1, 2, 3], [], [4, 5]];
       f = \<lparr>fdw_fd = 7, fdw_eof = False, fdw_closed = False, fdw_read_count = 0, fdw_write_count = 0\<rparr>;
       w = \<lparr>k_input = (\<lambda>_. []), k_taken = (\<lambda>_. []), k_given = (\<lambda>_. [])\<rparr>
   in case fd_write sys buffer True f w of
      Inl e \<Rightarrow> write_error e
    | Inr (n, f', w') \<Rightarrow> unat n = length (concat buffer) \<and>
        (\<exists>chunks. concat chunks = concat buffer \<and> given kernel_traffic (fd_num f) w' = given kernel_traffic (fd_num f) w @ chunks \<and>
           fd_write_count f' = fd_write_count f + of_nat (length chunks)) \<and>
        (\<forall>x. taken kernel_traffic x w' = taken kernel_traffic x w) \<and>
        (\<forall>x. x \<noteq> fd_num f \<longrightarrow> given kernel_traffic x w' = given kernel_traffic x w)"
  unfolding Let_def by (rule write_all_writes_all [OF posix_io_kernel]) simp

end
