(* ===== verification/Event_Loop.thy ===== *)
theory Event_Loop
  imports File_Descriptor
begin

text \<open>
  The event loop of \<^verbatim>\<open>libsponge/util/eventloop.{hh,cc}\<close>. The state \<open>'s\<close> is everything the callbacks
  of the rules can reach, the kernel included; the shared pointer of a rule to a descriptor's
  wrapper is the function that reads the wrapper from the state. A callback returns the new state
  or an exception. The locale \<open>event_client\<close> is what a set of rules has to provide so that the
  loop keeps an invariant and its only exceptions are those of the environment.
\<close>

datatype direction = In | Out

definition POLLIN :: u16 where "POLLIN = 0x1"
definition POLLOUT :: u16 where "POLLOUT = 0x4"
definition POLLERR :: u16 where "POLLERR = 0x8"
definition POLLHUP :: u16 where "POLLHUP = 0x10"
definition POLLNVAL :: u16 where "POLLNVAL = 0x20"
definition EINTR :: int where "EINTR = 4"

fun direction_events :: "direction \<Rightarrow> u16" where
  "direction_events In = POLLIN"
| "direction_events Out = POLLOUT"

record 's rule =
  rl_fd :: "'s \<Rightarrow> fd_wrapper"
  rl_direction :: direction
  rl_callback :: "'s \<Rightarrow> 's result"
  rl_interest :: "'s \<Rightarrow> bool result"
  rl_cancel :: "'s \<Rightarrow> 's result"

datatype el_result = Success | Timeout | Exit

definition service_count :: "'s rule \<Rightarrow> 's \<Rightarrow> u32" where
  "service_count r s =
     (if rl_direction r = In then fd_read_count (rl_fd r s) else fd_write_count (rl_fd r s))"

definition el_add_rule ::
  "('s \<Rightarrow> fd_wrapper) \<Rightarrow> direction \<Rightarrow> ('s \<Rightarrow> 's result) \<Rightarrow> ('s \<Rightarrow> bool result) \<Rightarrow> ('s \<Rightarrow> 's result) \<Rightarrow>
   's rule list \<Rightarrow> 's rule list" where
  "el_add_rule fd direction callback interest cancel rules =
     rules @ [\<lparr>rl_fd = fd, rl_direction = direction, rl_callback = callback, rl_interest = interest, rl_cancel = cancel\<rparr>]"

subsection \<open>Waiting for the next event\<close>

text \<open>The first loop: rules whose descriptor is finished are cancelled, the others are to be polled.\<close>

fun el_setup :: "'s rule list \<Rightarrow> 's \<Rightarrow> (pollfd list \<times> bool \<times> 's rule list \<times> 's) result" where
  "el_setup [] s = Inr ([], False, [], s)"
| "el_setup (this_rule # rules) s =
     (if rl_direction this_rule = In \<and> fd_eof (rl_fd this_rule s)
      then bindE (rl_cancel this_rule s) (el_setup rules)
      else if fd_closed (rl_fd this_rule s)
      then bindE (rl_cancel this_rule s) (el_setup rules)
      else bindE (rl_interest this_rule s) (\<lambda>interested.
        let pfd = \<lparr>pfd_fd = fd_num (rl_fd this_rule s),
                   pfd_events = if interested then direction_events (rl_direction this_rule) else 0, pfd_revents = 0\<rparr>
        in bindE (el_setup rules s) (\<lambda>(pollfds, something_to_poll, rules, s).
             Inr (pfd # pollfds, interested \<or> something_to_poll, this_rule # rules, s))))"

text \<open>A rule whose descriptor is ready: the callback has to read or write it, or lose interest.\<close>

definition el_service :: "'s rule \<Rightarrow> 's \<Rightarrow> 's result" where
  "el_service this_rule s =
     (let count_before = service_count this_rule s in
      bindE (rl_callback this_rule s) (\<lambda>s.
        if count_before = service_count this_rule s then
          bindE (rl_interest this_rule s) (\<lambda>interested.
            if interested
            then Inl (Runtime_error ''EventLoop: busy wait detected: callback did not read/write fd and is still interested'')
            else Inr s)
        else Inr s))"

text \<open>The second loop, over the rules and what \<^verbatim>\<open>poll\<close> has said about each.\<close>

fun el_dispatch :: "'s rule list \<Rightarrow> pollfd list \<Rightarrow> 's \<Rightarrow> ('s rule list \<times> 's) result" where
  "el_dispatch [] pollfds s = Inr ([], s)"
| "el_dispatch (this_rule # rules) [] s = Inl (Undefined_behaviour ''pollfds[idx] out of range'')"
| "el_dispatch (this_rule # rules) (pfd # pollfds) s =
     (let poll_error = (pfd_revents pfd AND (POLLERR OR POLLNVAL)) \<noteq> 0;
          poll_ready = (pfd_revents pfd AND pfd_events pfd) \<noteq> 0;
          poll_hup = (pfd_revents pfd AND POLLHUP) \<noteq> 0
      in if poll_error then Inl (Runtime_error ''EventLoop: error on polled file descriptor'')
         else if poll_hup \<and> pfd_events pfd \<noteq> 0 \<and> \<not> poll_ready
         then bindE (rl_cancel this_rule s) (el_dispatch rules pollfds)
         else bindE (if poll_ready then el_service this_rule s else Inr s) (\<lambda>s.
              bindE (el_dispatch rules pollfds s) (\<lambda>(rules, s). Inr (this_rule # rules, s))))"

definition el_answer :: "pollfd list \<Rightarrow> u16 list \<Rightarrow> pollfd list" where
  "el_answer pollfds revents = map2 (\<lambda>p r. p\<lparr>pfd_revents := r\<rparr>) pollfds revents"

definition wait_next_event ::
  "(pollfd list \<Rightarrow> int \<Rightarrow> 's \<Rightarrow> int \<times> u16 list \<times> 's) \<Rightarrow> ('s \<Rightarrow> int) \<Rightarrow> int \<Rightarrow> 's rule list \<Rightarrow> 's \<Rightarrow>
   (el_result \<times> 's rule list \<times> 's) result" where
  "wait_next_event poll errno timeout_ms rules s =
     bindE (el_setup rules s) (\<lambda>(pollfds, something_to_poll, rules, s).
       if \<not> something_to_poll then Inr (Exit, rules, s)
       else
         let (ret, revents, s) = poll pollfds timeout_ms s;
             process = bindE (el_dispatch rules (el_answer pollfds revents) s) (\<lambda>(rules, s). Inr (Success, rules, s))
         in case SystemCall ''poll'' ret (errno s) 0 of
              Inr n \<Rightarrow> if n = 0 then Inr (Timeout, rules, s) else process
            | Inl _ \<Rightarrow> if errno s = EINTR then Inr (Exit, rules, s) else process)"

subsection \<open>What a client has to provide\<close>

definition poll_error :: exn where
  "poll_error = Runtime_error ''EventLoop: error on polled file descriptor''"

text \<open>The exceptions that only the environment causes.\<close>

definition system_error :: "exn \<Rightarrow> bool" where
  "system_error e \<longleftrightarrow> e = Runtime_error ''read'' \<or> write_error e \<or> e = Runtime_error ''close'' \<or>
     e = Runtime_error ''shutdown'' \<or> e = poll_error"

lemma system_error_intros [intro]:
  "e = Runtime_error ''read'' \<Longrightarrow> system_error e" "write_error e \<Longrightarrow> system_error e" "e = Runtime_error ''close'' \<Longrightarrow> system_error e"
  "e = Runtime_error ''shutdown'' \<Longrightarrow> system_error e" "system_error poll_error"
  by (simp_all add: system_error_def)

lemma subseq_distinct: "subseq xs ys \<Longrightarrow> distinct ys \<Longrightarrow> distinct xs"
  by (induction rule: list_emb.induct) (auto dest: list_emb_set)

text \<open>
  \<open>I R s\<close> is the invariant of the client while the rules \<open>R\<close> are registered: a rule that is
  cancelled leaves the set. \<open>G r s\<close> is what the callback of rule \<open>r\<close> may rely on: it holds when
  the rule is polled for something, which a reading rule is not once its descriptor is at the end
  of file, and the other rules and the kernel do not spoil it between the question and the answer
  of \<^verbatim>\<open>poll\<close>.
\<close>

locale event_client =
  fixes poll :: "pollfd list \<Rightarrow> int \<Rightarrow> 's \<Rightarrow> int \<times> u16 list \<times> 's" and errno :: "'s \<Rightarrow> int"
    and rules :: "'s rule list" and I :: "'s rule set \<Rightarrow> 's \<Rightarrow> bool" and G :: "'s rule \<Rightarrow> 's \<Rightarrow> bool" and E :: "exn \<Rightarrow> bool"
  assumes rules_distinct: "distinct rules"
    and poll_answers: "I R s \<Longrightarrow> length (fst (snd (poll fds ms s))) = length fds"
    and poll_keeps: "I R s \<Longrightarrow> I R (snd (snd (poll fds ms s)))"
    and poll_guards: "r \<in> R \<Longrightarrow> R \<subseteq> set rules \<Longrightarrow> I R s \<Longrightarrow> G r s \<Longrightarrow> G r (snd (snd (poll fds ms s)))"
    and poll_fails: "E poll_error"
    and interest_defined: "r \<in> R \<Longrightarrow> R \<subseteq> set rules \<Longrightarrow> I R s \<Longrightarrow> \<exists>b. rl_interest r s = Inr b"
    and interest_guards: "r \<in> R \<Longrightarrow> R \<subseteq> set rules \<Longrightarrow> I R s \<Longrightarrow> rl_interest r s = Inr True \<Longrightarrow>
      \<not> (rl_direction r = In \<and> fd_eof (rl_fd r s)) \<Longrightarrow> G r s"
    and cancel_keeps: "r \<in> R \<Longrightarrow> R \<subseteq> set rules \<Longrightarrow> I R s \<Longrightarrow>
      outcome E (\<lambda>s'. I (R - {r}) s' \<and> (\<forall>r' \<in> set rules. r' \<noteq> r \<longrightarrow> G r' s \<longrightarrow> G r' s')) (rl_cancel r s)"
    and callback_keeps: "r \<in> R \<Longrightarrow> R \<subseteq> set rules \<Longrightarrow> I R s \<Longrightarrow> G r s \<Longrightarrow>
      outcome E (\<lambda>s'. I R s' \<and> (\<forall>r' \<in> set rules. r' \<noteq> r \<longrightarrow> G r' s \<longrightarrow> G r' s') \<and>
        (service_count r s' \<noteq> service_count r s \<or> rl_interest r s' = Inr False)) (rl_callback r s)"
begin

text \<open>Every rule that is polled for something has its guard.\<close>

definition guarded :: "pollfd list \<Rightarrow> 's rule list \<Rightarrow> 's \<Rightarrow> bool" where
  "guarded pfds rs s \<longleftrightarrow> list_all2 (\<lambda>p r. pfd_events p \<noteq> 0 \<longrightarrow> G r s) pfds rs"

lemma guarded_Nil [simp]: "guarded [] [] s"
  by (simp add: guarded_def)

lemma guarded_Cons: "guarded (p # ps) (r # rs) s \<longleftrightarrow> (pfd_events p \<noteq> 0 \<longrightarrow> G r s) \<and> guarded ps rs s"
  by (simp add: guarded_def)

lemma guarded_mono: "guarded ps rs s \<Longrightarrow> (\<And>r. r \<in> set rs \<Longrightarrow> G r s \<Longrightarrow> G r s') \<Longrightarrow> guarded ps rs s'"
  unfolding guarded_def by (erule list.rel_mono_strong) blast

lemma guarded_others:
  "guarded ps rs s \<Longrightarrow> \<forall>r' \<in> set rules. r' \<noteq> r \<longrightarrow> G r' s \<longrightarrow> G r' s' \<Longrightarrow> set rs \<subseteq> set rules \<Longrightarrow> r \<notin> set rs \<Longrightarrow> guarded ps rs s'"
  by (erule guarded_mono) auto

text \<open>In both loops \<open>K\<close> holds the rules that have been passed and kept.\<close>

lemma setup_keeps:
  "set rs \<union> K \<subseteq> set rules \<Longrightarrow> distinct rs \<Longrightarrow> set rs \<inter> K = {} \<Longrightarrow> I (set rs \<union> K) s \<Longrightarrow>
   outcome E (\<lambda>(pfds, any, rs', s'). I (set rs' \<union> K) s' \<and> guarded pfds rs' s' \<and> subseq rs' rs \<and>
     (\<forall>r \<in> set rules. r \<notin> set rs \<longrightarrow> G r s \<longrightarrow> G r s')) (el_setup rs s)"
proof (induction rs arbitrary: s K)
  case (Cons r rs)
  let ?P = "\<lambda>(pfds, any, rs', s'). I (set rs' \<union> K) s' \<and> guarded pfds rs' s' \<and> subseq rs' (r # rs) \<and>
     (\<forall>r' \<in> set rules. r' \<notin> set (r # rs) \<longrightarrow> G r' s \<longrightarrow> G r' s')"
  let ?R = "set (r # rs) \<union> K"
  have r: "r \<in> ?R" "?R \<subseteq> set rules" and rs: "set rs \<union> K \<subseteq> set rules" "set rs \<union> insert r K \<subseteq> set rules"
    and d: "distinct rs" "set rs \<inter> K = {}" "set rs \<inter> insert r K = {}" and R: "?R - {r} = set rs \<union> K" "?R = set rs \<union> insert r K"
    using Cons.prems(1-3) by auto
  have cancel: "outcome E ?P (bindE (rl_cancel r s) (el_setup rs))"
  proof (rule outcome_bindE [OF cancel_keeps [OF r Cons.prems(4), unfolded R(1)]])
    fix s1 assume s1: "I (set rs \<union> K) s1 \<and> (\<forall>r' \<in> set rules. r' \<noteq> r \<longrightarrow> G r' s \<longrightarrow> G r' s1)"
    show "outcome E ?P (el_setup rs s1)"
      by (rule outcome_mono [OF Cons.IH [OF rs(1) d(1,2), of s1]]) (use s1 in auto)
  qed
  from interest_defined [OF r Cons.prems(4)] obtain b where b: "rl_interest r s = Inr b" ..
  have "outcome E ?P (bindE (el_setup rs s) (\<lambda>(ps, any, rs', s'). Inr (p # ps, b \<or> any, r # rs', s')))"
    if p: "pfd_events p \<noteq> 0 \<longrightarrow> b" and more: "\<not> (rl_direction r = In \<and> fd_eof (rl_fd r s))" for p
  proof (rule outcome_bindE [OF Cons.IH [OF rs(2) d(1,3) Cons.prems(4) [unfolded R(2)]]])
    fix x :: "pollfd list \<times> bool \<times> 's rule list \<times> 's"
    assume "case x of (pfds, any, rs', s') \<Rightarrow> I (set rs' \<union> insert r K) s' \<and> guarded pfds rs' s' \<and> subseq rs' rs \<and>
     (\<forall>r \<in> set rules. r \<notin> set rs \<longrightarrow> G r s \<longrightarrow> G r s')"
    moreover have "pfd_events p \<noteq> 0 \<Longrightarrow> G r s" using p b interest_guards [OF r Cons.prems(4) _ more] by simp
    moreover have "r \<in> set rules" "r \<notin> set rs" using r d(3) by auto
    ultimately show "outcome E ?P (case x of (ps, any, rs', s') \<Rightarrow> Inr (p # ps, b \<or> any, r # rs', s'))"
      by (auto simp: guarded_Cons)
  qed
  with cancel b show ?case by simp
qed simp

lemma service_keeps: "r \<in> R \<Longrightarrow> R \<subseteq> set rules \<Longrightarrow> I R s \<Longrightarrow> G r s \<Longrightarrow>
    outcome E (\<lambda>s'. I R s' \<and> (\<forall>r' \<in> set rules. r' \<noteq> r \<longrightarrow> G r' s \<longrightarrow> G r' s')) (el_service r s)"
  unfolding el_service_def Let_def by (rule outcome_bindE [OF callback_keeps]) auto

lemma dispatch_keeps:
  "set rs \<union> K \<subseteq> set rules \<Longrightarrow> distinct rs \<Longrightarrow> set rs \<inter> K = {} \<Longrightarrow> I (set rs \<union> K) s \<Longrightarrow> guarded pfds rs s \<Longrightarrow>
   outcome E (\<lambda>(rs', s'). I (set rs' \<union> K) s' \<and> subseq rs' rs) (el_dispatch rs pfds s)"
proof (induction rs arbitrary: pfds s K)
  case (Cons r rs)
  then obtain p ps where pfds: "pfds = p # ps" by (cases pfds) (auto simp: guarded_def)
  let ?R = "set (r # rs) \<union> K"
  have r: "r \<in> ?R" "?R \<subseteq> set rules" and rs: "set rs \<union> K \<subseteq> set rules" "set rs \<union> insert r K \<subseteq> set rules" "set rs \<subseteq> set rules" "r \<notin> set rs"
    and d: "distinct rs" "set rs \<inter> K = {}" "set rs \<inter> insert r K = {}" and R: "?R - {r} = set rs \<union> K" "?R = set rs \<union> insert r K"
    using Cons.prems(1-3) by auto
  have g: "pfd_events p \<noteq> 0 \<longrightarrow> G r s" "guarded ps rs s" using Cons.prems(5) by (simp_all add: pfds guarded_Cons)
  let ?others = "\<lambda>s'. \<forall>r' \<in> set rules. r' \<noteq> r \<longrightarrow> G r' s \<longrightarrow> G r' s'"
  let ?P = "\<lambda>(rs', s'). I (set rs' \<union> K) s' \<and> subseq rs' (r # rs)"
  have others: "guarded ps rs s'" if "?others s'" for s' by (rule guarded_others [OF g(2) that rs(3,4)])
  have cancel: "outcome E ?P (bindE (rl_cancel r s) (el_dispatch rs ps))"
  proof (rule outcome_bindE [OF cancel_keeps [OF r Cons.prems(4), unfolded R(1)]])
    fix s1 assume "I (set rs \<union> K) s1 \<and> ?others s1"
    then show "outcome E ?P (el_dispatch rs ps s1)"
      by (intro outcome_mono [OF Cons.IH [OF rs(1) d(1,2)]] others) auto
  qed
  have serve: "outcome E (\<lambda>s'. I ?R s' \<and> ?others s') (if ready then el_service r s else Inr s)" if "ready \<longrightarrow> pfd_events p \<noteq> 0" for ready
    using service_keeps [OF r Cons.prems(4)] Cons.prems(4) that g(1) by simp
  have keep: "outcome E ?P (bindE (if ready then el_service r s else Inr s)
      (\<lambda>s. bindE (el_dispatch rs ps s) (\<lambda>(rs', s'). Inr (r # rs', s'))))" if "ready \<longrightarrow> pfd_events p \<noteq> 0" for ready
  proof (rule outcome_bindE [OF serve [OF that]])
    fix s1 assume "I ?R s1 \<and> ?others s1"
    then have "outcome E (\<lambda>(rs', s'). I (set rs' \<union> insert r K) s' \<and> subseq rs' rs) (el_dispatch rs ps s1)"
      by (intro Cons.IH [OF rs(2) d(1,3)] others) (auto simp: R(2))
    then show "outcome E ?P (bindE (el_dispatch rs ps s1) (\<lambda>(rs', s'). Inr (r # rs', s')))"
      by (rule outcome_bindE) auto
  qed
  have "(pfd_revents p AND pfd_events p) \<noteq> 0 \<longrightarrow> pfd_events p \<noteq> 0" by auto
  from keep [OF this] cancel show ?case unfolding pfds el_dispatch.simps Let_def
    using poll_fails by (simp add: poll_error_def [symmetric])
qed simp

lemma guarded_answer:
  assumes "length revents = length pfds" and "guarded pfds rs s"
  shows "guarded (el_answer pfds revents) rs s"
  using assms unfolding guarded_def el_answer_def by (auto simp: list_all2_conv_all_nth)

lemma wait_keeps:
  assumes "subseq rs rules" and "I (set rs) s"
  shows "outcome E (\<lambda>(_, rs', s'). I (set rs') s' \<and> subseq rs' rules) (wait_next_event poll errno ms rs s)"
  unfolding wait_next_event_def
proof (rule outcome_bindE [OF setup_keeps [where K = "{}"]])
  show "set rs \<union> {} \<subseteq> set rules" "distinct rs" using assms(1) rules_distinct by (auto dest: list_emb_set subseq_distinct)
  show "set rs \<inter> {} = {}" by simp
  show "I (set rs \<union> {}) s" using assms(2) by simp
  fix x :: "pollfd list \<times> bool \<times> 's rule list \<times> 's"
  assume x: "case x of (pfds, any, rs', s') \<Rightarrow> I (set rs' \<union> {}) s' \<and> guarded pfds rs' s' \<and> subseq rs' rs \<and>
    (\<forall>r \<in> set rules. r \<notin> set rs \<longrightarrow> G r s \<longrightarrow> G r s')"
  obtain pfds any rs1 s1 where eq: "x = (pfds, any, rs1, s1)" by (cases x)
  obtain ret revents s2 where poll: "poll pfds ms s1 = (ret, revents, s2)" by (cases "poll pfds ms s1")
  from x eq assms(1) have s1: "I (set rs1) s1" "guarded pfds rs1 s1" "subseq rs1 rules" by (auto intro: subseq_order.trans)
  have rs1: "set rs1 \<subseteq> set rules" "distinct rs1" using s1(3) rules_distinct by (auto dest: list_emb_set subseq_distinct)
  have s2: "I (set rs1) s2" using poll_keeps [OF s1(1), of pfds ms] poll by simp
  have "guarded pfds rs1 s2" by (rule guarded_mono [OF s1(2)]) (use poll_guards [OF _ rs1(1) s1(1), of _ pfds ms] poll in auto)
  moreover have "length revents = length pfds" using poll_answers [OF s1(1), of pfds ms] poll by simp
  ultimately have "guarded (el_answer pfds revents) rs1 s2" by (intro guarded_answer)
  from dispatch_keeps [where K = "{}", OF _ rs1(2) _ _ this] rs1(1) s2
  have "outcome E (\<lambda>(rs', s'). I (set rs') s' \<and> subseq rs' rs1) (el_dispatch rs1 (el_answer pfds revents) s2)" by simp
  then have "outcome E (\<lambda>(_, rs', s'). I (set rs') s' \<and> subseq rs' rules)
      (bindE (el_dispatch rs1 (el_answer pfds revents) s2) (\<lambda>(rules, s). Inr (Success, rules, s)))"
    by (rule outcome_bindE) (use s1(3) in \<open>auto intro: subseq_order.trans\<close>)
  then show "outcome E (\<lambda>(_, rs', s'). I (set rs') s' \<and> subseq rs' rules)
      (case x of (pollfds, something_to_poll, rules, s) \<Rightarrow>
        if \<not> something_to_poll then Inr (Exit, rules, s)
        else let (ret, revents, s) = poll pollfds ms s;
                 process = bindE (el_dispatch rules (el_answer pollfds revents) s) (\<lambda>(rules, s). Inr (Success, rules, s))
             in case SystemCall ''poll'' ret (errno s) 0 of
                  Inl _ \<Rightarrow> if errno s = EINTR then Inr (Exit, rules, s) else process
                | Inr n \<Rightarrow> if n = 0 then Inr (Timeout, rules, s) else process)"
    using s1 s2 by (simp add: eq poll Let_def split: sum.split)
qed

end

subsection \<open>Properties\<close>

lemma setup_idle:
  assumes "el_setup rs s = Inr (pfds, False, rs', s')"
    and "\<forall>r \<in> set rs. \<forall>s s'. rl_cancel r s = Inr s' \<longrightarrow> view s' = view s"
  shows "view s' = view s \<and> (\<forall>r \<in> set rs'. \<exists>s1. view s1 = view s \<and> rl_interest r s1 = Inr False)"
  using assms
proof (induction rs arbitrary: s pfds rs')
  case (Cons r rs)
  have rs: "\<forall>r \<in> set rs. \<forall>s s'. rl_cancel r s = Inr s' \<longrightarrow> view s' = view s" using Cons.prems(2) by simp
  show ?case
  proof (cases "rl_direction r = In \<and> fd_eof (rl_fd r s) \<or> fd_closed (rl_fd r s)")
    case True
    with Cons.prems(1) obtain s1 where "rl_cancel r s = Inr s1" "el_setup rs s1 = Inr (pfds, False, rs', s')"
      by (auto simp: bindE_eq_Inr_iff split: if_splits)
    with Cons.IH [OF _ rs] Cons.prems(2) show ?thesis by force
  next
    case False
    with Cons.prems(1) obtain ps rs1 where "rl_interest r s = Inr False" "el_setup rs s = Inr (ps, False, rs1, s')" "rs' = r # rs1"
      by (auto simp: bindE_eq_Inr_iff Let_def)
    with Cons.IH [OF _ rs] show ?thesis by auto
  qed
qed simp

lemma wait_exit:
  assumes "wait_next_event poll errno ms rs s = Inr (Exit, rs', s')" and "errno s' \<noteq> EINTR"
  shows "\<exists>pfds. el_setup rs s = Inr (pfds, False, rs', s')"
  using assms unfolding wait_next_event_def
  by (auto simp: bindE_eq_Inr_iff Let_def split: if_splits sum.splits prod.splits)

lemma setup_length: "el_setup rules s = Inr (pollfds, any, rules', s') \<Longrightarrow> length pollfds = length rules'"
  by (induction rules arbitrary: s pollfds any rules') (fastforce simp: bindE_eq_Inr_iff Let_def split: if_splits)+

lemma dispatch_idle: "length pollfds = length rules \<Longrightarrow> \<forall>p \<in> set pollfds. pfd_revents p = 0 \<Longrightarrow>
    el_dispatch rules pollfds s = Inr (rules, s)"
  by (induction rules arbitrary: pollfds) (auto simp: length_Suc_conv)

text \<open>
  C38. A failure of \<^verbatim>\<open>poll\<close> is swallowed. The comment says that an error during polling throws; but the
  handler that looks for an interrupted call ends the exception in every case. When \<^verbatim>\<open>poll\<close> fails with
  another error and leaves the results at zero, \<^verbatim>\<open>wait_next_event\<close> reports success without having
  called anything, so a caller that loops until the end loops for ever.
\<close>

theorem poll_failure_is_success:
  assumes "el_setup rules s = Inr (pollfds, True, rules', s')"
    and "poll pollfds timeout_ms s' = (-1, map (\<lambda>_. 0) pollfds, s'')" and "errno s'' \<noteq> EINTR"
  shows "wait_next_event poll errno timeout_ms rules s = Inr (Success, rules', s'')"
proof -
  have "el_dispatch rules' (el_answer pollfds (map (\<lambda>_. 0) pollfds)) s'' = Inr (rules', s'')"
    using setup_length [OF assms(1)] by (intro dispatch_idle) (auto simp: el_answer_def set_zip)
  with assms show ?thesis by (simp add: wait_next_event_def SystemCall_def split: sum.split)
qed

theorem poll_failure_is_success_witness:
  "let r = \<lparr>rl_fd = (\<lambda>_. \<lparr>fdw_fd = 3, fdw_eof = False, fdw_closed = False, fdw_read_count = 0, fdw_write_count = 0\<rparr>),
            rl_direction = In, rl_callback = Inr, rl_interest = (\<lambda>_. Inr True), rl_cancel = Inr\<rparr>
   in wait_next_event (\<lambda>fds ms s. (-1, map (\<lambda>_. 0) fds, s)) (\<lambda>_. 12) 10 [r] () = Inr (Success, [r], ())"
  unfolding Let_def
  by (rule poll_failure_is_success) (simp_all add: fd_eof_def fd_closed_def EINTR_def)

end
