(* ===== verification/Net_Parser.thy ===== *)
theory Net_Parser
  imports Buffer
begin

text \<open>
  Reading and writing network-order integers: \<^verbatim>\<open>libsponge/util/parser.{hh,cc}\<close>. A
  \<^verbatim>\<open>NetParser\<close> is the rest of the input and a sticky error; once an error is set every
  further read returns 0 and leaves the input alone. The templates \<^verbatim>\<open>_parse_int<T>\<close> and
  \<^verbatim>\<open>_unparse_int<T>\<close> are polymorphic in the word length.
\<close>

datatype parse_result =
    NoError
  | BadChecksum
  | PacketTooShort
  | WrongIPVersion
  | HeaderTooShort
  | TruncatedPacket
  | Unsupported

fun parse_result_index :: "parse_result \<Rightarrow> nat" where
  "parse_result_index NoError = 0"
| "parse_result_index BadChecksum = 1"
| "parse_result_index PacketTooShort = 2"
| "parse_result_index WrongIPVersion = 3"
| "parse_result_index HeaderTooShort = 4"
| "parse_result_index TruncatedPacket = 5"
| "parse_result_index Unsupported = 6"

definition parse_result_names :: "string list" where
  "parse_result_names =
     [''NoError'', ''BadChecksum'', ''PacketTooShort'', ''WrongIPVersion'', ''HeaderTooShort'',
      ''TruncatedPacket'']"

definition as_string :: "parse_result \<Rightarrow> string result" where
  "as_string r =
     (let i = parse_result_index r in
      if i < length parse_result_names then Inr (parse_result_names ! i)
      else Inl (Undefined_behaviour ''_names[] read past the end''))"

record net_parser =
  np_buffer :: buffer
  np_err :: parse_result

definition np_init :: "buffer \<Rightarrow> net_parser" where
  "np_init buffer = \<lparr>np_buffer = buffer, np_err = NoError\<rparr>"

definition np_get_error :: "net_parser \<Rightarrow> parse_result" where
  "np_get_error p = np_err p"

definition np_set_error :: "parse_result \<Rightarrow> net_parser \<Rightarrow> net_parser" where
  "np_set_error res p = p\<lparr>np_err := res\<rparr>"

definition np_error :: "net_parser \<Rightarrow> bool" where
  "np_error p \<longleftrightarrow> np_get_error p \<noteq> NoError"

definition np_check_size :: "nat \<Rightarrow> net_parser \<Rightarrow> net_parser" where
  "np_check_size n p =
     (if n > buffer_size (np_buffer p) then np_set_error PacketTooShort p else p)"

fun np_int_loop :: "nat list \<Rightarrow> buffer \<Rightarrow> 'a::len word \<Rightarrow> 'a word result" where
  "np_int_loop [] b ret = Inr ret"
| "np_int_loop (i # idx) b ret =
     bindE (buffer_at i b) (\<lambda>c. np_int_loop idx b (push_bit 8 ret + ucast c))"

definition np_parse_int :: "net_parser \<Rightarrow> ('a::len word \<times> net_parser) result" where
  "np_parse_int p =
     (let len = LENGTH('a) div 8;
          p = np_check_size len p
      in if np_error p then Inr (0, p)
         else bindE (np_int_loop [0..<len] (np_buffer p) 0) (\<lambda>ret.
              bindE (buffer_remove_prefix len (np_buffer p)) (\<lambda>b.
              Inr (ret, p\<lparr>np_buffer := b\<rparr>))))"

definition np_remove_prefix :: "nat \<Rightarrow> net_parser \<Rightarrow> net_parser result" where
  "np_remove_prefix n p =
     (let p = np_check_size n p in
      if np_error p then Inr p
      else bindE (buffer_remove_prefix n (np_buffer p)) (\<lambda>b. Inr (p\<lparr>np_buffer := b\<rparr>)))"

definition np_u32 :: "net_parser \<Rightarrow> (u32 \<times> net_parser) result" where
  "np_u32 p = np_parse_int p"

definition np_u16 :: "net_parser \<Rightarrow> (u16 \<times> net_parser) result" where
  "np_u16 p = np_parse_int p"

definition np_u8 :: "net_parser \<Rightarrow> (u8 \<times> net_parser) result" where
  "np_u8 p = np_parse_int p"

definition unparse_int :: "bytes \<Rightarrow> 'a::len word \<Rightarrow> bytes" where
  "unparse_int s val =
     (let len = LENGTH('a) div 8 in
      foldl (\<lambda>s i. s @ [ucast (drop_bit ((len - i - 1) * 8) val AND 0xff)]) s [0..<len])"

definition unparse_u32 :: "bytes \<Rightarrow> u32 \<Rightarrow> bytes" where
  "unparse_u32 s val = unparse_int s val"

definition unparse_u16 :: "bytes \<Rightarrow> u16 \<Rightarrow> bytes" where
  "unparse_u16 s val = unparse_int s val"

definition unparse_u8 :: "bytes \<Rightarrow> u8 \<Rightarrow> bytes" where
  "unparse_u8 s val = unparse_int s val"

text \<open>The loops that read or write the bytes of an array (an Ethernet address).\<close>

fun np_u8s :: "nat \<Rightarrow> net_parser \<Rightarrow> (bytes \<times> net_parser) result" where
  "np_u8s 0 p = Inr ([], p)"
| "np_u8s (Suc n) p = bindE (np_u8 p) (\<lambda>(b, p). bindE (np_u8s n p) (\<lambda>(bs, p). Inr (b # bs, p)))"

definition unparse_u8s :: "bytes \<Rightarrow> bytes \<Rightarrow> bytes" where
  "unparse_u8s s bs = foldl unparse_u8 s bs"

subsection \<open>Big-endian encodings\<close>

lemma and_ff: "(x :: 'a::len word) AND 255 = take_bit 8 x"
  by (simp add: take_bit_eq_mask mask_eq_exp_minus_1)

definition be :: "'a::len word \<Rightarrow> bytes" where
  "be v = map (\<lambda>i. ucast (drop_bit ((LENGTH('a) div 8 - i - 1) * 8) v AND 0xff)) [0..<LENGTH('a) div 8]"

lemma length_be [simp]: "length (be (v :: 'a::len word)) = LENGTH('a) div 8"
  by (simp add: be_def)

lemma unparse_int_eq: "unparse_int s v = s @ be v"
proof -
  have "foldl (\<lambda>s i. s @ [f i]) s xs = s @ map f xs" for f :: "nat \<Rightarrow> u8" and xs
    by (induction xs arbitrary: s) auto
  then show ?thesis by (simp add: unparse_int_def be_def Let_def)
qed

lemma be_u8: "be (v :: u8) = [v]"
  by (simp add: be_def and_ff take_bit_word_eq_self)

lemma unparse_eqs [simp]:
  "unparse_u32 s v32 = s @ be v32"
  "unparse_u16 s v16 = s @ be v16"
  "unparse_u8 s v8 = s @ [v8]"
  "unparse_u8s s bs = s @ bs"
proof -
  show "unparse_u32 s v32 = s @ be v32" "unparse_u16 s v16 = s @ be v16"
    by (simp_all add: unparse_u32_def unparse_u16_def unparse_int_eq)
  have 8: "unparse_u8 s v8 = s @ [v8]" for s v8
    by (simp add: unparse_u8_def unparse_int_eq be_u8)
  then show "unparse_u8 s v8 = s @ [v8]" .
  show "unparse_u8s s bs = s @ bs"
    unfolding unparse_u8s_def by (induction bs arbitrary: s) (simp_all add: 8)
qed

definition be_val :: "bytes \<Rightarrow> 'a::len word" where
  "be_val bs = foldl (\<lambda>ret c. push_bit 8 ret + ucast c) 0 bs"

lemma be_val_u8: "be_val [v] = (v :: u8)"
  by (simp add: be_val_def)

lemma upt_4: "[0..<4] = [0, 1, 2, 3 :: nat]"
  by (simp add: upt_rec)

lemma be_val_u16: "be_val (be (v :: u16)) = v"
proof -
  have "push_bit 8 (ucast (ucast (drop_bit 8 v AND 255) :: u8)) + ucast (ucast (v AND 255) :: u8) = v"
    by (rule bit_word_eqI, subst disjunctive_add) (auto simp: bit_simps and_ff)
  then show ?thesis by (simp add: be_val_def be_def upt_rec)
qed

lemma be_val_u32: "be_val (be (v :: u32)) = v"
proof -
  let ?b = "\<lambda>n. ucast (ucast (drop_bit n v AND 255) :: u8) :: u32"
  have 1: "push_bit 8 (?b 24) + ?b 16 = drop_bit 16 v"
    by (rule bit_word_eqI, subst disjunctive_add) (auto simp: bit_simps and_ff dest: bit_imp_le_length)
  have 2: "push_bit 8 (drop_bit 16 v) + ?b 8 = drop_bit 8 v"
    by (rule bit_word_eqI, subst disjunctive_add) (auto simp: bit_simps and_ff)
  have 3: "push_bit 8 (drop_bit 8 v) + ?b 0 = v"
    by (rule bit_word_eqI, subst disjunctive_add) (auto simp: bit_simps and_ff)
  have "be_val (be v) = push_bit 8 (push_bit 8 (push_bit 8 (?b 24) + ?b 16) + ?b 8) + ?b 0"
    by (simp add: be_val_def be_def upt_4)
  then show ?thesis by (simp only: 1 2 3)
qed

subsection \<open>Reading\<close>

text \<open>\<open>np_at rest p\<close>: no error so far and \<open>rest\<close> is still to be read.\<close>

definition np_at :: "bytes \<Rightarrow> net_parser \<Rightarrow> bool" where
  "np_at rest p \<longleftrightarrow> np_err p = NoError \<and> buffer_str (np_buffer p) = rest"

lemma np_at_init [simp]: "np_at rest (np_init b) \<longleftrightarrow> buffer_str b = rest"
  by (simp add: np_at_def np_init_def)

lemma np_at_error: "np_at rest p \<Longrightarrow> \<not> np_error p \<and> np_get_error p = NoError"
  by (simp add: np_at_def np_error_def np_get_error_def)

lemma np_int_loop_eq:
  "m + length xs \<le> length (buffer_str b) \<Longrightarrow> xs = take (length xs) (drop m (buffer_str b)) \<Longrightarrow>
   np_int_loop [m..<m + length xs] b ret = Inr (foldl (\<lambda>ret c. push_bit 8 ret + ucast c) ret xs)"
proof (induction xs arbitrary: m ret)
  case (Cons x xs)
  have m: "m < length (buffer_str b)" using Cons.prems(1) by simp
  then have d: "drop m (buffer_str b) = buffer_str b ! m # drop (Suc m) (buffer_str b)"
    by (simp add: Cons_nth_drop_Suc)
  with Cons.prems(2) have x: "x = buffer_str b ! m" and xs: "xs = take (length xs) (drop (Suc m) (buffer_str b))"
    by simp_all
  have "[m..<m + length (x # xs)] = m # [Suc m..<Suc m + length xs]" by (simp add: upt_conv_Cons del: upt_Suc)
  with m x Cons.IH [of "Suc m", OF _ xs] Cons.prems(1) show ?case by (simp add: buffer_at_def)
qed simp

lemma np_parse_int_at:
  assumes "np_at (xs @ rest) p" and "length xs = LENGTH('a) div 8"
  shows "\<exists>p'. (np_parse_int p :: ('a::len word \<times> net_parser) result) = Inr (be_val xs, p') \<and> np_at rest p'"
proof -
  have p: "np_err p = NoError" "buffer_str (np_buffer p) = xs @ rest" using assms(1) by (simp_all add: np_at_def)
  have check: "np_check_size (LENGTH('a) div 8) p = p" using p assms(2) by (simp add: np_check_size_def)
  obtain b where b: "buffer_remove_prefix (LENGTH('a) div 8) (np_buffer p) = Inr b"
    using buffer_remove_prefix_defined [of "LENGTH('a) div 8" "np_buffer p"] p(2) assms(2) by auto
  have "buffer_str b = rest" using buffer_remove_prefix_str [OF b] p(2) assms(2) by simp
  moreover have "np_int_loop [0..<LENGTH('a) div 8] (np_buffer p) 0 = Inr (be_val xs :: 'a word)"
    using np_int_loop_eq [of 0 xs "np_buffer p" "0 :: 'a word"] p(2) assms(2) by (simp add: be_val_def)
  ultimately show ?thesis
    using p(1) check b by (simp add: np_parse_int_def Let_def np_error_def np_get_error_def np_at_def)
qed

text \<open>
  The reading rules: what a read returns when the input starts with the encoding of a value,
  in a form that chains through the fields of a header.
\<close>

named_theorems reads \<open>reading rules of the network parser\<close>

lemma np_u8_at: "np_at (v # rest) p \<Longrightarrow> \<exists>p'. np_u8 p = Inr (v, p') \<and> np_at rest p'"
  using np_parse_int_at [of "[v]" rest p, where 'a = 8] by (auto simp: np_u8_def be_val_u8)

lemma np_u8_bind [reads]:
  "np_at (v # rest) p \<Longrightarrow> (\<And>p'. np_at rest p' \<Longrightarrow> ensures (f v p') P) \<Longrightarrow>
   ensures (bindE (np_u8 p) (\<lambda>(x, p). f x p)) P"
  using np_u8_at [of v rest p] by auto

lemma np_u16_bind [reads]:
  "np_at (be v @ rest) p \<Longrightarrow> (\<And>p'. np_at rest p' \<Longrightarrow> ensures (f v p') P) \<Longrightarrow>
   ensures (bindE (np_u16 p) (\<lambda>(x, p). f x p)) P"
  using np_parse_int_at [of "be v" rest p, where 'a = 16] by (auto simp: np_u16_def be_val_u16)

lemma np_u32_bind [reads]:
  "np_at (be v @ rest) p \<Longrightarrow> (\<And>p'. np_at rest p' \<Longrightarrow> ensures (f v p') P) \<Longrightarrow>
   ensures (bindE (np_u32 p) (\<lambda>(x, p). f x p)) P"
  using np_parse_int_at [of "be v" rest p, where 'a = 32] by (auto simp: np_u32_def be_val_u32)

lemma np_u8s_at: "np_at (bs @ rest) p \<Longrightarrow> \<exists>p'. np_u8s (length bs) p = Inr (bs, p') \<and> np_at rest p'"
proof (induction bs arbitrary: p)
  case (Cons b bs)
  then obtain p1 where "np_u8 p = Inr (b, p1)" "np_at (bs @ rest) p1" using np_u8_at by fastforce
  with Cons.IH [of p1] show ?case by auto
qed simp

lemma np_u8s_bind [reads]:
  "np_at (bs @ rest) p \<Longrightarrow> (\<And>p'. np_at rest p' \<Longrightarrow> ensures (f bs p') P) \<Longrightarrow> length bs = n \<Longrightarrow>
   ensures (bindE (np_u8s n p) (\<lambda>(x, p). f x p)) P"
  using np_u8s_at [of bs rest p] by auto

lemma np_remove_prefix_bind [reads]:
  assumes "np_at (xs @ rest) p" and "\<And>p'. np_at rest p' \<Longrightarrow> ensures (f p') P" and "length xs = n"
  shows "ensures (bindE (np_remove_prefix n p) f) P"
proof -
  have p: "np_err p = NoError" "buffer_str (np_buffer p) = xs @ rest" using assms(1) by (simp_all add: np_at_def)
  obtain b where b: "buffer_remove_prefix n (np_buffer p) = Inr b"
    using buffer_remove_prefix_defined [of n "np_buffer p"] p(2) assms(3) by auto
  have "buffer_str b = rest" using buffer_remove_prefix_str [OF b] p(2) assms(3) by simp
  with p b assms(2,3) show ?thesis
    by (simp add: np_remove_prefix_def np_check_size_def Let_def np_error_def np_get_error_def np_at_def)
qed

subsection \<open>Reading anything\<close>

text \<open>The parser never throws: on short input it records an error and goes on with zeros.\<close>

lemma np_int_loop_defined: "set idx \<subseteq> {..<length (buffer_str b)} \<Longrightarrow> \<exists>v. np_int_loop idx b ret = Inr v"
  by (induction idx arbitrary: ret) (auto simp: buffer_at_def)

lemma np_parse_int_defined: "\<exists>v p'. (np_parse_int p :: ('a::len word \<times> net_parser) result) = Inr (v, p')"
proof (cases "np_error (np_check_size (LENGTH('a) div 8) p)")
  case False
  then have size: "LENGTH('a) div 8 \<le> length (buffer_str (np_buffer p))"
    and p: "np_check_size (LENGTH('a) div 8) p = p"
    by (auto simp: np_check_size_def np_error_def np_get_error_def np_set_error_def buffer_size_copy split: if_splits)
  obtain v where v: "np_int_loop [0..<LENGTH('a) div 8] (np_buffer p) (0 :: 'a word) = Inr v"
  proof -
    have "set [0..<LENGTH('a) div 8] \<subseteq> {..<length (buffer_str (np_buffer p))}" using size by auto
    from np_int_loop_defined [OF this] that show ?thesis by blast
  qed
  moreover obtain b where "buffer_remove_prefix (LENGTH('a) div 8) (np_buffer p) = Inr b"
    using buffer_remove_prefix_defined size by blast
  ultimately show ?thesis using False p by (simp add: np_parse_int_def Let_def)
qed (simp add: np_parse_int_def Let_def)

lemma np_u8s_defined: "\<exists>v p'. np_u8s n p = Inr (v, p')"
proof (induction n arbitrary: p)
  case (Suc n)
  obtain v p' where "np_u8 p = Inr (v, p')" using np_parse_int_defined unfolding np_u8_def by blast
  with Suc [of p'] show ?case by auto
qed simp

lemma np_remove_prefix_defined: "\<exists>p'. np_remove_prefix n p = Inr p'"
  using buffer_remove_prefix_defined [of n "np_buffer p"]
  by (auto simp: np_remove_prefix_def np_check_size_def np_error_def np_get_error_def np_set_error_def Let_def
      buffer_size_copy not_less)

named_theorems reads_any \<open>reading rules that need nothing of the input\<close>

lemma np_any_bind [reads_any]:
  "(\<And>v p'. ensures (f v p') P) \<Longrightarrow> ensures (bindE (np_u8 p) (\<lambda>(x, p). f x p)) P"
  "(\<And>v p'. ensures (g v p') P) \<Longrightarrow> ensures (bindE (np_u16 p) (\<lambda>(x, p). g x p)) P"
  "(\<And>v p'. ensures (k v p') P) \<Longrightarrow> ensures (bindE (np_u32 p) (\<lambda>(x, p). k x p)) P"
  "(\<And>v p'. ensures (l v p') P) \<Longrightarrow> ensures (bindE (np_u8s n p) (\<lambda>(x, p). l x p)) P"
  "(\<And>p'. ensures (r p') P) \<Longrightarrow> ensures (bindE (np_remove_prefix n p) r) P"
  using np_parse_int_defined [of p, where 'a = 8] np_parse_int_defined [of p, where 'a = 16]
    np_parse_int_defined [of p, where 'a = 32] np_u8s_defined [of n p] np_remove_prefix_defined [of n p]
  by (auto simp: np_u8_def np_u16_def np_u32_def)

end
