(* ===== verification/Address.thy ===== *)
theory Address
  imports Net_Parser
begin

text \<open>
  The socket addresses of \<^verbatim>\<open>libsponge/util/address.{hh,cc}\<close>: a size and the 128 bytes of a
  \<^verbatim>\<open>sockaddr_storage\<close>. The layout is that of Linux on a little-endian machine: a
  \<^verbatim>\<open>sockaddr_in\<close> is the family in host byte order, the port and the address in network byte
  order, and eight zero bytes. The two library calls that translate between names and
  addresses are arguments: \<open>gai\<close> is \<^verbatim>\<open>getaddrinfo\<close> and \<open>gni\<close> is \<^verbatim>\<open>getnameinfo\<close> with numeric
  answers. \<open>numeric_names\<close> states what \<^verbatim>\<open>getnameinfo\<close> documents for IPv4 addresses.
\<close>

record address =
  addr_size :: nat
  addr_storage :: bytes

definition AF_INET :: u16 where "AF_INET = 2"
definition SOCKADDR_IN_SIZE :: nat where "SOCKADDR_IN_SIZE = 16"
definition SOCKADDR_STORAGE_SIZE :: nat where "SOCKADDR_STORAGE_SIZE = 128"

text \<open>The bytes of a \<^verbatim>\<open>sockaddr_in\<close> of the given family, port and address (host byte order).\<close>

definition sockaddr_in :: "u16 \<Rightarrow> u16 \<Rightarrow> u32 \<Rightarrow> bytes" where
  "sockaddr_in family port ip = rev (be family) @ be port @ be ip @ replicate 8 0"

definition addr_of_sockaddr :: "bytes \<Rightarrow> address result" where
  "addr_of_sockaddr addr =
     (if length addr > SOCKADDR_STORAGE_SIZE then Inl (Runtime_error ''invalid sockaddr size'')
      else Inr \<lparr>addr_size = length addr,
                addr_storage = addr @ replicate (SOCKADDR_STORAGE_SIZE - length addr) 0\<rparr>)"

definition addr_family :: "address \<Rightarrow> u16" where
  "addr_family a = be_val (rev (take 2 (addr_storage a)))"

definition addr_ipv4_numeric :: "address \<Rightarrow> u32 result" where
  "addr_ipv4_numeric a =
     (if addr_family a \<noteq> AF_INET \<or> addr_size a \<noteq> SOCKADDR_IN_SIZE
      then Inl (Runtime_error ''ipv4_numeric called on non-IPV4 address'')
      else Inr (be_val (take 4 (drop 4 (addr_storage a)))))"

definition addr_from_ipv4_numeric :: "u32 \<Rightarrow> address result" where
  "addr_from_ipv4_numeric ip_address = addr_of_sockaddr (sockaddr_in AF_INET 0 ip_address)"

text \<open>Resolving a name: \<open>Inl\<close> is an error code, \<open>Inr None\<close> an empty list of answers.\<close>

record addrinfo =
  ai_flags :: int
  ai_family :: int

type_synonym getaddrinfo = "string \<Rightarrow> string \<Rightarrow> addrinfo \<Rightarrow> int + bytes option"

definition AI_NUMERICHOST :: int where "AI_NUMERICHOST = 0x4"
definition AI_ALL :: int where "AI_ALL = 0x10"
definition AI_NUMERICSERV :: int where "AI_NUMERICSERV = 0x400"

definition make_hints :: "int \<Rightarrow> int \<Rightarrow> addrinfo" where
  "make_hints flags family = \<lparr>ai_flags = flags, ai_family = family\<rparr>"

definition addr_resolve :: "getaddrinfo \<Rightarrow> string \<Rightarrow> string \<Rightarrow> addrinfo \<Rightarrow> address result" where
  "addr_resolve gai node service hints =
     (case gai node service hints of
        Inl gai_ret \<Rightarrow> Inl (Runtime_error (''getaddrinfo('' @ node @ '', '' @ service @ '')''))
      | Inr None \<Rightarrow> Inl (Runtime_error ''getaddrinfo returned successfully but with no results'')
      | Inr (Some addr) \<Rightarrow> addr_of_sockaddr addr)"

definition addr_of_host :: "getaddrinfo \<Rightarrow> string \<Rightarrow> string \<Rightarrow> address result" where
  "addr_of_host gai hostname service = addr_resolve gai hostname service (make_hints AI_ALL (uint AF_INET))"

text \<open>\<^verbatim>\<open>std::to_string\<close> of an unsigned number and \<^verbatim>\<open>std::stoi\<close>.\<close>

fun nat_dec :: "nat \<Rightarrow> string" where
  "nat_dec n = (if n < 10 then [char_of (48 + n)] else nat_dec (n div 10) @ [char_of (48 + n mod 10)])"

declare nat_dec.simps [simp del]

definition is_digit :: "char \<Rightarrow> bool" where
  "is_digit c \<longleftrightarrow> 48 \<le> (of_char c :: nat) \<and> of_char c \<le> (57 :: nat)"

definition is_space :: "char \<Rightarrow> bool" where
  "is_space c \<longleftrightarrow> of_char c = (32 :: nat) \<or> 9 \<le> (of_char c :: nat) \<and> of_char c \<le> (13 :: nat)"

definition dec_val :: "string \<Rightarrow> nat" where
  "dec_val ds = foldl (\<lambda>v c. 10 * v + (of_char c - 48)) 0 ds"

definition stoi :: "string \<Rightarrow> int result" where
  "stoi s =
     (let s = dropWhile is_space s;
          (sign, s) = (case s of
             c # r \<Rightarrow> if c = CHR ''-'' then (-1, r) else if c = CHR ''+'' then (1, r) else (1, s)
           | [] \<Rightarrow> (1, s));
          digits = takeWhile is_digit s;
          v = sign * int (dec_val digits)
      in if digits = [] then Inl (Invalid_argument ''stoi'')
         else if v < - (2 ^ 31) \<or> v \<ge> 2 ^ 31 then Inl (Out_of_range ''stoi'')
         else Inr v)"

definition addr_of_ip :: "getaddrinfo \<Rightarrow> string \<Rightarrow> u16 \<Rightarrow> address result" where
  "addr_of_ip gai ip port =
     addr_resolve gai ip (nat_dec (unat port)) (make_hints (or AI_NUMERICHOST AI_NUMERICSERV) (uint AF_INET))"

type_synonym getnameinfo = "address \<Rightarrow> int + string \<times> string"

definition addr_ip_port :: "getnameinfo \<Rightarrow> address \<Rightarrow> (string \<times> u16) result" where
  "addr_ip_port gni a =
     (case gni a of
        Inl gni_ret \<Rightarrow> Inl (Runtime_error ''getnameinfo'')
      | Inr (ip, port) \<Rightarrow> bindE (stoi port) (\<lambda>p. Inr (ip, of_int p)))"

definition addr_ip :: "getnameinfo \<Rightarrow> address \<Rightarrow> string result" where
  "addr_ip gni a = bindE (addr_ip_port gni a) (\<lambda>(ip, _). Inr ip)"

definition addr_port :: "getnameinfo \<Rightarrow> address \<Rightarrow> u16 result" where
  "addr_port gni a = bindE (addr_ip_port gni a) (\<lambda>(_, port). Inr port)"

definition addr_to_string :: "getnameinfo \<Rightarrow> address \<Rightarrow> string result" where
  "addr_to_string gni a =
     bindE (addr_ip_port gni a) (\<lambda>(ip, port). Inr (ip @ '':'' @ nat_dec (unat port)))"

definition addr_eq :: "address \<Rightarrow> address \<Rightarrow> bool" where
  "addr_eq a b \<longleftrightarrow> addr_size a = addr_size b \<and>
     take (addr_size a) (addr_storage a) = take (addr_size a) (addr_storage b)"

definition addr_neq :: "address \<Rightarrow> address \<Rightarrow> bool" where
  "addr_neq a b \<longleftrightarrow> \<not> addr_eq a b"

subsection \<open>IPv4 addresses\<close>

definition inet :: "u32 \<Rightarrow> u16 \<Rightarrow> address" where
  "inet ip port = \<lparr>addr_size = 16, addr_storage = sockaddr_in AF_INET port ip @ replicate 112 0\<rparr>"

lemma be_AF_INET: "be AF_INET = [0, 2]"
  by code_simp

lemma length_sockaddr_in [simp]: "length (sockaddr_in family port ip) = 16"
  by (simp add: sockaddr_in_def)

lemma addr_of_sockaddr_in: "addr_of_sockaddr (sockaddr_in AF_INET port ip) = Inr (inet ip port)"
  by (simp add: addr_of_sockaddr_def inet_def SOCKADDR_STORAGE_SIZE_def)

lemma addr_from_ipv4_numeric_eq [simp]: "addr_from_ipv4_numeric ip = Inr (inet ip 0)"
  by (simp add: addr_from_ipv4_numeric_def addr_of_sockaddr_in)

lemma addr_family_inet [simp]: "addr_family (inet ip port) = AF_INET"
  by (simp add: addr_family_def inet_def sockaddr_in_def be_AF_INET) (simp add: be_val_def AF_INET_def)

lemma addr_ipv4_numeric_inet [simp]: "addr_ipv4_numeric (inet ip port) = Inr ip"
proof -
  have "take 4 (drop 4 (addr_storage (inet ip port))) = be ip"
    by (simp add: inet_def sockaddr_in_def be_AF_INET)
  then show ?thesis
    by (simp add: addr_ipv4_numeric_def be_val_u32 SOCKADDR_IN_SIZE_def) (simp add: inet_def)
qed

lemma nat_dec_digits: "nat_dec n \<noteq> [] \<and> (\<forall>c \<in> set (nat_dec n). is_digit c)"
  by (induction n rule: nat_dec.induct) (subst (1 2) nat_dec.simps, auto simp: is_digit_def)

lemma dec_val_nat_dec: "dec_val (nat_dec n) = n"
proof (induction n rule: nat_dec.induct)
  case (1 n)
  then show ?case by (subst nat_dec.simps) (auto simp: dec_val_def)
qed

lemma digit_not_sign: "is_digit c \<Longrightarrow> \<not> is_space c \<and> c \<noteq> CHR ''-'' \<and> c \<noteq> CHR ''+''"
  by (auto simp: is_digit_def is_space_def)

lemma stoi_nat_dec:
  assumes "n < 2 ^ 31"
  shows "stoi (nat_dec n) = Inr (int n)"
proof -
  obtain c r where s: "nat_dec n = c # r" using nat_dec_digits [of n] by (cases "nat_dec n") auto
  have d: "\<forall>x \<in> set (c # r). is_digit x" using nat_dec_digits [of n] by (simp add: s)
  then have "dropWhile is_space (c # r) = c # r" "takeWhile is_digit (c # r) = c # r" "c \<noteq> CHR ''-''" "c \<noteq> CHR ''+''"
    using digit_not_sign [of c] by (simp_all add: takeWhile_eq_all_conv)
  moreover have "dec_val (c # r) = n" using dec_val_nat_dec [of n] by (simp add: s)
  ultimately show ?thesis using assms by (simp add: stoi_def s Let_def)
qed

text \<open>What \<^verbatim>\<open>getnameinfo\<close> answers for an IPv4 address: its dotted quad and its port in decimal.\<close>

fun separate :: "string list \<Rightarrow> string list" where
  "separate (x # y # xs) = x # ''.'' # separate (y # xs)"
| "separate xs = xs"

definition dotted_quad :: "u32 \<Rightarrow> string" where
  "dotted_quad ip = concat (separate (map (\<lambda>b. nat_dec (unat b)) (be ip)))"

definition numeric_names :: "getnameinfo \<Rightarrow> bool" where
  "numeric_names gni \<longleftrightarrow> (\<forall>ip port. gni (inet ip port) = Inr (dotted_quad ip, nat_dec (unat port)))"

definition ipv4_names :: getnameinfo where
  "ipv4_names a = Inr (dotted_quad (be_val (take 4 (drop 4 (addr_storage a)))),
     nat_dec (unat (be_val (take 2 (drop 2 (addr_storage a))) :: u16)))"

lemma numeric_names_ipv4: "numeric_names ipv4_names"
proof -
  have "take 2 (drop 2 (addr_storage (inet ip port))) = be port" "take 4 (drop 4 (addr_storage (inet ip port))) = be ip" for ip port
    by (simp_all add: inet_def sockaddr_in_def be_AF_INET)
  then show ?thesis by (simp add: numeric_names_def ipv4_names_def be_val_u16 be_val_u32)
qed

lemma addr_ip_port_inet: "numeric_names gni \<Longrightarrow> addr_ip_port gni (inet ip port) = Inr (dotted_quad ip, port)"
  using unat_u16_lt [of port] by (simp add: numeric_names_def addr_ip_port_def stoi_nat_dec)

lemma addr_port_inet: "numeric_names gni \<Longrightarrow> addr_port gni (inet ip port) = Inr port"
  by (simp add: addr_port_def addr_ip_port_inet)

lemma addr_eq_inet [simp]: "addr_eq (inet ip port) (inet ip' port') \<longleftrightarrow> ip = ip' \<and> port = port'"
proof
  assume "addr_eq (inet ip port) (inet ip' port')"
  then have "sockaddr_in AF_INET port ip = sockaddr_in AF_INET port' ip'" by (simp add: addr_eq_def inet_def)
  then have "be port = be port' \<and> be ip = be ip'" by (simp add: sockaddr_in_def)
  then show "ip = ip' \<and> port = port'" by (metis be_val_u16 be_val_u32)
qed (simp add: addr_eq_def)

subsection \<open>Numeric hosts\<close>

text \<open>
  What \<^verbatim>\<open>getaddrinfo\<close> documents for a numeric host and service: the address they spell.
  \<open>ipv4_hosts\<close> is a resolver that does so.
\<close>

definition numeric_hosts :: "getaddrinfo \<Rightarrow> bool" where
  "numeric_hosts gai \<longleftrightarrow> (\<forall>ip port.
     gai (dotted_quad ip) (nat_dec (unat port)) (make_hints (or AI_NUMERICHOST AI_NUMERICSERV) (uint AF_INET)) =
       Inr (Some (sockaddr_in AF_INET port ip)))"

function split_dots :: "string \<Rightarrow> string list" where
  "split_dots s =
     (case dropWhile (\<lambda>c. c \<noteq> CHR ''.'') s of
        [] \<Rightarrow> [s]
      | _ # r \<Rightarrow> takeWhile (\<lambda>c. c \<noteq> CHR ''.'') s # split_dots r)"
  by pat_completeness auto
termination
proof (relation "measure length")
  fix s r :: string and c
  assume "dropWhile (\<lambda>c. c \<noteq> CHR ''.'') s = c # r"
  then show "(r, s) \<in> measure length" using length_dropWhile_le [of "\<lambda>c. c \<noteq> CHR ''.''" s] by simp
qed simp

declare split_dots.simps [simp del]

definition ipv4_hosts :: getaddrinfo where
  "ipv4_hosts node service hints =
     Inr (Some (sockaddr_in AF_INET (of_nat (dec_val service)) (be_val (map (of_nat \<circ> dec_val) (split_dots node)))))"

lemma split_dots_separate:
  "ps \<noteq> [] \<Longrightarrow> \<forall>p \<in> set ps. CHR ''.'' \<notin> set p \<Longrightarrow> split_dots (concat (separate ps)) = ps"
proof (induction ps)
  case (Cons x ps)
  have x: "\<forall>c \<in> set x. c \<noteq> CHR ''.''" using Cons.prems(2) by auto
  show ?case
  proof (cases ps)
    case Nil
    have "dropWhile (\<lambda>c. c \<noteq> CHR ''.'') x = []" using x by simp
    then have "split_dots x = [x]" by (subst split_dots.simps) (simp only: list.case)
    then show ?thesis by (simp add: Nil)
  next
    case (Cons y xs)
    have "dropWhile (\<lambda>c. c \<noteq> CHR ''.'') (x @ CHR ''.'' # r) = CHR ''.'' # r"
      "takeWhile (\<lambda>c. c \<noteq> CHR ''.'') (x @ CHR ''.'' # r) = x" for r
      using x by (simp_all add: dropWhile_append2 takeWhile_append2)
    then have "split_dots (x @ CHR ''.'' # r) = x # split_dots r" for r by (subst split_dots.simps) simp
    with Cons Cons.IH Cons.prems(2) show ?thesis by simp
  qed
qed simp

lemma numeric_hosts_ipv4: "numeric_hosts ipv4_hosts"
proof -
  have "split_dots (dotted_quad ip) = map (\<lambda>b. nat_dec (unat b)) (be ip)" for ip :: u32
    unfolding dotted_quad_def
  proof (rule split_dots_separate)
    show "map (\<lambda>b. nat_dec (unat b)) (be ip) \<noteq> []" using length_be [of ip] by (cases "be ip") simp_all
    show "\<forall>p \<in> set (map (\<lambda>b. nat_dec (unat b)) (be ip)). CHR ''.'' \<notin> set p"
      using nat_dec_digits by (fastforce simp: is_digit_def)
  qed
  then show ?thesis by (simp add: numeric_hosts_def ipv4_hosts_def dec_val_nat_dec comp_def be_val_u32)
qed

lemma addr_of_ip_dotted: "numeric_hosts gai \<Longrightarrow> addr_of_ip gai (dotted_quad ip) port = Inr (inet ip port)"
  by (simp add: addr_of_ip_def addr_resolve_def numeric_hosts_def addr_of_sockaddr_in)

subsection \<open>Properties\<close>

text \<open>
  An IPv4 address survives every conversion. An address made from a 32-bit number gives
  that number back; an address and port printed by \<^verbatim>\<open>to_string\<close> reads as the dotted quad, a
  colon and the decimal port; \<^verbatim>\<open>port\<close> returns the port; two addresses are equal exactly when
  number and port are; and a number can be read from an address exactly when it is of the
  IPv4 family and of the size of a \<^verbatim>\<open>sockaddr_in\<close>.
\<close>

theorem address_conversions:
  assumes "numeric_names gni"
  shows "bindE (addr_from_ipv4_numeric ip) addr_ipv4_numeric = Inr ip \<and>
    addr_of_sockaddr (sockaddr_in AF_INET port ip) = Inr (inet ip port) \<and>
    addr_ipv4_numeric (inet ip port) = Inr ip \<and> addr_port gni (inet ip port) = Inr port \<and>
    addr_to_string gni (inet ip port) = Inr (dotted_quad ip @ '':'' @ nat_dec (unat port)) \<and>
    (addr_eq (inet ip port) (inet ip' port') \<longleftrightarrow> ip = ip' \<and> port = port') \<and>
    ((\<exists>n. addr_ipv4_numeric a = Inr n) \<longleftrightarrow> addr_family a = AF_INET \<and> addr_size a = 16)"
  using assms
  by (simp add: addr_of_sockaddr_in addr_port_inet addr_to_string_def addr_ip_port_inet)
    (simp add: addr_ipv4_numeric_def SOCKADDR_IN_SIZE_def)

theorem address_conversions_witness:
  "bindE (addr_from_ipv4_numeric 7) addr_ipv4_numeric = Inr 7 \<and>
    addr_of_sockaddr (sockaddr_in AF_INET 80 7) = Inr (inet 7 80) \<and>
    addr_ipv4_numeric (inet 7 80) = Inr 7 \<and> addr_port ipv4_names (inet 7 80) = Inr 80 \<and>
    addr_to_string ipv4_names (inet 7 80) = Inr (dotted_quad 7 @ '':'' @ nat_dec (unat (80 :: u16))) \<and>
    (addr_eq (inet 7 80) (inet 7 81) \<longleftrightarrow> (7 :: u32) = 7 \<and> (80 :: u16) = 81) \<and>
    ((\<exists>n. addr_ipv4_numeric (inet 7 80) = Inr n) \<longleftrightarrow> addr_family (inet 7 80) = AF_INET \<and> addr_size (inet 7 80) = 16)"
  by (rule address_conversions [OF numeric_names_ipv4])

end
