(* ===== verification/Ethernet.thy ===== *)
theory Ethernet
  imports Net_Parser
begin

text \<open>
  Ethernet headers, frames and ARP messages: \<^verbatim>\<open>libsponge/tcp_helpers/ethernet_header.{hh,cc}\<close>,
  \<^verbatim>\<open>ethernet_frame.{hh,cc}\<close> and \<^verbatim>\<open>arp_message.{hh,cc}\<close>. An Ethernet address
  (\<^verbatim>\<open>std::array<uint8_t, 6>\<close>) is a byte string of length 6. A \<^verbatim>\<open>parse\<close> method updates the
  object it is called on, so it takes the old header and returns the new one with the result.
\<close>

type_synonym ethernet_address = bytes

definition ETHERNET_BROADCAST :: ethernet_address where
  "ETHERNET_BROADCAST = [0xff, 0xff, 0xff, 0xff, 0xff, 0xff]"

definition ETH_LENGTH :: nat where "ETH_LENGTH = 14"
definition TYPE_IPv4 :: u16 where "TYPE_IPv4 = 0x800"
definition TYPE_ARP :: u16 where "TYPE_ARP = 0x806"

record ethernet_header =
  eh_dst :: ethernet_address
  eh_src :: ethernet_address
  eh_type :: u16

definition eh_default :: ethernet_header where
  "eh_default = \<lparr>eh_dst = replicate 6 0, eh_src = replicate 6 0, eh_type = 0\<rparr>"

definition eh_parse :: "ethernet_header \<Rightarrow> net_parser \<Rightarrow> (parse_result \<times> ethernet_header \<times> net_parser) result" where
  "eh_parse h p =
     (if buffer_size (np_buffer p) < ETH_LENGTH then Inr (PacketTooShort, h, p)
      else bindE (np_u8s 6 p) (\<lambda>(dst, p).
           bindE (np_u8s 6 p) (\<lambda>(src, p).
           bindE (np_u16 p) (\<lambda>(type, p).
           Inr (np_get_error p, \<lparr>eh_dst = dst, eh_src = src, eh_type = type\<rparr>, p)))))"

definition eh_serialize :: "ethernet_header \<Rightarrow> bytes" where
  "eh_serialize h =
     (let ret = [];
          ret = unparse_u8s ret (eh_dst h);
          ret = unparse_u8s ret (eh_src h);
          ret = unparse_u16 ret (eh_type h)
      in ret)"

text \<open>Printing an address: two hexadecimal digits per byte, separated by colons.\<close>

definition hex_digit :: "nat \<Rightarrow> char" where
  "hex_digit n = ''0123456789abcdef'' ! n"

definition hex_byte :: "u8 \<Rightarrow> string" where
  "hex_byte b = [hex_digit (unat b div 16), hex_digit (unat b mod 16)]"

fun eth_to_string :: "ethernet_address \<Rightarrow> string" where
  "eth_to_string [] = []"
| "eth_to_string [b] = hex_byte b"
| "eth_to_string (b # b' # bs) = hex_byte b @ '':'' @ eth_to_string (b' # bs)"

subsection \<open>Frames\<close>

record ethernet_frame =
  ef_header :: ethernet_header
  ef_payload :: buffer_list

definition ef_default :: ethernet_frame where
  "ef_default = \<lparr>ef_header = eh_default, ef_payload = []\<rparr>"

definition ef_parse :: "buffer \<Rightarrow> ethernet_frame \<Rightarrow> (parse_result \<times> ethernet_frame) result" where
  "ef_parse buffer f =
     bindE (eh_parse (ef_header f) (np_init buffer)) (\<lambda>(_, h, p).
       Inr (np_get_error p, \<lparr>ef_header = h, ef_payload = buffer_list_of_buffer (np_buffer p)\<rparr>))"

definition ef_serialize :: "ethernet_frame \<Rightarrow> buffer_list" where
  "ef_serialize f =
     (let ret = [];
          ret = buffer_list_append ret (buffer_list_of (eh_serialize (ef_header f)));
          ret = buffer_list_append ret (ef_payload f)
      in ret)"

subsection \<open>ARP messages\<close>

definition ARP_LENGTH :: nat where "ARP_LENGTH = 28"
definition TYPE_ETHERNET :: u16 where "TYPE_ETHERNET = 1"
definition OPCODE_REQUEST :: u16 where "OPCODE_REQUEST = 1"
definition OPCODE_REPLY :: u16 where "OPCODE_REPLY = 2"

record arp_message =
  hardware_type :: u16
  protocol_type :: u16
  hardware_address_size :: u8
  protocol_address_size :: u8
  opcode :: u16
  sender_ethernet_address :: ethernet_address
  sender_ip_address :: u32
  target_ethernet_address :: ethernet_address
  target_ip_address :: u32

definition arp_default :: arp_message where
  "arp_default =
     \<lparr>hardware_type = TYPE_ETHERNET, protocol_type = TYPE_IPv4, hardware_address_size = 6,
      protocol_address_size = 4, opcode = 0, sender_ethernet_address = replicate 6 0,
      sender_ip_address = 0, target_ethernet_address = replicate 6 0, target_ip_address = 0\<rparr>"

definition arp_supported :: "arp_message \<Rightarrow> bool" where
  "arp_supported a \<longleftrightarrow>
     hardware_type a = TYPE_ETHERNET \<and> protocol_type a = TYPE_IPv4 \<and>
     hardware_address_size a = 6 \<and> protocol_address_size a = 4 \<and>
     (opcode a = OPCODE_REQUEST \<or> opcode a = OPCODE_REPLY)"

definition arp_parse :: "buffer \<Rightarrow> arp_message \<Rightarrow> (parse_result \<times> arp_message) result" where
  "arp_parse buffer a =
     (let p = np_init buffer in
      if buffer_size (np_buffer p) < ARP_LENGTH then Inr (PacketTooShort, a)
      else bindE (np_u16 p) (\<lambda>(ht, p).
           bindE (np_u16 p) (\<lambda>(pt, p).
           bindE (np_u8 p) (\<lambda>(has, p).
           bindE (np_u8 p) (\<lambda>(pas, p).
           bindE (np_u16 p) (\<lambda>(opc, p).
           let a = a\<lparr>hardware_type := ht, protocol_type := pt, hardware_address_size := has,
                     protocol_address_size := pas, opcode := opc\<rparr>
           in if \<not> arp_supported a then Inr (Unsupported, a)
              else bindE (np_u8s 6 p) (\<lambda>(sea, p).
                   bindE (np_u32 p) (\<lambda>(sia, p).
                   bindE (np_u8s 6 p) (\<lambda>(tea, p).
                   bindE (np_u32 p) (\<lambda>(tia, p).
                   Inr (np_get_error p,
                        a\<lparr>sender_ethernet_address := sea, sender_ip_address := sia,
                          target_ethernet_address := tea, target_ip_address := tia\<rparr>)))))))))))"

definition arp_serialize :: "arp_message \<Rightarrow> bytes result" where
  "arp_serialize a =
     (if \<not> arp_supported a
      then Inl (Runtime_error ''ARPMessage::serialize(): unsupported field combination (must be Ethernet/IP, and request or reply)'')
      else
        let ret = [];
            ret = unparse_u16 ret (hardware_type a);
            ret = unparse_u16 ret (protocol_type a);
            ret = unparse_u8 ret (hardware_address_size a);
            ret = unparse_u8 ret (protocol_address_size a);
            ret = unparse_u16 ret (opcode a);
            ret = unparse_u8s ret (sender_ethernet_address a);
            ret = unparse_u32 ret (sender_ip_address a);
            ret = unparse_u8s ret (target_ethernet_address a);
            ret = unparse_u32 ret (target_ip_address a)
        in Inr ret)"

subsection \<open>Reading back what was written\<close>

text \<open>An address has its six bytes.\<close>

definition eh_wf :: "ethernet_header \<Rightarrow> bool" where
  "eh_wf h \<longleftrightarrow> length (eh_dst h) = 6 \<and> length (eh_src h) = 6"

definition arp_wf :: "arp_message \<Rightarrow> bool" where
  "arp_wf a \<longleftrightarrow> length (sender_ethernet_address a) = 6 \<and> length (target_ethernet_address a) = 6"

text \<open>Parsing returns on every input.\<close>

lemma eh_parse_total: "ensures (eh_parse h p) (\<lambda>_. True)"
  unfolding eh_parse_def by (cases "buffer_size (np_buffer p) < ETH_LENGTH") (simp_all, (rule reads_any)+, simp)

lemma ef_parse_total: "\<exists>r. ef_parse b f = Inr r"
  using eh_parse_total [of "ef_header f" "np_init b"] by (auto simp: ef_parse_def ensures_iff)

lemma arp_parse_total: "\<exists>r. arp_parse b a = Inr r"
proof -
  have "ensures (arp_parse b a) (\<lambda>_. True)"
    unfolding arp_parse_def Let_def
    by (cases "buffer_size (np_buffer (np_init b)) < ARP_LENGTH")
      (simp, simp only: if_False, (rule reads_any)+, simp only: split: if_split, intro conjI impI, simp, (rule reads_any)+, simp)
  then show ?thesis by (simp add: ensures_iff)
qed

lemma eh_serialize_eq: "eh_serialize h = eh_dst h @ eh_src h @ be (eh_type h)"
  by (simp add: eh_serialize_def Let_def)

lemma eh_parse_at:
  assumes "np_at (eh_serialize h @ rest) p" and "eh_wf h"
    and "\<And>p'. np_at rest p' \<Longrightarrow> P (NoError, h, p')"
  shows "ensures (eh_parse h0 p) P"
proof -
  have p: "np_at (eh_dst h @ (eh_src h @ (be (eh_type h) @ rest))) p"
    using assms(1) by (simp add: eh_serialize_eq)
  have size: "\<not> buffer_size (np_buffer p) < ETH_LENGTH"
    using assms(1,2) by (simp add: np_at_def eh_serialize_eq eh_wf_def ETH_LENGTH_def)
  have wf: "6 = length (eh_dst h)" "6 = length (eh_src h)" using assms(2) by (simp_all add: eh_wf_def)
  have h: "\<lparr>eh_dst = eh_dst h, eh_src = eh_src h, eh_type = eh_type h\<rparr> = h" by simp
  show ?thesis
    unfolding eh_parse_def if_not_P [OF size]
    by (insert p, (rule reads, assumption)+) (use assms(2,3) in \<open>simp_all add: eh_wf_def np_at_error h\<close>)
qed

lemma arp_parse_at:
  assumes "buffer_str b = ser" and "arp_serialize a = Inr ser" and "arp_wf a"
  shows "arp_parse b a0 = Inr (NoError, a)"
proof -
  have sup: "arp_supported a" using assms(2) by (simp add: arp_serialize_def split: if_splits)
  then have "ser = be (hardware_type a) @ be (protocol_type a) @ hardware_address_size a #
      protocol_address_size a # be (opcode a) @ sender_ethernet_address a @
      be (sender_ip_address a) @ target_ethernet_address a @ be (target_ip_address a) @ []"
    using assms(2) by (simp add: arp_serialize_def Let_def)
  with assms(1) have p: "np_at (be (hardware_type a) @ be (protocol_type a) @ hardware_address_size a #
      protocol_address_size a # be (opcode a) @ sender_ethernet_address a @
      be (sender_ip_address a) @ target_ethernet_address a @ be (target_ip_address a) @ []) (np_init b)"
    by simp
  then have size: "\<not> buffer_size (np_buffer (np_init b)) < ARP_LENGTH"
    using assms(3) by (simp add: np_at_def arp_wf_def ARP_LENGTH_def)
  let ?a = "a0\<lparr>hardware_type := hardware_type a, protocol_type := protocol_type a,
      hardware_address_size := hardware_address_size a,
      protocol_address_size := protocol_address_size a, opcode := opcode a\<rparr>"
  have sup': "arp_supported ?a" using sup by (simp add: arp_supported_def)
  have "ensures (arp_parse b a0) (\<lambda>r. r = (NoError, a))"
    unfolding arp_parse_def Let_def if_not_P [OF size]
    by (insert p, (rule reads, assumption)+, subst if_not_P, simp add: sup', (rule reads, assumption)+)
      (use assms(3) in \<open>simp_all add: arp_wf_def np_at_error\<close>)
  then show ?thesis by (auto simp: ensures_iff)
qed

lemma ef_serialized:
  assumes "eh_wf (ef_header f)"
  shows "\<exists>f'. ef_parse (buffer_of (buffer_list_concatenate (ef_serialize f))) f0 = Inr (NoError, f') \<and>
    ef_header f' = ef_header f \<and>
    buffer_list_concatenate (ef_payload f') = buffer_list_concatenate (ef_payload f)"
proof -
  let ?rest = "buffer_list_concatenate (ef_payload f)"
  have "np_at (eh_serialize (ef_header f) @ ?rest)
      (np_init (buffer_of (buffer_list_concatenate (ef_serialize f))))"
    by (simp add: ef_serialize_def Let_def buffer_list_concatenate_eq)
  then have "ensures (eh_parse (ef_header f0) (np_init (buffer_of (buffer_list_concatenate (ef_serialize f)))))
      (\<lambda>(res, h, p). res = NoError \<and> h = ef_header f \<and> np_at ?rest p)"
    by (rule eh_parse_at) (simp_all add: assms)
  then show ?thesis
    by (auto simp: ensures_iff ef_parse_def np_at_error np_at_def np_get_error_def
        buffer_list_of_buffer_def buffer_list_concatenate_eq)
qed

text \<open>
  C18. An Ethernet frame is read back as it was written: parsing the concatenation of the
  buffers of a serialized frame succeeds and gives the same header and the same payload bytes,
  whatever the frame object held before.
\<close>

theorem ethernet_frame_roundtrip:
  assumes "eh_wf (ef_header f)"
  shows "\<exists>f'. ef_parse (buffer_of (buffer_list_concatenate (ef_serialize f))) f0 = Inr (NoError, f') \<and>
    ef_header f' = ef_header f \<and>
    buffer_list_concatenate (ef_payload f') = buffer_list_concatenate (ef_payload f)"
  by (rule ef_serialized [OF assms])

theorem ethernet_frame_roundtrip_witness:
  "\<exists>f'. ef_parse (buffer_of (buffer_list_concatenate (ef_serialize
      \<lparr>ef_header = eh_default, ef_payload = [buffer_of [1, 2], buffer_of [3]]\<rparr>))) ef_default = Inr (NoError, f') \<and>
    ef_header f' = ef_header \<lparr>ef_header = eh_default, ef_payload = [buffer_of [1, 2], buffer_of [3]]\<rparr> \<and>
    buffer_list_concatenate (ef_payload f') =
    buffer_list_concatenate (ef_payload \<lparr>ef_header = eh_default, ef_payload = [buffer_of [1, 2], buffer_of [3]]\<rparr>)"
  by (rule ethernet_frame_roundtrip) (simp add: eh_wf_def eh_default_def)

text \<open>
  C22. A frame shorter than an Ethernet header is reported as parsed without error, with the
  header left as it was and the whole input as payload: \<^verbatim>\<open>EthernetFrame::parse\<close> drops the
  result of the header's parser, which signals a short input by its return value only.
\<close>

theorem short_frame_accepted:
  assumes "length (buffer_str b) < 14"
  shows "ef_parse b f = Inr (NoError, \<lparr>ef_header = ef_header f, ef_payload = [b]\<rparr>)"
  using assms
  by (simp add: ef_parse_def eh_parse_def ETH_LENGTH_def np_init_def np_get_error_def buffer_list_of_buffer_def)

theorem short_frame_accepted_witness:
  "ef_parse (buffer_of [1, 2, 3]) ef_default
     = Inr (NoError, \<lparr>ef_header = ef_header ef_default, ef_payload = [buffer_of [1, 2, 3]]\<rparr>)"
  by (rule short_frame_accepted) simp

text \<open>
  An ARP message is read back as it was written, and the messages that cannot be
  written are exactly the unsupported ones.
\<close>

theorem arp_roundtrip:
  assumes "arp_wf a"
  shows "case arp_serialize a of
      Inl _ \<Rightarrow> \<not> arp_supported a
    | Inr s \<Rightarrow> arp_supported a \<and> length s = ARP_LENGTH \<and> arp_parse (buffer_of s) a0 = Inr (NoError, a)"
proof (cases "arp_serialize a")
  case (Inl e)
  then show ?thesis by (auto simp: arp_serialize_def Let_def split: if_splits)
next
  case (Inr s)
  then have "arp_supported a" by (simp add: arp_serialize_def split: if_splits)
  moreover have "length s = ARP_LENGTH"
    using Inr assms by (simp add: arp_serialize_def Let_def arp_wf_def ARP_LENGTH_def split: if_splits) auto
  ultimately show ?thesis using Inr arp_parse_at [OF _ Inr assms, of "buffer_of s"] by simp
qed

theorem arp_roundtrip_witness:
  "case arp_serialize (arp_default\<lparr>opcode := OPCODE_REPLY\<rparr>) of
      Inl _ \<Rightarrow> \<not> arp_supported (arp_default\<lparr>opcode := OPCODE_REPLY\<rparr>)
    | Inr s \<Rightarrow> arp_supported (arp_default\<lparr>opcode := OPCODE_REPLY\<rparr>) \<and> length s = ARP_LENGTH \<and>
        arp_parse (buffer_of s) arp_default = Inr (NoError, arp_default\<lparr>opcode := OPCODE_REPLY\<rparr>)"
  by (rule arp_roundtrip) (simp add: arp_wf_def arp_default_def)

end
