(* ===== verification/Internet_Checksum.thy ===== *)
theory Internet_Checksum
  imports Net_Parser
begin

text \<open>
  The Internet checksum of \<^verbatim>\<open>libsponge/util/util.{hh,cc}\<close>. The running sum is a 32-bit word,
  as in the code. The lemmas compare it with the sum as a natural number, under the bound that
  keeps the word from wrapping (no datagram is longer than 65535 bytes), and characterise the
  folded value modulo 65535.
\<close>

record inet_checksum =
  ck_sum :: u32
  ck_parity :: bool

definition ck_init :: "u32 \<Rightarrow> inet_checksum" where
  "ck_init initial_sum = \<lparr>ck_sum = initial_sum, ck_parity = False\<rparr>"

definition ck_byte :: "inet_checksum \<Rightarrow> u8 \<Rightarrow> inet_checksum" where
  "ck_byte c b =
     (let val = ucast b :: u16;
          val = (if \<not> ck_parity c then push_bit 8 val else val)
      in c\<lparr>ck_sum := ck_sum c + ucast val, ck_parity := \<not> ck_parity c\<rparr>)"

definition ck_add :: "bytes \<Rightarrow> inet_checksum \<Rightarrow> inet_checksum" where
  "ck_add data c = foldl ck_byte c data"

lemma unat_high_low:
  "unat (drop_bit 16 (r :: u32)) = unat r div 65536" "unat (r AND 0xffff) = unat r mod 65536"
proof -
  show "unat (drop_bit 16 r) = unat r div 65536" by (simp add: drop_bit_eq_div unat_div)
  have "r AND 0xffff = take_bit 16 r" by (simp add: take_bit_eq_mask mask_eq_exp_minus_1)
  then show "unat (r AND 0xffff) = unat r mod 65536"
    by (simp add: take_bit_eq_mod unat_mod)
qed

lemma unat_fold_step: "unat (drop_bit 16 r + (r AND 0xffff) :: u32) = unat r div 65536 + unat r mod 65536"
proof -
  have "unat r div 65536 < 65536" using unat_u32_lt [of r] by (simp add: less_mult_imp_div_less)
  then have "unat (drop_bit 16 r :: u32) + unat (r AND 0xffff) < 2 ^ LENGTH(32)"
    unfolding unat_high_low by simp
  then show ?thesis by (simp only: unat_add_nowrap unat_high_low)
qed

function ck_fold :: "u32 \<Rightarrow> u32" where
  "ck_fold ret = (if ret > 0xffff then ck_fold (drop_bit 16 ret + (ret AND 0xffff)) else ret)"
  by pat_completeness auto
termination
proof (relation "measure unat")
  fix ret :: u32
  assume "0xffff < ret"
  then have "65535 < unat ret" by (simp add: word_less_nat_alt)
  then have "0 < unat ret div 65536" by (simp add: div_greater_zero_iff)
  then have "unat ret div 65536 + unat ret mod 65536 < unat ret"
    using div_mult_mod_eq [of "unat ret" 65536] by linarith
  then show "(drop_bit 16 ret + (ret AND 0xffff), ret) \<in> measure unat" by (simp add: unat_fold_step)
qed simp

declare ck_fold.simps [simp del]

definition ck_value :: "inet_checksum \<Rightarrow> u16" where
  "ck_value c = ucast (NOT (ck_fold (ck_sum c)))"

subsection \<open>The folded value\<close>

lemma ck_fold_spec:
  "unat (ck_fold r) \<le> 65535 \<and> unat (ck_fold r) mod 65535 = unat r mod 65535 \<and>
   (ck_fold r = 0 \<longleftrightarrow> r = 0)"
proof (induction r rule: ck_fold.induct)
  case (1 r)
  show ?case
  proof (cases "r > 0xffff")
    case False
    then have "unat r \<le> 65535" by (simp add: word_less_nat_alt)
    with False show ?thesis by (simp add: ck_fold.simps [of r])
  next
    case True
    let ?r = "drop_bit 16 r + (r AND 0xffff)"
    have "ck_fold r = ck_fold ?r" using True by (simp add: ck_fold.simps [of r])
    moreover have "unat ?r mod 65535 = unat r mod 65535"
    proof -
      have "unat r = (unat r div 65536 + unat r mod 65536) + 65535 * (unat r div 65536)"
        using div_mult_mod_eq [of "unat r" 65536] by linarith
      then show ?thesis unfolding unat_fold_step by (metis mod_mult_self2)
    qed
    moreover have "?r \<noteq> 0" "r \<noteq> 0"
    proof -
      have "65535 < unat r" using True by (simp add: word_less_nat_alt)
      then have "0 < unat r div 65536" by (simp add: div_greater_zero_iff)
      then have "0 < unat ?r" unfolding unat_fold_step by simp
      then show "?r \<noteq> 0" by (metis less_irrefl unat_0)
      show "r \<noteq> 0" using True by auto
    qed
    ultimately show ?thesis using 1 [OF True] by simp
  qed
qed

lemma unat_ck_value: "unat (ck_value c) = 65535 - unat (ck_fold (ck_sum c))"
proof -
  let ?f = "ck_fold (ck_sum c)"
  have le: "unat ?f \<le> 65535" using ck_fold_spec by blast
  have "(ucast (NOT ?f) :: u16) = NOT (ucast ?f)" by (rule bit_word_eqI) (auto simp: bit_simps)
  moreover have "unat (ucast ?f :: u16) = unat ?f"
    using le by (simp add: unsigned_ucast_eq take_bit_eq_mod)
  moreover have "NOT (x :: u16) = - 1 - x" for x by (simp add: not_eq_complement)
  moreover have "unat (- 1 - x :: u16) = 65535 - unat x" for x
  proof -
    have "(- 1 :: u16) = 65535" by simp
    then have "unat (- 1 :: u16) = 65535" by (simp only: unat_numeral) simp
    then show ?thesis using unat_diff_nowrap [of x "- 1"] by simp
  qed
  ultimately show ?thesis by (simp only: ck_value_def)
qed

lemma ck_value_zero_iff: "ck_value c = 0 \<longleftrightarrow> ck_sum c \<noteq> 0 \<and> unat (ck_sum c) mod 65535 = 0"
proof -
  let ?f = "ck_fold (ck_sum c)"
  have f: "unat ?f \<le> 65535" "unat ?f mod 65535 = unat (ck_sum c) mod 65535" "?f = 0 \<longleftrightarrow> ck_sum c = 0"
    using ck_fold_spec by blast+
  have "ck_value c = 0 \<longleftrightarrow> unat (ck_value c) = 0" by (simp add: unat_eq_zero)
  also have "\<dots> \<longleftrightarrow> unat ?f = 65535" unfolding unat_ck_value using f(1) by linarith
  also have "\<dots> \<longleftrightarrow> unat ?f \<noteq> 0 \<and> unat ?f mod 65535 = 0"
    using f(1) by (cases "unat ?f = 65535") (auto simp: mod_eq_0_iff_dvd dest: dvd_imp_le)
  finally show ?thesis using f(2,3) by (simp add: unat_eq_zero)
qed

lemma ck_value_cong: "(unat (ck_sum c) + unat (ck_value c)) mod 65535 = 0"
proof -
  let ?f = "ck_fold (ck_sum c)"
  have f: "unat ?f \<le> 65535" "unat ?f mod 65535 = unat (ck_sum c) mod 65535"
    using ck_fold_spec by blast+
  have "(unat (ck_sum c) + unat (ck_value c)) mod 65535 = (unat ?f + (65535 - unat ?f)) mod 65535"
    unfolding unat_ck_value using f(2) by (metis mod_add_left_eq)
  then show ?thesis using f(1) by simp
qed

subsection \<open>The running sum\<close>

text \<open>The sum as a natural number: the bytes as the high and low halves of 16-bit words.\<close>

fun bytes_sum :: "bool \<Rightarrow> bytes \<Rightarrow> nat" where
  "bytes_sum parity [] = 0"
| "bytes_sum parity (b # bs) = (if parity then unat b else 256 * unat b) + bytes_sum (\<not> parity) bs"

lemma bytes_sum_append:
  "bytes_sum parity (xs @ ys) = bytes_sum parity xs + bytes_sum (parity \<noteq> odd (length xs)) ys"
proof (induction xs arbitrary: parity)
  case (Cons x xs)
  then show ?case by (cases parity; cases "even (length xs)") simp_all
qed simp

lemma bytes_sum_bound: "bytes_sum parity xs \<le> 65280 * length xs"
proof (induction xs arbitrary: parity)
  case (Cons x xs)
  from unat_u8_lt [of x] Cons.IH [of True] Cons.IH [of False] show ?case by (cases parity) simp_all
qed simp

lemma ucast_of_nat_unat: "(ucast (w :: 'a::len word) :: 'b::len word) = of_nat (unat w)"
  by simp

lemma ck_byte_sum:
  "ck_sum (ck_byte c b) = ck_sum c + of_nat (if ck_parity c then unat b else 256 * unat b)"
  "ck_parity (ck_byte c b) = (\<not> ck_parity c)"
proof -
  have "(ucast (push_bit 8 (ucast b :: u16)) :: u32) = of_nat (256 * unat b)"
  proof -
    have "unat (push_bit 8 (ucast b :: u16)) = 256 * unat b"
      using unat_u8_lt [of b]
      by (simp add: push_bit_eq_mult unat_word_ariths unsigned_ucast_eq take_bit_eq_mod)
    then show ?thesis using ucast_of_nat_unat [of "push_bit 8 (ucast b :: u16)", where 'b = 32] by simp
  qed
  moreover have "(ucast (ucast b :: u16) :: u32) = of_nat (unat b)"
  proof -
    have "unat (ucast b :: u16) = unat b"
      using unat_u8_lt [of b] by (simp add: unsigned_ucast_eq take_bit_eq_mod)
    then show ?thesis using ucast_of_nat_unat [of "ucast b :: u16", where 'b = 32] by simp
  qed
  ultimately show "ck_sum (ck_byte c b) = ck_sum c + of_nat (if ck_parity c then unat b else 256 * unat b)"
    by (simp add: ck_byte_def Let_def)
  show "ck_parity (ck_byte c b) = (\<not> ck_parity c)" by (simp add: ck_byte_def Let_def)
qed

lemma ck_add_append: "ck_add (xs @ ys) c = ck_add ys (ck_add xs c)"
  by (simp add: ck_add_def)

lemma ck_add_sum: "ck_sum (ck_add data c) = ck_sum c + of_nat (bytes_sum (ck_parity c) data)"
proof (induction data arbitrary: c)
  case (Cons b data)
  then show ?case
    using Cons [of "ck_byte c b"] by (simp add: ck_add_def ck_byte_sum add.assoc)
qed (simp add: ck_add_def)

lemma unat_ck_add_sum:
  assumes "unat (ck_sum c) + bytes_sum (ck_parity c) data < 2 ^ 32"
  shows "unat (ck_sum (ck_add data c)) = unat (ck_sum c) + bytes_sum (ck_parity c) data"
proof -
  have "unat (of_nat (bytes_sum (ck_parity c) data) :: u32) = bytes_sum (ck_parity c) data"
    using assms by (simp add: unat_of_nat take_bit_eq_mod)
  with assms show ?thesis by (simp add: ck_add_sum unat_add_nowrap)
qed

lemma bytes_sum_be: "bytes_sum False (be (v :: u16)) = unat v"
proof -
  have "unat (ucast (drop_bit 8 v AND 255) :: u8) = unat v div 256"
  proof -
    have "unat v div 256 < 256" using unat_u16_lt [of v] by (simp add: less_mult_imp_div_less)
    then show ?thesis
      by (simp add: and_ff unsigned_ucast_eq unsigned_take_bit_eq take_bit_eq_mod drop_bit_eq_div unat_div unat_mod)
  qed
  moreover have "unat (ucast (v AND 255) :: u8) = unat v mod 256"
    by (simp add: and_ff unsigned_ucast_eq take_bit_eq_mod unat_mod)
  ultimately show ?thesis by (simp add: be_def upt_rec)
qed

lemma ck_fill:
  assumes "even (length pre)" and "\<not> ck_parity c"
    and "unat (ck_sum c) < 2 ^ 20" and "length pre + 2 + length post \<le> 65536"
  shows "ck_value (ck_add (pre @ be (ck_value (ck_add (pre @ be (0 :: u16) @ post) c)) @ post) c) = 0"
proof -
  define total where "total v = unat (ck_sum c) + bytes_sum False (pre @ be (v :: u16) @ post)" for v
  have total: "total v = total 0 + unat v" for v
    using assms(1) bytes_sum_be [of v] bytes_sum_be [of 0] by (simp add: total_def bytes_sum_append)
  have "total v < 2 ^ 32" for v
    using assms(3,4) bytes_sum_bound [of False "pre @ be v @ post"] by (simp add: total_def)
  then have sum: "unat (ck_sum (ck_add (pre @ be v @ post) c)) = total v" for v
    using unat_ck_add_sum [of c "pre @ be v @ post"] assms(2) by (simp add: total_def)
  let ?v = "ck_value (ck_add (pre @ be (0 :: u16) @ post) c)"
  have "total ?v mod 65535 = 0"
    using ck_value_cong [of "ck_add (pre @ be (0 :: u16) @ post) c"] sum [of 0] total [of ?v] by simp
  moreover have "total ?v \<noteq> 0"
  proof
    assume "total ?v = 0"
    then have "unat ?v = 0" and "total 0 = 0" using total [of ?v] by simp_all
    then have "?v = 0" and "ck_sum (ck_add (pre @ be (0 :: u16) @ post) c) = 0"
      using sum [of 0] by (simp_all add: unat_eq_zero)
    then show False by (simp add: ck_value_zero_iff)
  qed
  ultimately show ?thesis using sum [of ?v] by (auto simp: ck_value_zero_iff)
qed

text \<open>
  C15. The Internet checksum verifies what it fills in: computing the checksum of a message
  whose (16-bit aligned) checksum field is zero and storing the result in that field gives a
  message whose checksum is zero. The message may have any content, up to 65536 bytes, and
  the sum may start from the pseudo-header of the layer below.
\<close>

theorem checksum_verifies:
  assumes "even (length pre)" and "unat initial_sum < 2 ^ 20"
    and "length pre + 2 + length post \<le> 65536"
  shows "ck_value (ck_add (pre @ unparse_u16 [] (ck_value (ck_add (pre @ unparse_u16 [] 0 @ post)
           (ck_init initial_sum))) @ post) (ck_init initial_sum)) = 0"
  unfolding unparse_eqs append_Nil
  by (rule ck_fill) (use assms in \<open>simp_all add: ck_init_def\<close>)

theorem checksum_verifies_witness:
  "ck_value (ck_add ([0x45, 0] @ unparse_u16 [] (ck_value (ck_add ([0x45, 0] @ unparse_u16 [] 0 @ [1, 2, 3])
      (ck_init 7))) @ [1, 2, 3]) (ck_init 7)) = 0"
  by (rule checksum_verifies) simp_all

text \<open>
  \<^const>\<open>ck_value\<close> is the ones' complement checksum of its input: adding it to the sum
  gives a multiple of 65535, and it is zero exactly when the sum is a non-zero multiple of
  65535. In particular the folding loop ends for every sum.
\<close>

theorem checksum_value_complement:
  "(unat (ck_sum c) + unat (ck_value c)) mod 65535 = 0 \<and>
   (ck_value c = 0 \<longleftrightarrow> ck_sum c \<noteq> 0 \<and> unat (ck_sum c) mod 65535 = 0)"
  by (rule conjI [OF ck_value_cong ck_value_zero_iff])

end
