(* ===== verification/IPv4.thy ===== *)
theory IPv4
  imports Internet_Checksum
begin

text \<open>
  IPv4 headers and datagrams: \<^verbatim>\<open>libsponge/tcp_helpers/ipv4_header.{hh,cc}\<close> and
  \<^verbatim>\<open>ipv4_datagram.{hh,cc}\<close>. Header fields keep the width they have in the C++ structure (the
  4-bit fields are \<^verbatim>\<open>uint8_t\<close> there); multiplications such as \<^verbatim>\<open>4 * hlen\<close> are done in
  \<^verbatim>\<open>int\<close> or \<^verbatim>\<open>size_t\<close> and cannot wrap.
\<close>

definition IP_LENGTH :: nat where "IP_LENGTH = 20"
definition DEFAULT_TTL :: u8 where "DEFAULT_TTL = 128"
definition PROTO_TCP :: u8 where "PROTO_TCP = 6"

record ipv4_header =
  ip_ver :: u8
  ip_hlen :: u8
  ip_tos :: u8
  ip_len :: u16
  ip_id :: u16
  ip_df :: bool
  ip_mf :: bool
  ip_offset :: u16
  ip_ttl :: u8
  ip_proto :: u8
  ip_cksum :: u16
  ip_src :: u32
  ip_dst :: u32

definition ip_default :: ipv4_header where
  "ip_default =
     \<lparr>ip_ver = 4, ip_hlen = 5, ip_tos = 0, ip_len = 0, ip_id = 0, ip_df = True, ip_mf = False,
      ip_offset = 0, ip_ttl = DEFAULT_TTL, ip_proto = PROTO_TCP, ip_cksum = 0, ip_src = 0, ip_dst = 0\<rparr>"

definition ip_parse :: "ipv4_header \<Rightarrow> net_parser \<Rightarrow> (parse_result \<times> ipv4_header \<times> net_parser) result" where
  "ip_parse h p =
     (let original_serialized_version = np_buffer p;
          data_size = buffer_size (np_buffer p)
      in if data_size < IP_LENGTH then Inr (PacketTooShort, h, p)
      else bindE (np_u8 p) (\<lambda>(first_byte, p).
           bindE (np_u8 p) (\<lambda>(tos, p).
           bindE (np_u16 p) (\<lambda>(len, p).
           bindE (np_u16 p) (\<lambda>(ident, p).
           bindE (np_u16 p) (\<lambda>(fo_val, p).
           bindE (np_u8 p) (\<lambda>(ttl, p).
           bindE (np_u8 p) (\<lambda>(proto, p).
           bindE (np_u16 p) (\<lambda>(cksum, p).
           bindE (np_u32 p) (\<lambda>(src, p).
           bindE (np_u32 p) (\<lambda>(dst, p).
           let ver = drop_bit 4 first_byte;
               hlen = first_byte AND 0x0f;
               h = \<lparr>ip_ver = ver, ip_hlen = hlen, ip_tos = tos, ip_len = len, ip_id = ident,
                    ip_df = (fo_val AND 0x4000 \<noteq> 0), ip_mf = (fo_val AND 0x2000 \<noteq> 0),
                    ip_offset = fo_val AND 0x1fff, ip_ttl = ttl, ip_proto = proto,
                    ip_cksum = cksum, ip_src = src, ip_dst = dst\<rparr>
           in if data_size < 4 * unat hlen then Inr (PacketTooShort, h, p)
              else if ver \<noteq> 4 then Inr (WrongIPVersion, h, p)
              else if hlen < 5 then Inr (HeaderTooShort, h, p)
              else if data_size \<noteq> unat len then Inr (TruncatedPacket, h, p)
              else bindE (np_remove_prefix (unat hlen * 4 - IP_LENGTH) p) (\<lambda>p.
                if np_error p then Inr (np_get_error p, h, p)
                else
                  let check = ck_add (take (4 * unat hlen) (buffer_str original_serialized_version)) (ck_init 0)
                  in if ck_value check \<noteq> 0 then Inr (BadChecksum, h, p)
                     else Inr (NoError, h, p)))))))))))))"

text \<open>\<^verbatim>\<open>std::string::resize\<close>.\<close>

definition str_resize :: "nat \<Rightarrow> bytes \<Rightarrow> bytes" where
  "str_resize n s = take n s @ replicate (n - length s) 0"

definition ip_serialize :: "ipv4_header \<Rightarrow> bytes result" where
  "ip_serialize h =
     (if ip_ver h \<noteq> 4 then Inl (Runtime_error ''wrong IP version'')
      else if 4 * unat (ip_hlen h) < IP_LENGTH then Inl (Runtime_error ''IP header too short'')
      else
        let ret = [];
            first_byte = push_bit 4 (ip_ver h) OR (ip_hlen h AND 0xf);
            ret = unparse_u8 ret first_byte;
            ret = unparse_u8 ret (ip_tos h);
            ret = unparse_u16 ret (ip_len h);
            ret = unparse_u16 ret (ip_id h);
            fo_val = (if ip_df h then 0x4000 else 0) OR (if ip_mf h then 0x2000 else 0) OR
                     (ip_offset h AND 0x1fff);
            ret = unparse_u16 ret fo_val;
            ret = unparse_u8 ret (ip_ttl h);
            ret = unparse_u8 ret (ip_proto h);
            ret = unparse_u16 ret (ip_cksum h);
            ret = unparse_u32 ret (ip_src h);
            ret = unparse_u32 ret (ip_dst h);
            ret = str_resize (4 * unat (ip_hlen h)) ret
        in Inr ret)"

definition ip_payload_length :: "ipv4_header \<Rightarrow> u16" where
  "ip_payload_length h = ip_len h - 4 * ucast (ip_hlen h)"

definition ip_pseudo_cksum :: "ipv4_header \<Rightarrow> u32" where
  "ip_pseudo_cksum h =
     (let pcksum = drop_bit 16 (ip_src h) + (ip_src h AND 0xffff);
          pcksum = pcksum + (drop_bit 16 (ip_dst h) + (ip_dst h AND 0xffff));
          pcksum = pcksum + ucast (ip_proto h);
          pcksum = pcksum + ucast (ip_payload_length h)
      in pcksum)"

subsection \<open>Datagrams\<close>

record ipv4_datagram =
  dg_header :: ipv4_header
  dg_payload :: buffer_list

definition dg_default :: ipv4_datagram where
  "dg_default = \<lparr>dg_header = ip_default, dg_payload = []\<rparr>"

definition dg_parse :: "buffer \<Rightarrow> ipv4_datagram \<Rightarrow> (parse_result \<times> ipv4_datagram) result" where
  "dg_parse buffer d =
     bindE (ip_parse (dg_header d) (np_init buffer)) (\<lambda>(_, h, p).
       let d = \<lparr>dg_header = h, dg_payload = buffer_list_of_buffer (np_buffer p)\<rparr> in
       if buffer_list_size (dg_payload d) \<noteq> unat (ip_payload_length (dg_header d))
       then Inr (PacketTooShort, d)
       else Inr (np_get_error p, d))"

definition dg_serialize :: "ipv4_datagram \<Rightarrow> buffer_list result" where
  "dg_serialize d =
     (if buffer_list_size (dg_payload d) \<noteq> unat (ip_payload_length (dg_header d))
      then Inl (Runtime_error ''IPv4Datagram::serialize: payload is wrong size'')
      else
        let header_out = (dg_header d)\<lparr>ip_cksum := 0\<rparr> in
        bindE (ip_serialize header_out) (\<lambda>header_zero_checksum.
          let check = ck_add header_zero_checksum (ck_init 0);
              header_out = header_out\<lparr>ip_cksum := ck_value check\<rparr>
          in bindE (ip_serialize header_out) (\<lambda>hdr.
            let ret = [];
                ret = buffer_list_append ret (buffer_list_of hdr);
                ret = buffer_list_append ret (dg_payload d)
            in Inr ret)))"

subsection \<open>Bit fields\<close>

lemma and_low_mask:
  "(x :: u8) AND 0x0f = take_bit 4 x" "(y :: u16) AND 0x1fff = take_bit 13 y"
  by (simp_all add: take_bit_eq_mask mask_eq_exp_minus_1)

lemma take_bit_small: "unat (x :: 'a::len word) < 2 ^ n \<Longrightarrow> take_bit n x = x"
proof -
  assume "unat x < 2 ^ n"
  then have "unat (take_bit n x) = unat x" by (simp add: unsigned_take_bit_eq take_bit_nat_eq_self)
  then show ?thesis by (metis unsigned_word_eqI)
qed

lemma and_flag:
  "(y :: u16) AND 0x4000 \<noteq> 0 \<longleftrightarrow> bit y 14" "(y :: u16) AND 0x2000 \<noteq> 0 \<longleftrightarrow> bit y 13"
  using and_exp_eq_0_iff_not_bit [of y 14] and_exp_eq_0_iff_not_bit [of y 13] by simp_all

definition ip_first_byte :: "ipv4_header \<Rightarrow> u8" where
  "ip_first_byte h = push_bit 4 (ip_ver h) OR (ip_hlen h AND 0xf)"

definition ip_fo_val :: "ipv4_header \<Rightarrow> u16" where
  "ip_fo_val h = (if ip_df h then 0x4000 else 0) OR (if ip_mf h then 0x2000 else 0) OR (ip_offset h AND 0x1fff)"

text \<open>A header whose fields fit the bits they have on the wire.\<close>

definition ip_wf :: "ipv4_header \<Rightarrow> bool" where
  "ip_wf h \<longleftrightarrow> ip_ver h = 4 \<and> 5 \<le> unat (ip_hlen h) \<and> unat (ip_hlen h) < 16 \<and> unat (ip_offset h) < 8192"

lemma ip_wf_cksum [simp]: "ip_wf (h\<lparr>ip_cksum := c\<rparr>) = ip_wf h"
  by (simp add: ip_wf_def)

lemma ip_first_byte_fields:
  assumes "ip_wf h"
  shows "drop_bit 4 (ip_first_byte h) = ip_ver h" and "ip_first_byte h AND 0x0f = ip_hlen h"
proof -
  have v: "take_bit 4 (ip_ver h) = ip_ver h" and l: "take_bit 4 (ip_hlen h) = ip_hlen h"
    using assms by (simp_all add: ip_wf_def take_bit_small)
  have "drop_bit 4 (ip_first_byte h) = take_bit 4 (ip_ver h)"
    unfolding ip_first_byte_def and_low_mask by (rule bit_word_eqI) (auto simp: bit_simps)
  with v show "drop_bit 4 (ip_first_byte h) = ip_ver h" by simp
  have "ip_first_byte h AND 0x0f = take_bit 4 (ip_hlen h)"
    unfolding ip_first_byte_def and_low_mask by (rule bit_word_eqI) (auto simp: bit_simps)
  with l show "ip_first_byte h AND 0x0f = ip_hlen h" by simp
qed

lemma ip_fo_val_fields:
  assumes "ip_wf h"
  shows "ip_fo_val h AND 0x4000 \<noteq> 0 \<longleftrightarrow> ip_df h" and "ip_fo_val h AND 0x2000 \<noteq> 0 \<longleftrightarrow> ip_mf h"
    and "ip_fo_val h AND 0x1fff = ip_offset h"
proof -
  have o13: "take_bit 13 (ip_offset h) = ip_offset h" using assms by (simp add: ip_wf_def take_bit_small)
  have b: "(0x4000 :: u16) = push_bit 14 1" "(0x2000 :: u16) = push_bit 13 1" by simp_all
  show "ip_fo_val h AND 0x4000 \<noteq> 0 \<longleftrightarrow> ip_df h" "ip_fo_val h AND 0x2000 \<noteq> 0 \<longleftrightarrow> ip_mf h"
    unfolding and_flag ip_fo_val_def and_low_mask by (simp_all add: b bit_simps del: push_bit_of_1 push_bit_numeral)
  have "ip_fo_val h AND 0x1fff = take_bit 13 (ip_offset h)"
    unfolding and_low_mask ip_fo_val_def b
    by (rule bit_word_eqI) (auto simp: bit_simps simp del: push_bit_of_1)
  with o13 show "ip_fo_val h AND 0x1fff = ip_offset h" by simp
qed

subsection \<open>Headers on the wire\<close>

text \<open>The bytes before and after the checksum field.\<close>

definition ip_front :: "ipv4_header \<Rightarrow> bytes" where
  "ip_front h = ip_first_byte h # ip_tos h # be (ip_len h) @ be (ip_id h) @ be (ip_fo_val h) @ [ip_ttl h, ip_proto h]"

definition ip_back :: "ipv4_header \<Rightarrow> bytes" where
  "ip_back h = be (ip_src h) @ be (ip_dst h) @ replicate (4 * unat (ip_hlen h) - 20) 0"

lemma ip_front_back_lengths: "length (ip_front h) = 10" "length (ip_back h) = 8 + (4 * unat (ip_hlen h) - 20)"
  by (simp_all add: ip_front_def ip_back_def)

lemma ip_front_back_cksum [simp]:
  "ip_front (h\<lparr>ip_cksum := c\<rparr>) = ip_front h" "ip_back (h\<lparr>ip_cksum := c\<rparr>) = ip_back h"
  by (simp_all add: ip_front_def ip_back_def ip_first_byte_def ip_fo_val_def)

lemma ip_serialize_eq:
  assumes "ip_wf h"
  shows "ip_serialize h = Inr (ip_front h @ be (ip_cksum h) @ ip_back h)"
proof -
  let ?s = "ip_front h @ be (ip_cksum h) @ be (ip_src h) @ be (ip_dst h)"
  have "ip_serialize h = Inr (str_resize (4 * unat (ip_hlen h)) ?s)"
    using assms
    by (simp add: ip_serialize_def ip_wf_def IP_LENGTH_def Let_def ip_front_def ip_first_byte_def ip_fo_val_def)
  moreover have "length ?s = 20" by (simp add: ip_front_back_lengths)
  moreover have "20 \<le> 4 * unat (ip_hlen h)" using assms by (simp add: ip_wf_def)
  ultimately show ?thesis by (simp add: str_resize_def ip_back_def)
qed

lemma ip_parse_serialized:
  assumes wf: "ip_wf h" and p: "np_at (ip_front h @ be (ip_cksum h) @ ip_back h @ rest) p"
    and P: "\<And>p'. np_at (if 4 * unat (ip_hlen h) + length rest = unat (ip_len h) then rest
              else replicate (4 * unat (ip_hlen h) - 20) 0 @ rest) p' \<Longrightarrow>
        P (if 4 * unat (ip_hlen h) + length rest \<noteq> unat (ip_len h) then TruncatedPacket
           else if ck_value (ck_add (ip_front h @ be (ip_cksum h) @ ip_back h) (ck_init 0)) \<noteq> 0 then BadChecksum
           else NoError, h, p')"
  shows "ensures (ip_parse h0 p) P"
proof -
  let ?pad = "replicate (4 * unat (ip_hlen h) - 20) 0 :: bytes"
  have str: "buffer_str (np_buffer p) = ip_front h @ be (ip_cksum h) @ ip_back h @ rest"
    using p by (simp add: np_at_def)
  have h5: "5 \<le> unat (ip_hlen h)" "\<not> ip_hlen h < 5" using wf by (simp_all add: ip_wf_def word_less_nat_alt)
  then have size: "buffer_size (np_buffer p) = 4 * unat (ip_hlen h) + length rest"
    unfolding buffer_size_copy str by (simp add: ip_front_back_lengths)
  have not_short: "\<not> buffer_size (np_buffer p) < IP_LENGTH" using size h5 by (simp add: IP_LENGTH_def)
  have taken: "take (4 * unat (ip_hlen h)) (buffer_str (np_buffer p)) = ip_front h @ be (ip_cksum h) @ ip_back h"
    unfolding str using h5 by (simp add: ip_front_back_lengths)
  have in': "np_at (ip_first_byte h # ip_tos h # be (ip_len h) @ be (ip_id h) @ be (ip_fo_val h) @
      ip_ttl h # ip_proto h # be (ip_cksum h) @ be (ip_src h) @ be (ip_dst h) @ ?pad @ rest) p"
    using p by (simp add: ip_front_def ip_back_def)
  have ver: "ip_ver h = 4" using wf by (simp add: ip_wf_def)
  note fields = ip_first_byte_fields [OF wf] ip_fo_val_fields [OF wf]
  have h: "\<lparr>ip_ver = ip_ver h, ip_hlen = ip_hlen h, ip_tos = ip_tos h, ip_len = ip_len h, ip_id = ip_id h,
      ip_df = ip_df h, ip_mf = ip_mf h, ip_offset = ip_offset h, ip_ttl = ip_ttl h, ip_proto = ip_proto h,
      ip_cksum = ip_cksum h, ip_src = ip_src h, ip_dst = ip_dst h\<rparr> = h" by simp
  show ?thesis
  proof (cases "4 * unat (ip_hlen h) + length rest = unat (ip_len h)")
    case False
    show ?thesis
      unfolding ip_parse_def Let_def if_not_P [OF not_short]
      by (insert in', (rule reads, assumption)+) (simp only: fields h, simp only: size, use False P in \<open>simp add: ver h5\<close>)
  next
    case True
    then have guards: "\<not> unat (ip_len h) < 4 * unat (ip_hlen h)" by linarith
    show ?thesis
      unfolding ip_parse_def Let_def if_not_P [OF not_short]
      by (insert in', (rule reads, assumption)+,
          simp only: fields h, simp only: size ver h5 True guards if_True if_False not_True_eq_False simp_thms,
          (rule reads, assumption)+)
        (cases "ck_value (ck_add (ip_front h @ be (ip_cksum h) @ ip_back h) (ck_init 0)) = 0";
         use True P h5 in \<open>simp add: np_at_error taken IP_LENGTH_def\<close>)+
  qed
qed

lemma ip_payload_length_nat:
  assumes "4 * unat (ip_hlen h) \<le> unat (ip_len h)"
  shows "unat (ip_payload_length h) = unat (ip_len h) - 4 * unat (ip_hlen h)"
proof -
  have "unat (4 * ucast (ip_hlen h) :: u16) = 4 * unat (ip_hlen h)"
    using unat_u8_lt [of "ip_hlen h"] by (simp add: unat_word_ariths unsigned_ucast_eq take_bit_eq_mod)
  with assms show ?thesis by (simp add: ip_payload_length_def unat_diff_nowrap word_le_nat_alt)
qed

lemma buffer_list_size_length: "buffer_list_size bs = length (buffer_list_concatenate bs)"
proof -
  have "foldl (\<lambda>ret buf. ret + buffer_size buf) n bs = n + length (concat (map buffer_str bs))" for n
    by (induction bs arbitrary: n) simp_all
  then show ?thesis by (simp add: buffer_list_size_def buffer_list_concatenate_eq)
qed

text \<open>Parsing returns on every input.\<close>

lemma ip_parse_total: "ensures (ip_parse h p) (\<lambda>_. True)"
  unfolding ip_parse_def Let_def
  by (cases "buffer_size (np_buffer p) < IP_LENGTH")
    (simp, simp only: if_False, (rule reads_any)+, simp split: if_split, intro impI, rule reads_any, simp)

lemma dg_parse_total: "\<exists>r. dg_parse b d = Inr r"
  using ip_parse_total [of "dg_header d" "np_init b"] by (auto simp: dg_parse_def ensures_iff Let_def)

lemma dg_serialized:
  assumes wf: "ip_wf (dg_header d)"
    and len: "unat (ip_len (dg_header d)) = 4 * unat (ip_hlen (dg_header d)) + length (buffer_list_concatenate (dg_payload d))"
  shows "\<exists>bl c. dg_serialize d = Inr bl \<and>
    (\<forall>h0. \<exists>p'. ip_parse h0 (np_init (buffer_of (buffer_list_concatenate bl)))
        = Inr (NoError, (dg_header d)\<lparr>ip_cksum := c\<rparr>, p')) \<and>
    (\<forall>d0. \<exists>d'. dg_parse (buffer_of (buffer_list_concatenate bl)) d0 = Inr (NoError, d') \<and>
      dg_header d' = (dg_header d)\<lparr>ip_cksum := c\<rparr> \<and>
      buffer_list_concatenate (dg_payload d') = buffer_list_concatenate (dg_payload d))"
proof -
  let ?h = "dg_header d" and ?rest = "buffer_list_concatenate (dg_payload d)"
  define c where "c = ck_value (ck_add (ip_front ?h @ be (0 :: u16) @ ip_back ?h) (ck_init 0))"
  let ?hc = "?h\<lparr>ip_cksum := c\<rparr>" and ?hdr = "ip_front ?h @ be c @ ip_back ?h"
  have pay: "unat (ip_payload_length ?h) = length ?rest" using len by (simp add: ip_payload_length_nat)
  have ser: "dg_serialize d = Inr ([buffer_of ?hdr] @ dg_payload d)"
    using wf pay
    by (simp add: dg_serialize_def buffer_list_size_length ip_serialize_eq Let_def flip: c_def)
  let ?in = "?hdr @ ?rest"
  have cat: "buffer_list_concatenate ([buffer_of ?hdr] @ dg_payload d) = ?in"
    by (simp add: buffer_list_concatenate_eq)
  have "4 * unat (ip_hlen ?h) < 64" using wf by (simp add: ip_wf_def)
  then have good: "ck_value (ck_add ?hdr (ck_init 0)) = 0"
    unfolding c_def by (intro ck_fill) (simp_all add: ip_front_back_lengths ck_init_def)
  have p: "ensures (ip_parse h1 (np_init (buffer_of ?in))) (\<lambda>(res, h, p). res = NoError \<and> h = ?hc \<and> np_at ?rest p)" for h1
    by (rule ip_parse_serialized [of ?hc ?rest]) (use wf len good in simp_all)
  have ip: "\<exists>p'. ip_parse h0 (np_init (buffer_of ?in)) = Inr (NoError, ?hc, p')" for h0
    using p [of h0] by (auto simp: ensures_iff)
  have dg: "\<exists>d'. dg_parse (buffer_of ?in) d0 = Inr (NoError, d') \<and> dg_header d' = ?hc \<and>
      buffer_list_concatenate (dg_payload d') = ?rest" for d0
  proof -
    obtain p' where p': "ip_parse (dg_header d0) (np_init (buffer_of ?in)) = Inr (NoError, ?hc, p')" "np_at ?rest p'"
      using p [of "dg_header d0"] by (auto simp: ensures_iff)
    have "ip_payload_length ?hc = ip_payload_length ?h" by (simp add: ip_payload_length_def)
    with p' pay show ?thesis
      by (simp add: dg_parse_def buffer_list_size_length buffer_list_of_buffer_def buffer_list_concatenate_eq
          np_at_def np_get_error_def)
  qed
  show ?thesis using ser cat ip dg by (intro exI [of _ "[buffer_of ?hdr] @ dg_payload d"] exI [of _ c]) simp
qed

subsection \<open>Properties\<close>

text \<open>
  C16. An IPv4 datagram is read back as it was written. If the header's fields fit their bit
  widths and its length field counts header and payload, serializing succeeds, the header on
  the wire passes the header parser's checksum test, and parsing the concatenated buffers
  returns no error, the same payload bytes and the same header with the checksum filled in.
\<close>

theorem ipv4_datagram_roundtrip:
  assumes wf: "ip_wf (dg_header d)"
    and len: "unat (ip_len (dg_header d)) = 4 * unat (ip_hlen (dg_header d)) + length (buffer_list_concatenate (dg_payload d))"
  shows "\<exists>bl c d'. dg_serialize d = Inr bl \<and>
    (\<exists>p'. ip_parse h0 (np_init (buffer_of (buffer_list_concatenate bl)))
        = Inr (NoError, (dg_header d)\<lparr>ip_cksum := c\<rparr>, p')) \<and>
    dg_parse (buffer_of (buffer_list_concatenate bl)) d0 = Inr (NoError, d') \<and>
    dg_header d' = (dg_header d)\<lparr>ip_cksum := c\<rparr> \<and>
    buffer_list_concatenate (dg_payload d') = buffer_list_concatenate (dg_payload d)"
  using dg_serialized [OF assms] by blast

theorem ipv4_datagram_roundtrip_witness:
  "\<exists>bl c d'. dg_serialize \<lparr>dg_header = ip_default\<lparr>ip_len := 23, ip_src := 7\<rparr>, dg_payload = [buffer_of [1, 2, 3]]\<rparr> = Inr bl \<and>
    (\<exists>p'. ip_parse ip_default (np_init (buffer_of (buffer_list_concatenate bl)))
        = Inr (NoError, (dg_header \<lparr>dg_header = ip_default\<lparr>ip_len := 23, ip_src := 7\<rparr>, dg_payload = [buffer_of [1, 2, 3]]\<rparr>)\<lparr>ip_cksum := c\<rparr>, p')) \<and>
    dg_parse (buffer_of (buffer_list_concatenate bl)) dg_default = Inr (NoError, d') \<and>
    dg_header d' = (dg_header \<lparr>dg_header = ip_default\<lparr>ip_len := 23, ip_src := 7\<rparr>, dg_payload = [buffer_of [1, 2, 3]]\<rparr>)\<lparr>ip_cksum := c\<rparr> \<and>
    buffer_list_concatenate (dg_payload d') = buffer_list_concatenate
      (dg_payload \<lparr>dg_header = ip_default\<lparr>ip_len := 23, ip_src := 7\<rparr>, dg_payload = [buffer_of [1, 2, 3]]\<rparr>)"
  by (rule ipv4_datagram_roundtrip)
    (simp_all add: ip_wf_def ip_default_def buffer_list_concatenate_eq)

text \<open>
  C21. A datagram with a wrong header checksum is accepted: \<^verbatim>\<open>IPv4Datagram::parse\<close> drops the
  result of the header's parser. Whatever the checksum field holds, parsing returns no error,
  also when the header's parser reports \<^const>\<open>BadChecksum\<close>.
\<close>

theorem bad_checksum_accepted:
  assumes wf: "ip_wf h" and len: "unat (ip_len h) = 4 * unat (ip_hlen h) + length payload"
  shows "\<exists>ser res p' d'. ip_serialize h = Inr ser \<and>
    ip_parse h0 (np_init (buffer_of (ser @ payload))) = Inr (res, h, p') \<and>
    (res = BadChecksum \<longleftrightarrow> ck_value (ck_add ser (ck_init 0)) \<noteq> 0) \<and>
    dg_parse (buffer_of (ser @ payload)) d0 = Inr (NoError, d') \<and> dg_header d' = h"
proof -
  let ?ser = "ip_front h @ be (ip_cksum h) @ ip_back h"
  let ?res = "if ck_value (ck_add ?ser (ck_init 0)) \<noteq> 0 then BadChecksum else NoError"
  have p: "ensures (ip_parse h1 (np_init (buffer_of (?ser @ payload))))
      (\<lambda>(res, h', p). res = ?res \<and> h' = h \<and> np_at payload p)" for h1
    by (rule ip_parse_serialized [of h payload]) (use wf len in simp_all)
  obtain p1 where p1: "ip_parse h0 (np_init (buffer_of (?ser @ payload))) = Inr (?res, h, p1)"
    using p [of h0] by (auto simp: ensures_iff)
  obtain p2 where p2: "ip_parse (dg_header d0) (np_init (buffer_of (?ser @ payload))) = Inr (?res, h, p2)"
    "np_at payload p2" using p [of "dg_header d0"] by (auto simp: ensures_iff)
  have "dg_parse (buffer_of (?ser @ payload)) d0
      = Inr (NoError, \<lparr>dg_header = h, dg_payload = buffer_list_of_buffer (np_buffer p2)\<rparr>)"
    using p2 len by (simp add: dg_parse_def buffer_list_size_length buffer_list_of_buffer_def
        buffer_list_concatenate_eq np_at_def np_get_error_def ip_payload_length_nat)
  with p1 ip_serialize_eq [OF wf] show ?thesis by auto
qed

theorem bad_checksum_accepted_witness:
  "\<exists>ser res p' d'. ip_serialize (ip_default\<lparr>ip_len := 21, ip_cksum := 99\<rparr>) = Inr ser \<and>
    ip_parse ip_default (np_init (buffer_of (ser @ [1]))) = Inr (res, ip_default\<lparr>ip_len := 21, ip_cksum := 99\<rparr>, p') \<and>
    (res = BadChecksum \<longleftrightarrow> ck_value (ck_add ser (ck_init 0)) \<noteq> 0) \<and>
    dg_parse (buffer_of (ser @ [1])) dg_default = Inr (NoError, d') \<and>
    dg_header d' = ip_default\<lparr>ip_len := 21, ip_cksum := 99\<rparr>"
  by (rule bad_checksum_accepted) (simp_all add: ip_wf_def ip_default_def)

end
