(* ===== verification/Network_Interface.thy ===== *)
theory Network_Interface
  imports Address Ethernet IPv4
begin

text \<open>
  The network interface of \<^verbatim>\<open>libsponge/network_interface.{hh,cc}\<close>: it sends Internet datagrams
  in Ethernet frames, finds out the Ethernet address of the next hop by ARP, and keeps the
  datagrams that wait for an answer. The three \<^verbatim>\<open>std::map\<close> members are maps; the loops over
  them in \<^verbatim>\<open>tick\<close> treat every entry on its own, so the order of iteration does not matter.
  \<open>nh_run\<close> executes a sequence of calls with a clock and a record of what was sent, requested
  and learned.
\<close>

record network_interface =
  ni_ethernet_address :: ethernet_address
  ni_ip_address :: address
  ni_frames_out :: "ethernet_frame list"
  ni_cacheMap :: "u32 \<rightharpoonup> (ethernet_address \<times> u64)"
  ni_arpRequests :: "u32 \<rightharpoonup> u64"
  ni_datagramQueue :: "u32 \<rightharpoonup> ipv4_datagram list"

definition ni_init :: "ethernet_address \<Rightarrow> address \<Rightarrow> network_interface" where
  "ni_init ethernet_address ip_address =
     \<lparr>ni_ethernet_address = ethernet_address, ni_ip_address = ip_address, ni_frames_out = [],
      ni_cacheMap = Map.empty, ni_arpRequests = Map.empty, ni_datagramQueue = Map.empty\<rparr>"

text \<open>A frame from this interface, pushed onto the outgoing queue.\<close>

definition ni_push_frame :: "ethernet_address \<Rightarrow> u16 \<Rightarrow> buffer_list \<Rightarrow> network_interface \<Rightarrow> network_interface" where
  "ni_push_frame dst type payload ni =
     ni\<lparr>ni_frames_out := ni_frames_out ni @
        [\<lparr>ef_header = \<lparr>eh_dst = dst, eh_src = ni_ethernet_address ni, eh_type = type\<rparr>, ef_payload = payload\<rparr>]\<rparr>"

definition ni_request :: "u32 \<Rightarrow> network_interface \<Rightarrow> network_interface result" where
  "ni_request next_hop_ip ni =
     bindE (addr_ipv4_numeric (ni_ip_address ni)) (\<lambda>my_ip.
       let am = arp_default\<lparr>opcode := OPCODE_REQUEST, sender_ethernet_address := ni_ethernet_address ni,
                            sender_ip_address := my_ip, target_ip_address := next_hop_ip\<rparr>
       in bindE (arp_serialize am) (\<lambda>s.
          let ni = ni_push_frame ETHERNET_BROADCAST TYPE_ARP (buffer_list_of s) ni
          in Inr (ni\<lparr>ni_arpRequests := (ni_arpRequests ni)(next_hop_ip \<mapsto> 5 * 1000)\<rparr>)))"

definition ni_pending :: "u32 \<Rightarrow> network_interface \<Rightarrow> ipv4_datagram list" where
  "ni_pending ip ni = (case ni_datagramQueue ni ip of None \<Rightarrow> [] | Some q \<Rightarrow> q)"

definition ni_send_datagram :: "ipv4_datagram \<Rightarrow> address \<Rightarrow> network_interface \<Rightarrow> network_interface result" where
  "ni_send_datagram dgram next_hop ni =
     bindE (addr_ipv4_numeric next_hop) (\<lambda>next_hop_ip.
       case ni_cacheMap ni next_hop_ip of
         Some (mac, _) \<Rightarrow>
           bindE (dg_serialize dgram) (\<lambda>bl. Inr (ni_push_frame mac TYPE_IPv4 bl ni))
       | None \<Rightarrow>
           bindE (if ni_arpRequests ni next_hop_ip = None then ni_request next_hop_ip ni else Inr ni) (\<lambda>ni.
             Inr (ni\<lparr>ni_datagramQueue := (ni_datagramQueue ni)(next_hop_ip \<mapsto> ni_pending next_hop_ip ni @ [dgram])\<rparr>)))"

text \<open>The loop that sends what has been waiting for the address just learned.\<close>

fun ni_flush :: "u32 \<Rightarrow> ethernet_address \<Rightarrow> ipv4_datagram list \<Rightarrow> network_interface \<Rightarrow> network_interface result" where
  "ni_flush ip mac [] ni = Inr ni"
| "ni_flush ip mac (data # q) ni =
     bindE (dg_serialize data) (\<lambda>bl.
       let ni = ni_push_frame mac TYPE_IPv4 bl ni
       in ni_flush ip mac q (ni\<lparr>ni_datagramQueue := (ni_datagramQueue ni)(ip \<mapsto> q)\<rparr>))"

definition ni_reply :: "arp_message \<Rightarrow> network_interface \<Rightarrow> network_interface result" where
  "ni_reply a ni =
     (if opcode a = OPCODE_REQUEST then
        bindE (addr_ipv4_numeric (ni_ip_address ni)) (\<lambda>my_ip.
          if target_ip_address a = my_ip then
            let a = a\<lparr>opcode := OPCODE_REPLY\<rparr>;
                a = a\<lparr>target_ethernet_address := sender_ethernet_address a\<rparr>;
                a = a\<lparr>target_ip_address := sender_ip_address a\<rparr>;
                a = a\<lparr>sender_ethernet_address := ni_ethernet_address ni\<rparr>;
                a = a\<lparr>sender_ip_address := my_ip\<rparr>
            in bindE (arp_serialize a) (\<lambda>s.
                 Inr (ni_push_frame (target_ethernet_address a) TYPE_ARP (buffer_list_of s) ni))
          else Inr ni)
      else Inr ni)"

definition ni_learn :: "arp_message \<Rightarrow> network_interface \<Rightarrow> network_interface result" where
  "ni_learn a ni =
     (let ni = ni\<lparr>ni_cacheMap := (ni_cacheMap ni)(sender_ip_address a \<mapsto> (sender_ethernet_address a, 30 * 1000))\<rparr>
      in case ni_datagramQueue ni (sender_ip_address a) of
           None \<Rightarrow> Inr ni
         | Some q \<Rightarrow> ni_flush (sender_ip_address a) (sender_ethernet_address a) q ni)"

definition ni_recv_frame :: "ethernet_frame \<Rightarrow> network_interface \<Rightarrow> (ipv4_datagram option \<times> network_interface) result" where
  "ni_recv_frame frame ni =
     (if eh_dst (ef_header frame) \<noteq> ETHERNET_BROADCAST \<and> eh_dst (ef_header frame) \<noteq> ni_ethernet_address ni
      then Inr (None, ni)
      else if eh_type (ef_header frame) = TYPE_IPv4 then
        bindE (dg_parse (buffer_of (buffer_list_concatenate (ef_payload frame))) dg_default) (\<lambda>(res, d).
          if res \<noteq> NoError then Inr (None, ni) else Inr (Some d, ni))
      else if eh_type (ef_header frame) = TYPE_ARP then
        bindE (arp_parse (buffer_of (buffer_list_concatenate (ef_payload frame))) arp_default) (\<lambda>(res, a).
          if res \<noteq> NoError then Inr (None, ni)
          else bindE (ni_learn a ni) (\<lambda>ni.
               bindE (ni_reply a ni) (\<lambda>ni. Inr (None, ni))))
      else Inr (None, ni))"

definition ni_tick :: "u64 \<Rightarrow> network_interface \<Rightarrow> network_interface" where
  "ni_tick ms_since_last_tick ni =
     ni\<lparr>ni_arpRequests := (\<lambda>ip. case ni_arpRequests ni ip of
          None \<Rightarrow> None
        | Some t \<Rightarrow> if t > ms_since_last_tick then Some (t - ms_since_last_tick) else None),
        ni_cacheMap := (\<lambda>ip. case ni_cacheMap ni ip of
          None \<Rightarrow> None
        | Some (mac, t) \<Rightarrow> if t > ms_since_last_tick then Some (mac, t - ms_since_last_tick) else None)\<rparr>"

subsection \<open>Histories\<close>

datatype ni_op =
    Ni_send_datagram ipv4_datagram address
  | Ni_recv_frame ethernet_frame
  | Ni_tick u64
  | Ni_pop

record ni_history =
  nh_now :: nat
  nh_sent :: "(u32 \<times> ipv4_datagram) list"
  nh_requests :: "(u32 \<times> nat) list"
  nh_learned :: "(u32 \<times> ethernet_address) list"
  nh_got :: "ipv4_datagram list"
  nh_log :: "ethernet_frame list"
  nh_ni :: network_interface

definition nh_init :: "ethernet_address \<Rightarrow> address \<Rightarrow> ni_history" where
  "nh_init eth ip = \<lparr>nh_now = 0, nh_sent = [], nh_requests = [], nh_learned = [], nh_got = [], nh_log = [],
     nh_ni = ni_init eth ip\<rparr>"

text \<open>What a frame teaches: the sender of an ARP message that is accepted.\<close>

definition ni_teaches :: "ethernet_frame \<Rightarrow> network_interface \<Rightarrow> arp_message option" where
  "ni_teaches frame ni =
     (if (eh_dst (ef_header frame) = ETHERNET_BROADCAST \<or> eh_dst (ef_header frame) = ni_ethernet_address ni) \<and>
         eh_type (ef_header frame) = TYPE_ARP
      then (case arp_parse (buffer_of (buffer_list_concatenate (ef_payload frame))) arp_default of
              Inr (NoError, a) \<Rightarrow> Some a | _ \<Rightarrow> None)
      else None)"

fun nh_step :: "ni_op \<Rightarrow> ni_history \<Rightarrow> ni_history result" where
  "nh_step (Ni_send_datagram d next_hop) h =
     bindE (addr_ipv4_numeric next_hop) (\<lambda>ip.
     bindE (ni_send_datagram d next_hop (nh_ni h)) (\<lambda>ni.
       let new = drop (length (ni_frames_out (nh_ni h))) (ni_frames_out ni);
           asked = list_ex (\<lambda>f. eh_type (ef_header f) = TYPE_ARP) new
       in Inr (h\<lparr>nh_sent := nh_sent h @ [(ip, d)],
                 nh_requests := nh_requests h @ (if asked then [(ip, nh_now h)] else []), nh_ni := ni\<rparr>)))"
| "nh_step (Ni_recv_frame f) h =
     bindE (ni_recv_frame f (nh_ni h)) (\<lambda>(got, ni).
       Inr (h\<lparr>nh_learned := nh_learned h @ (case ni_teaches f (nh_ni h) of
                 None \<Rightarrow> [] | Some a \<Rightarrow> [(sender_ip_address a, sender_ethernet_address a)]),
              nh_got := nh_got h @ (case got of None \<Rightarrow> [] | Some d \<Rightarrow> [d]), nh_ni := ni\<rparr>))"
| "nh_step (Ni_tick ms) h = Inr (h\<lparr>nh_now := nh_now h + unat ms, nh_ni := ni_tick ms (nh_ni h)\<rparr>)"
| "nh_step Ni_pop h =
     (case ni_frames_out (nh_ni h) of
        [] \<Rightarrow> Inr h
      | f # q \<Rightarrow> Inr (h\<lparr>nh_log := nh_log h @ [f], nh_ni := (nh_ni h)\<lparr>ni_frames_out := q\<rparr>\<rparr>))"

fun nh_run :: "ni_op list \<Rightarrow> ni_history \<Rightarrow> ni_history result" where
  "nh_run [] h = Inr h"
| "nh_run (x # xs) h = bindE (nh_step x h) (nh_run xs)"

subsection \<open>What the operations do\<close>

text \<open>A datagram that can be serialized: fields in range, and the length field tells the truth.\<close>

definition dg_wf :: "ipv4_datagram \<Rightarrow> bool" where
  "dg_wf d \<longleftrightarrow> ip_wf (dg_header d) \<and>
     unat (ip_len (dg_header d)) = 4 * unat (ip_hlen (dg_header d)) + length (buffer_list_concatenate (dg_payload d))"

lemma dg_wf_serialize: "dg_wf d \<Longrightarrow> \<exists>bl. dg_serialize d = Inr bl"
  using dg_serialized [of d] by (auto simp: dg_wf_def)

lemma types_differ [simp]: "TYPE_ARP \<noteq> TYPE_IPv4" "TYPE_IPv4 \<noteq> TYPE_ARP"
  by (simp_all add: TYPE_ARP_def TYPE_IPv4_def)

lemma ni_push_frame_simps [simp]:
  "ni_ethernet_address (ni_push_frame dst type bl ni) = ni_ethernet_address ni"
  "ni_ip_address (ni_push_frame dst type bl ni) = ni_ip_address ni"
  "ni_cacheMap (ni_push_frame dst type bl ni) = ni_cacheMap ni"
  "ni_arpRequests (ni_push_frame dst type bl ni) = ni_arpRequests ni"
  "ni_datagramQueue (ni_push_frame dst type bl ni) = ni_datagramQueue ni"
  by (simp_all add: ni_push_frame_def)

text \<open>\<open>ni_carries src f (ip, mac, d)\<close>: the frame \<open>f\<close> takes the datagram \<open>d\<close> to the address \<open>mac\<close>.\<close>

fun ni_carries :: "ethernet_address \<Rightarrow> ethernet_frame \<Rightarrow> u32 \<times> ethernet_address \<times> ipv4_datagram \<Rightarrow> bool" where
  "ni_carries src f (ip, mac, d) \<longleftrightarrow>
     ef_header f = \<lparr>eh_dst = mac, eh_src = src, eh_type = TYPE_IPv4\<rparr> \<and> dg_serialize d = Inr (ef_payload f)"

definition ef_is_ipv4 :: "ethernet_frame \<Rightarrow> bool" where
  "ef_is_ipv4 f \<longleftrightarrow> eh_type (ef_header f) = TYPE_IPv4"

lemma arp_request_serialized:
  "\<exists>s. arp_serialize (arp_default\<lparr>opcode := OPCODE_REQUEST, sender_ethernet_address := eth,
      sender_ip_address := ip, target_ip_address := ip'\<rparr>) = Inr s"
  by (simp add: arp_serialize_def arp_supported_def arp_default_def Let_def)

lemma ni_request_ok:
  assumes "addr_ipv4_numeric (ni_ip_address ni) = Inr my"
  shows "\<exists>bl. ni_request ip ni =
    Inr ((ni_push_frame ETHERNET_BROADCAST TYPE_ARP bl ni)\<lparr>ni_arpRequests := (ni_arpRequests ni)(ip \<mapsto> 5000)\<rparr>)"
  using arp_request_serialized [where eth = "ni_ethernet_address ni" and ip = my and ip' = ip] assms by (auto simp: ni_request_def Let_def)

lemma ni_flush_ok:
  assumes "list_all dg_wf q" and "ni_datagramQueue ni ip = Some q"
  shows "\<exists>fs. ni_flush ip mac q ni =
      Inr (ni\<lparr>ni_frames_out := ni_frames_out ni @ fs, ni_datagramQueue := (ni_datagramQueue ni)(ip \<mapsto> [])\<rparr>) \<and>
    list_all2 (ni_carries (ni_ethernet_address ni)) fs (map (\<lambda>d. (ip, mac, d)) q) \<and> list_all ef_is_ipv4 fs"
  using assms
proof (induction q arbitrary: ni)
  case Nil
  then have "(ni_datagramQueue ni)(ip \<mapsto> []) = ni_datagramQueue ni" by auto
  then show ?case by simp
next
  case (Cons d q)
  obtain bl where bl: "dg_serialize d = Inr bl" using Cons.prems(1) dg_wf_serialize by auto
  let ?f = "\<lparr>ef_header = \<lparr>eh_dst = mac, eh_src = ni_ethernet_address ni, eh_type = TYPE_IPv4\<rparr>, ef_payload = bl\<rparr>"
  let ?ni = "ni\<lparr>ni_frames_out := ni_frames_out ni @ [?f], ni_datagramQueue := (ni_datagramQueue ni)(ip \<mapsto> q)\<rparr>"
  have q: "list_all dg_wf q" "ni_datagramQueue ?ni ip = Some q" using Cons.prems(1) by simp_all
  from Cons.IH [OF q] obtain fs where fs: "ni_flush ip mac q ?ni =
      Inr (?ni\<lparr>ni_frames_out := ni_frames_out ?ni @ fs, ni_datagramQueue := (ni_datagramQueue ?ni)(ip \<mapsto> [])\<rparr>)"
    "list_all2 (ni_carries (ni_ethernet_address ?ni)) fs (map (\<lambda>d. (ip, mac, d)) q)" "list_all ef_is_ipv4 fs"
    by blast
  have eq: "ni_flush ip mac (d # q) ni = ni_flush ip mac q ?ni" by (simp add: bl ni_push_frame_def)
  have "ni_flush ip mac (d # q) ni =
      Inr (ni\<lparr>ni_frames_out := ni_frames_out ni @ ?f # fs, ni_datagramQueue := (ni_datagramQueue ni)(ip \<mapsto> [])\<rparr>)"
    unfolding eq fs(1) by simp
  moreover have "list_all2 (ni_carries (ni_ethernet_address ni)) (?f # fs) (map (\<lambda>d. (ip, mac, d)) (d # q))"
    using fs(2) bl by simp
  moreover have "list_all ef_is_ipv4 (?f # fs)" using fs(3) by (simp add: ef_is_ipv4_def [of ?f])
  ultimately show ?case by blast
qed

text \<open>The frames that answer an ARP message: a reply to its sender if it asks for the address \<open>my\<close>, none otherwise.\<close>

definition ni_answers :: "arp_message \<Rightarrow> u32 \<Rightarrow> network_interface \<Rightarrow> ethernet_frame list \<Rightarrow> bool" where
  "ni_answers a my ni gs \<longleftrightarrow>
     (if opcode a = OPCODE_REQUEST \<and> target_ip_address a = my then
        \<exists>s. arp_serialize (a\<lparr>opcode := OPCODE_REPLY, target_ethernet_address := sender_ethernet_address a,
              target_ip_address := sender_ip_address a, sender_ethernet_address := ni_ethernet_address ni,
              sender_ip_address := my\<rparr>) = Inr s \<and>
            gs = [\<lparr>ef_header = \<lparr>eh_dst = sender_ethernet_address a, eh_src = ni_ethernet_address ni, eh_type = TYPE_ARP\<rparr>,
                   ef_payload = buffer_list_of s\<rparr>]
      else gs = [])"

lemma ni_reply_ok:
  assumes "addr_ipv4_numeric (ni_ip_address ni) = Inr my" and "arp_supported a"
  shows "\<exists>fs. ni_reply a ni = Inr (ni\<lparr>ni_frames_out := ni_frames_out ni @ fs\<rparr>) \<and> list_all (\<lambda>f. \<not> ef_is_ipv4 f) fs \<and>
    ni_answers a my ni fs"
proof (cases "opcode a = OPCODE_REQUEST \<and> target_ip_address a = my")
  case True
  let ?a = "a\<lparr>opcode := OPCODE_REPLY, target_ethernet_address := sender_ethernet_address a,
    target_ip_address := sender_ip_address a, sender_ethernet_address := ni_ethernet_address ni, sender_ip_address := my\<rparr>"
  obtain s where s: "arp_serialize ?a = Inr s"
    using assms(2) by (simp add: arp_serialize_def arp_supported_def Let_def)
  let ?f = "\<lparr>ef_header = \<lparr>eh_dst = sender_ethernet_address a, eh_src = ni_ethernet_address ni, eh_type = TYPE_ARP\<rparr>,
    ef_payload = buffer_list_of s\<rparr>"
  have "ni_reply a ni = Inr (ni\<lparr>ni_frames_out := ni_frames_out ni @ [?f]\<rparr>)"
    using True assms(1) s by (simp add: ni_reply_def Let_def ni_push_frame_def)
  moreover have "ni_answers a my ni [?f]" using True s by (auto simp: ni_answers_def)
  ultimately show ?thesis by (intro exI [of _ "[?f]"]) (simp add: ef_is_ipv4_def)
next
  case False
  then show ?thesis using assms(1) by (intro exI [of _ "[]"]) (auto simp: ni_reply_def ni_answers_def)
qed

lemma ni_tick_simps [simp]:
  "ni_ethernet_address (ni_tick ms ni) = ni_ethernet_address ni" "ni_ip_address (ni_tick ms ni) = ni_ip_address ni"
  "ni_frames_out (ni_tick ms ni) = ni_frames_out ni" "ni_datagramQueue (ni_tick ms ni) = ni_datagramQueue ni"
  by (simp_all add: ni_tick_def)

lemma ni_tick_cache: "ni_cacheMap (ni_tick ms ni) ip = Some (mac, t) \<Longrightarrow> \<exists>t'. ni_cacheMap ni ip = Some (mac, t')"
  by (auto simp: ni_tick_def split: option.splits if_splits)

lemma arp_parse_supported: "arp_parse b a0 = Inr (NoError, a) \<Longrightarrow> arp_supported a"
  by (auto simp: arp_parse_def Let_def bindE_eq_Inr_iff arp_supported_def split: if_splits)

subsection \<open>The invariant of a history\<close>

text \<open>
  \<open>nh_fifo E h\<close>: the frames with datagrams that ever left the interface are those of \<open>E\<close>; for
  every next hop, what was sent to it is what has left for it, in this order, and then what
  waits; every frame went to an address learned for its next hop; and nothing waits for a next
  hop whose address is known.
\<close>

definition nh_frames :: "ni_history \<Rightarrow> ethernet_frame list" where
  "nh_frames h = nh_log h @ ni_frames_out (nh_ni h)"

definition nh_to :: "u32 \<Rightarrow> (u32 \<times> 'a) list \<Rightarrow> 'a list" where
  "nh_to ip xs = map snd (filter (\<lambda>x. fst x = ip) xs)"

lemma nh_to_simps [simp]:
  "nh_to ip [] = []" "nh_to ip ((ip', x) # xs) = (if ip' = ip then x # nh_to ip xs else nh_to ip xs)"
  "nh_to ip (xs @ ys) = nh_to ip xs @ nh_to ip ys" "nh_to ip (map (\<lambda>d. (ip', f d)) q) = (if ip' = ip then map f q else [])"
  by (auto simp: nh_to_def filter_map comp_def)

type_synonym emission = "u32 \<times> ethernet_address \<times> ipv4_datagram"

definition nh_fifo :: "emission list \<Rightarrow> ni_history \<Rightarrow> bool" where
  "nh_fifo E h \<longleftrightarrow>
     list_all2 (ni_carries (ni_ethernet_address (nh_ni h))) (filter ef_is_ipv4 (nh_frames h)) E \<and>
     (\<forall>ip. nh_to ip (nh_sent h) = map snd (nh_to ip E) @ ni_pending ip (nh_ni h)) \<and>
     (\<forall>(ip, mac, d) \<in> set E. (ip, mac) \<in> set (nh_learned h)) \<and>
     (\<forall>ip mac t. ni_cacheMap (nh_ni h) ip = Some (mac, t) \<longrightarrow>
        (ip, mac) \<in> set (nh_learned h) \<and> ni_pending ip (nh_ni h) = []) \<and>
     (\<forall>ip. list_all dg_wf (ni_pending ip (nh_ni h)))"

definition nh_spaced :: "ni_history \<Rightarrow> bool" where
  "nh_spaced h \<longleftrightarrow>
     sorted_wrt (\<lambda>(ip, t) (ip', t'). ip = ip' \<longrightarrow> t + 5000 \<le> t') (nh_requests h) \<and>
     (\<forall>(ip, t) \<in> set (nh_requests h).
        t + 5000 \<le> nh_now h + (case ni_arpRequests (nh_ni h) ip of None \<Rightarrow> 0 | Some r \<Rightarrow> unat r)) \<and>
     (\<forall>ip. ni_pending ip (nh_ni h) \<noteq> [] \<or> ni_arpRequests (nh_ni h) ip \<noteq> None \<longrightarrow> ip \<in> fst ` set (nh_requests h))"

fun nh_op_ok :: "ni_op \<Rightarrow> bool" where
  "nh_op_ok (Ni_send_datagram d next_hop) \<longleftrightarrow>
     dg_wf d \<and> (case addr_ipv4_numeric next_hop of Inl _ \<Rightarrow> False | Inr _ \<Rightarrow> True)"
| "nh_op_ok _ \<longleftrightarrow> True"

lemma nh_fifo_init: "nh_fifo [] (nh_init eth ip)"
  by (simp add: nh_fifo_def nh_init_def ni_init_def nh_frames_def ni_pending_def)

lemma nh_spaced_init: "nh_spaced (nh_init eth ip)"
  by (simp add: nh_spaced_def nh_init_def ni_init_def ni_pending_def)

lemma ni_pending_upd: "ni_pending ip (ni\<lparr>ni_datagramQueue := (ni_datagramQueue ni)(ip' \<mapsto> q)\<rparr>) =
    (if ip = ip' then q else ni_pending ip ni)"
  by (simp add: ni_pending_def)

lemma ni_pending_frame [simp]:
  "ni_pending ip (ni_push_frame dst type bl ni) = ni_pending ip ni"
  "ni_pending ip (ni\<lparr>ni_frames_out := fs\<rparr>) = ni_pending ip ni"
  "ni_pending ip (ni\<lparr>ni_arpRequests := r\<rparr>) = ni_pending ip ni"
  "ni_pending ip (ni\<lparr>ni_cacheMap := c\<rparr>) = ni_pending ip ni"
  "ni_pending ip (ni_tick ms ni) = ni_pending ip ni"
  by (simp_all add: ni_pending_def)

text \<open>Sending.\<close>

lemma ni_send_cached:
  assumes "addr_ipv4_numeric next_hop = Inr ip" and "ni_cacheMap ni ip = Some (mac, t)" and "dg_serialize d = Inr bl"
  shows "ni_send_datagram d next_hop ni = Inr (ni_push_frame mac TYPE_IPv4 bl ni)"
  using assms by (simp add: ni_send_datagram_def)

lemma ni_send_unknown:
  assumes "addr_ipv4_numeric next_hop = Inr ip" and "ni_cacheMap ni ip = None"
    and "addr_ipv4_numeric (ni_ip_address ni) = Inr my"
  shows "\<exists>fs. ni_send_datagram d next_hop ni =
      Inr (ni\<lparr>ni_frames_out := ni_frames_out ni @ fs,
              ni_arpRequests := (if fs = [] then ni_arpRequests ni else (ni_arpRequests ni)(ip \<mapsto> 5000)),
              ni_datagramQueue := (ni_datagramQueue ni)(ip \<mapsto> ni_pending ip ni @ [d])\<rparr>) \<and>
    list_all (\<lambda>f. eh_type (ef_header f) = TYPE_ARP) fs \<and> (fs = [] \<longleftrightarrow> ni_arpRequests ni ip \<noteq> None)"
proof (cases "ni_arpRequests ni ip = None")
  case True
  from ni_request_ok [OF assms(3), of ip] obtain bl where bl: "ni_request ip ni =
    Inr ((ni_push_frame ETHERNET_BROADCAST TYPE_ARP bl ni)\<lparr>ni_arpRequests := (ni_arpRequests ni)(ip \<mapsto> 5000)\<rparr>)"
    by blast
  let ?f = "\<lparr>ef_header = \<lparr>eh_dst = ETHERNET_BROADCAST, eh_src = ni_ethernet_address ni, eh_type = TYPE_ARP\<rparr>, ef_payload = bl\<rparr>"
  show ?thesis
    using True assms bl by (intro exI [of _ "[?f]"]) (simp add: ni_send_datagram_def ni_push_frame_def ni_pending_def)
next
  case False
  with assms show ?thesis by (intro exI [of _ "[]"]) (auto simp: ni_send_datagram_def)
qed

text \<open>Receiving: nothing changes, or an address is learned, what waited for it leaves, and an answer may follow.\<close>

lemma ni_recv_other:
  assumes "ni_teaches f ni = None"
  shows "\<exists>got. ni_recv_frame f ni = Inr (got, ni)"
proof -
  let ?b = "buffer_of (buffer_list_concatenate (ef_payload f))"
  obtain r d where d: "dg_parse ?b dg_default = Inr (r, d)" using dg_parse_total [of ?b dg_default] by auto
  obtain r' a where a: "arp_parse ?b arp_default = Inr (r', a)" using arp_parse_total [of ?b arp_default] by auto
  from assms a have "r' = NoError \<Longrightarrow> eh_dst (ef_header f) \<noteq> ETHERNET_BROADCAST \<and>
      eh_dst (ef_header f) \<noteq> ni_ethernet_address ni \<or> eh_type (ef_header f) \<noteq> TYPE_ARP"
    by (auto simp: ni_teaches_def split: if_splits)
  then show ?thesis using d a by (auto simp: ni_recv_frame_def)
qed

lemma ni_learn_ok:
  assumes wf: "list_all dg_wf (ni_pending (sender_ip_address a) ni)"
  defines "ip \<equiv> sender_ip_address a" and "mac \<equiv> sender_ethernet_address a"
  shows "\<exists>ni' fs. ni_learn a ni = Inr ni' \<and> ni_frames_out ni' = ni_frames_out ni @ fs \<and>
    ni_cacheMap ni' = (ni_cacheMap ni)(ip \<mapsto> (mac, 30000)) \<and> ni_arpRequests ni' = ni_arpRequests ni \<and>
    ni_ethernet_address ni' = ni_ethernet_address ni \<and> ni_ip_address ni' = ni_ip_address ni \<and>
    (\<forall>ip'. ni_pending ip' ni' = (if ip' = ip then [] else ni_pending ip' ni)) \<and>
    list_all2 (ni_carries (ni_ethernet_address ni)) fs (map (\<lambda>d. (ip, mac, d)) (ni_pending ip ni)) \<and> list_all ef_is_ipv4 fs"
proof (cases "ni_datagramQueue ni ip")
  case None
  then show ?thesis
    by (intro exI [of _ "ni\<lparr>ni_cacheMap := (ni_cacheMap ni)(ip \<mapsto> (mac, 30000))\<rparr>"] exI [of _ "[]"])
      (auto simp: ni_learn_def ip_def mac_def ni_pending_def)
next
  case (Some q)
  let ?ni = "ni\<lparr>ni_cacheMap := (ni_cacheMap ni)(ip \<mapsto> (mac, 30000))\<rparr>"
  have q: "ni_pending ip ni = q" "ni_datagramQueue ?ni ip = Some q" using Some by (simp_all add: ni_pending_def)
  with wf have "list_all dg_wf q" by (simp add: ip_def)
  from ni_flush_ok [OF this q(2), of mac] obtain fs where fs: "ni_flush ip mac q ?ni =
      Inr (?ni\<lparr>ni_frames_out := ni_frames_out ?ni @ fs, ni_datagramQueue := (ni_datagramQueue ?ni)(ip \<mapsto> [])\<rparr>)"
    "list_all2 (ni_carries (ni_ethernet_address ?ni)) fs (map (\<lambda>d. (ip, mac, d)) q)" "list_all ef_is_ipv4 fs"
    by blast
  show ?thesis
    by (rule exI [of _ "?ni\<lparr>ni_frames_out := ni_frames_out ?ni @ fs, ni_datagramQueue := (ni_datagramQueue ?ni)(ip \<mapsto> [])\<rparr>"],
        rule exI [of _ fs])
      (use fs q Some in \<open>simp add: ni_learn_def ip_def mac_def ni_pending_def\<close>)
qed

lemma ni_teaches_iff:
  "ni_teaches f ni = Some a \<longleftrightarrow>
     arp_parse (buffer_of (buffer_list_concatenate (ef_payload f))) arp_default = Inr (NoError, a) \<and>
     eh_type (ef_header f) = TYPE_ARP \<and>
     (eh_dst (ef_header f) = ETHERNET_BROADCAST \<or> eh_dst (ef_header f) = ni_ethernet_address ni)"
  by (auto simp: ni_teaches_def split: if_splits sum.splits prod.splits parse_result.splits)

lemma ni_recv_arp:
  assumes teach: "ni_teaches f ni = Some a" and my: "addr_ipv4_numeric (ni_ip_address ni) = Inr my"
    and wf: "list_all dg_wf (ni_pending (sender_ip_address a) ni)"
  defines "ip \<equiv> sender_ip_address a" and "mac \<equiv> sender_ethernet_address a"
  shows "\<exists>fs gs ni'. ni_recv_frame f ni = Inr (None, ni') \<and>
    ni_frames_out ni' = ni_frames_out ni @ fs @ gs \<and> ni_cacheMap ni' = (ni_cacheMap ni)(ip \<mapsto> (mac, 30000)) \<and>
    ni_arpRequests ni' = ni_arpRequests ni \<and> ni_ethernet_address ni' = ni_ethernet_address ni \<and>
    ni_ip_address ni' = ni_ip_address ni \<and>
    (\<forall>ip'. ni_pending ip' ni' = (if ip' = ip then [] else ni_pending ip' ni)) \<and>
    list_all2 (ni_carries (ni_ethernet_address ni)) fs (map (\<lambda>d. (ip, mac, d)) (ni_pending ip ni)) \<and>
    list_all ef_is_ipv4 fs \<and> list_all (\<lambda>f. \<not> ef_is_ipv4 f) gs \<and> ni_answers a my ni gs"
proof -
  note a = teach [unfolded ni_teaches_iff]
  obtain ni1 fs where ni1: "ni_learn a ni = Inr ni1" "ni_frames_out ni1 = ni_frames_out ni @ fs"
    "ni_cacheMap ni1 = (ni_cacheMap ni)(ip \<mapsto> (mac, 30000))" "ni_arpRequests ni1 = ni_arpRequests ni"
    "ni_ethernet_address ni1 = ni_ethernet_address ni" "ni_ip_address ni1 = ni_ip_address ni"
    "\<forall>ip'. ni_pending ip' ni1 = (if ip' = ip then [] else ni_pending ip' ni)"
    "list_all2 (ni_carries (ni_ethernet_address ni)) fs (map (\<lambda>d. (ip, mac, d)) (ni_pending ip ni))" "list_all ef_is_ipv4 fs"
    unfolding ip_def mac_def using ni_learn_ok [OF wf] by blast
  from ni_reply_ok [of ni1 my a] ni1(6) my arp_parse_supported a obtain gs where
    gs: "ni_reply a ni1 = Inr (ni1\<lparr>ni_frames_out := ni_frames_out ni1 @ gs\<rparr>)" "list_all (\<lambda>f. \<not> ef_is_ipv4 f) gs"
      "ni_answers a my ni1 gs"
    by metis
  have "ni_recv_frame f ni = Inr (None, ni1\<lparr>ni_frames_out := ni_frames_out ni1 @ gs\<rparr>)"
    using a ni1(1) gs(1) by (auto simp: ni_recv_frame_def)
  moreover have "ni_answers a my ni gs" using gs(3) ni1(5) by (simp only: ni_answers_def)
  ultimately show ?thesis using ni1 gs(2)
    by (intro exI [of _ fs] exI [of _ gs] exI [of _ "ni1\<lparr>ni_frames_out := ni_frames_out ni1 @ gs\<rparr>"]) simp
qed

subsection \<open>Steps\<close>

lemma filter_ipv4 [simp]:
  "list_all ef_is_ipv4 fs \<Longrightarrow> filter ef_is_ipv4 fs = fs"
  "list_all (\<lambda>f. \<not> ef_is_ipv4 f) fs \<Longrightarrow> filter ef_is_ipv4 fs = []"
  "list_all (\<lambda>f. eh_type (ef_header f) = TYPE_ARP) fs \<Longrightarrow> filter ef_is_ipv4 fs = []"
  by (auto simp: list_all_iff filter_empty_conv ef_is_ipv4_def)

lemma list_all2_app3:
  "list_all2 P (xs @ ys) us \<Longrightarrow> list_all2 P zs vs \<Longrightarrow> list_all2 P (xs @ ys @ zs) (us @ vs)"
  using list_all2_appendI [of P "xs @ ys" us zs vs] by simp

definition nh_ok :: "emission list \<Rightarrow> ni_history \<Rightarrow> bool" where
  "nh_ok E h \<longleftrightarrow> nh_fifo E h \<and> nh_spaced h \<and>
     (\<exists>my. addr_ipv4_numeric (ni_ip_address (nh_ni h)) = Inr my)"

lemma nh_ok_request:
  "nh_ok E h \<Longrightarrow> (ip, t) \<in> set (nh_requests h) \<Longrightarrow>
   t + 5000 \<le> nh_now h + (case ni_arpRequests (nh_ni h) ip of None \<Rightarrow> 0 | Some r \<Rightarrow> unat r)"
  unfolding nh_ok_def nh_spaced_def by blast

lemma nh_ok_init: "addr_ipv4_numeric ip = Inr my \<Longrightarrow> nh_ok [] (nh_init eth ip)"
  by (simp add: nh_ok_def nh_fifo_init nh_spaced_init) (simp add: nh_init_def ni_init_def)

lemma nh_send_cached_ok:
  assumes ok: "nh_ok E h" and hop: "addr_ipv4_numeric next_hop = Inr ip" and wf: "dg_wf d"
    and known: "ni_cacheMap (nh_ni h) ip = Some (mac, t)"
  shows "\<exists>h'. nh_step (Ni_send_datagram d next_hop) h = Inr h' \<and> nh_ok (E @ [(ip, mac, d)]) h'"
proof -
  from dg_wf_serialize [OF wf] obtain bl where bl: "dg_serialize d = Inr bl" by blast
  let ?ni = "ni_push_frame mac TYPE_IPv4 bl (nh_ni h)"
  have fs: "ni_frames_out ?ni = ni_frames_out (nh_ni h) @
      [\<lparr>ef_header = \<lparr>eh_dst = mac, eh_src = ni_ethernet_address (nh_ni h), eh_type = TYPE_IPv4\<rparr>, ef_payload = bl\<rparr>]"
    by (simp add: ni_push_frame_def)
  have step: "nh_step (Ni_send_datagram d next_hop) h =
      Inr (h\<lparr>nh_sent := nh_sent h @ [(ip, d)], nh_requests := nh_requests h @ [], nh_ni := ?ni\<rparr>)"
    by (simp add: hop ni_send_cached [OF hop known bl] fs Let_def)
  have "nh_fifo (E @ [(ip, mac, d)]) (h\<lparr>nh_sent := nh_sent h @ [(ip, d)], nh_ni := ?ni\<rparr>)"
    using ok known bl unfolding nh_ok_def nh_fifo_def nh_frames_def
    by (auto simp: fs ef_is_ipv4_def intro!: list_all2_app3)
  moreover have "nh_spaced (h\<lparr>nh_sent := nh_sent h @ [(ip, d)], nh_ni := ?ni\<rparr>)"
    using ok by (simp add: nh_ok_def nh_spaced_def)
  ultimately show ?thesis using ok step by (simp add: nh_ok_def)
qed

lemma nh_send_unknown_ok:
  assumes ok: "nh_ok E h" and hop: "addr_ipv4_numeric next_hop = Inr ip" and wf: "dg_wf d"
    and unknown: "ni_cacheMap (nh_ni h) ip = None"
  shows "\<exists>h'. nh_step (Ni_send_datagram d next_hop) h = Inr h' \<and> nh_ok E h'"
proof -
  let ?ni = "nh_ni h"
  from ok obtain my where my: "addr_ipv4_numeric (ni_ip_address ?ni) = Inr my" by (auto simp: nh_ok_def)
  from ni_send_unknown [OF hop unknown my] obtain fs where
    send: "ni_send_datagram d next_hop ?ni = Inr (?ni\<lparr>ni_frames_out := ni_frames_out ?ni @ fs,
              ni_arpRequests := (if fs = [] then ni_arpRequests ?ni else (ni_arpRequests ?ni)(ip \<mapsto> 5000)),
              ni_datagramQueue := (ni_datagramQueue ?ni)(ip \<mapsto> ni_pending ip ?ni @ [d])\<rparr>)"
    and arp: "list_all (\<lambda>f. eh_type (ef_header f) = TYPE_ARP) fs" and none: "fs = [] \<longleftrightarrow> ni_arpRequests ?ni ip \<noteq> None"
    by blast
  define ni' where "ni' = ?ni\<lparr>ni_frames_out := ni_frames_out ?ni @ fs,
              ni_arpRequests := (if fs = [] then ni_arpRequests ?ni else (ni_arpRequests ?ni)(ip \<mapsto> 5000)),
              ni_datagramQueue := (ni_datagramQueue ?ni)(ip \<mapsto> ni_pending ip ?ni @ [d])\<rparr>"
  have asked: "list_ex (\<lambda>f. eh_type (ef_header f) = TYPE_ARP) fs \<longleftrightarrow> fs \<noteq> []"
    using arp by (cases fs) auto
  have pend: "ni_pending ip' ni' = (if ip' = ip then ni_pending ip ?ni @ [d] else ni_pending ip' ?ni)" for ip'
    by (simp add: ni'_def ni_pending_def)
  let ?h = "h\<lparr>nh_sent := nh_sent h @ [(ip, d)],
    nh_requests := nh_requests h @ (if fs \<noteq> [] then [(ip, nh_now h)] else []), nh_ni := ni'\<rparr>"
  have step: "nh_step (Ni_send_datagram d next_hop) h = Inr ?h"
    using send asked by (simp add: hop Let_def ni'_def)
  have "nh_fifo E ?h"
    using ok unknown wf arp pend unfolding nh_ok_def nh_fifo_def nh_frames_def by (auto simp: ni'_def)
  moreover have "nh_spaced ?h"
  proof (cases "fs = []")
    case True
    with ok none pend show ?thesis unfolding nh_ok_def nh_spaced_def by (auto simp: ni'_def)
  next
    case False
    have old: "t + 5000 \<le> nh_now h" if "(ip, t) \<in> set (nh_requests h)" for t
      using nh_ok_request [OF ok that] none False by simp
    have "sorted_wrt (\<lambda>(ip, t) (ip', t'). ip = ip' \<longrightarrow> t + 5000 \<le> t') (nh_requests h @ [(ip, nh_now h)])"
      using ok old by (auto simp: nh_ok_def nh_spaced_def sorted_wrt_append)
    moreover have "t + 5000 \<le> nh_now h + (case ni_arpRequests ni' ip' of None \<Rightarrow> 0 | Some r \<Rightarrow> unat r)"
      if "(ip', t) \<in> set (nh_requests h @ [(ip, nh_now h)])" for ip' t
      using that old [of t] nh_ok_request [OF ok, of ip' t] False by (cases "ip' = ip") (auto simp: ni'_def)
    ultimately show ?thesis
      using ok pend False unfolding nh_ok_def nh_spaced_def by (auto simp: ni'_def)
  qed
  ultimately show ?thesis using step my by (auto simp: nh_ok_def ni'_def)
qed

lemma nh_recv_ok:
  assumes ok: "nh_ok E h"
  shows "\<exists>h' E'. nh_step (Ni_recv_frame f) h = Inr h' \<and> nh_ok E' h'"
proof (cases "ni_teaches f (nh_ni h)")
  case None
  from ni_recv_other [OF None] obtain got where got: "ni_recv_frame f (nh_ni h) = Inr (got, nh_ni h)" by blast
  have "nh_ok E (h\<lparr>nh_got := nh_got h @ g\<rparr>)" for g
    using ok by (simp add: nh_ok_def nh_fifo_def nh_spaced_def nh_frames_def)
  with None got show ?thesis by auto
next
  case (Some a)
  let ?ip = "sender_ip_address a" and ?mac = "sender_ethernet_address a"
  from ok obtain my where my: "addr_ipv4_numeric (ni_ip_address (nh_ni h)) = Inr my" by (auto simp: nh_ok_def)
  have wf: "list_all dg_wf (ni_pending ?ip (nh_ni h))" using ok by (simp add: nh_ok_def nh_fifo_def)
  from ni_recv_arp [OF Some my wf] obtain fs gs ni' where
    recv: "ni_recv_frame f (nh_ni h) = Inr (None, ni')" and ni': "ni_frames_out ni' = ni_frames_out (nh_ni h) @ fs @ gs"
      "ni_cacheMap ni' = (ni_cacheMap (nh_ni h))(?ip \<mapsto> (?mac, 30000))" "ni_arpRequests ni' = ni_arpRequests (nh_ni h)"
      "ni_ethernet_address ni' = ni_ethernet_address (nh_ni h)" "ni_ip_address ni' = ni_ip_address (nh_ni h)"
      "\<forall>ip'. ni_pending ip' ni' = (if ip' = ?ip then [] else ni_pending ip' (nh_ni h))"
    and fs: "list_all2 (ni_carries (ni_ethernet_address (nh_ni h))) fs (map (\<lambda>d. (?ip, ?mac, d)) (ni_pending ?ip (nh_ni h)))"
      "list_all ef_is_ipv4 fs" "list_all (\<lambda>f. \<not> ef_is_ipv4 f) gs"
    by blast
  let ?E = "E @ map (\<lambda>d. (?ip, ?mac, d)) (ni_pending ?ip (nh_ni h))"
  let ?h = "h\<lparr>nh_learned := nh_learned h @ [(?ip, ?mac)], nh_got := nh_got h @ [], nh_ni := ni'\<rparr>"
  have step: "nh_step (Ni_recv_frame f) h = Inr ?h" by (simp add: recv Some)
  have "nh_fifo ?E ?h"
    using ok fs unfolding nh_ok_def nh_fifo_def nh_frames_def
    by (auto simp: ni' comp_def intro!: list_all2_app3)
  moreover have "nh_spaced ?h"
    using ok unfolding nh_ok_def nh_spaced_def by (auto simp: ni' split: if_splits)
  ultimately show ?thesis using step my ni'(5) by (auto simp: nh_ok_def)
qed

lemma nh_tick_ok:
  assumes ok: "nh_ok E h"
  shows "nh_ok E (h\<lparr>nh_now := nh_now h + unat ms, nh_ni := ni_tick ms (nh_ni h)\<rparr>)"
proof -
  let ?h = "h\<lparr>nh_now := nh_now h + unat ms, nh_ni := ni_tick ms (nh_ni h)\<rparr>"
  let ?left = "\<lambda>ni ip. case ni_arpRequests ni ip of None \<Rightarrow> 0 | Some r \<Rightarrow> unat r"
  have "nh_fifo E ?h"
    using ok ni_tick_cache [of ms "nh_ni h"] unfolding nh_ok_def nh_fifo_def nh_frames_def by (fastforce)
  moreover have left: "?left (nh_ni h) ip \<le> unat ms + ?left (ni_tick ms (nh_ni h)) ip" for ip
    by (auto simp: ni_tick_def word_less_nat_alt word_le_nat_alt unat_sub split: option.split)
  have "nh_spaced ?h"
    unfolding nh_spaced_def
  proof (intro conjI ballI allI impI)
    show "sorted_wrt (\<lambda>(ip, t) (ip', t'). ip = ip' \<longrightarrow> t + 5000 \<le> t') (nh_requests ?h)"
      using ok by (simp add: nh_ok_def nh_spaced_def)
    fix x assume "x \<in> set (nh_requests ?h)"
    then show "case x of (ip, t) \<Rightarrow> t + 5000 \<le> nh_now ?h + ?left (nh_ni ?h) ip"
      using nh_ok_request [OF ok, of "fst x" "snd x"] left [of "fst x"] by (simp add: case_prod_beta)
  next
    fix ip assume "ni_pending ip (nh_ni ?h) \<noteq> [] \<or> ni_arpRequests (nh_ni ?h) ip \<noteq> None"
    then have "ni_pending ip (nh_ni h) \<noteq> [] \<or> ni_arpRequests (nh_ni h) ip \<noteq> None"
      by (auto simp: ni_tick_def split: option.splits)
    then show "ip \<in> fst ` set (nh_requests ?h)" using ok by (simp add: nh_ok_def nh_spaced_def)
  qed
  ultimately show ?thesis using ok by (simp add: nh_ok_def)
qed

lemma nh_pop_ok:
  assumes "nh_ok E h"
  shows "\<exists>h'. nh_step Ni_pop h = Inr h' \<and> nh_ok E h'"
  using assms by (cases "ni_frames_out (nh_ni h)") (auto simp: nh_ok_def nh_fifo_def nh_spaced_def nh_frames_def)

lemma nh_run_ok:
  assumes "nh_ok E h" and "list_all nh_op_ok ops"
  shows "\<exists>h' E'. nh_run ops h = Inr h' \<and> nh_ok E' h'"
  using assms
proof (induction ops arbitrary: E h)
  case (Cons x ops)
  have "\<exists>h' E'. nh_step x h = Inr h' \<and> nh_ok E' h'"
  proof (cases x)
    case (Ni_send_datagram d next_hop)
    then obtain ip where ip: "addr_ipv4_numeric next_hop = Inr ip" and wf: "dg_wf d"
      using Cons.prems(2) by (auto split: sum.splits)
    with nh_send_cached_ok [OF Cons.prems(1) ip wf] nh_send_unknown_ok [OF Cons.prems(1) ip wf] Ni_send_datagram
    show ?thesis by (cases "ni_cacheMap (nh_ni h) ip") (blast, fastforce)
  next
    case (Ni_recv_frame f)
    then show ?thesis using nh_recv_ok [OF Cons.prems(1), of f] by blast
  next
    case (Ni_tick ms)
    then show ?thesis using nh_tick_ok [OF Cons.prems(1), of ms] by auto
  next
    case Ni_pop
    then show ?thesis using nh_pop_ok [OF Cons.prems(1)] by blast
  qed
  with Cons.IH Cons.prems(2) show ?case by fastforce
qed auto

subsection \<open>Resolving an address\<close>

text \<open>The request \<^verbatim>\<open>send_datagram\<close> broadcasts for a next hop, as a message.\<close>

definition ni_question :: "network_interface \<Rightarrow> u32 \<Rightarrow> u32 \<Rightarrow> arp_message" where
  "ni_question ni my ip = arp_default\<lparr>opcode := OPCODE_REQUEST, sender_ethernet_address := ni_ethernet_address ni,
     sender_ip_address := my, target_ip_address := ip\<rparr>"

lemma ni_question_wf: "length (ni_ethernet_address ni) = 6 \<Longrightarrow> arp_wf (ni_question ni my ip)"
  by (simp add: arp_wf_def ni_question_def arp_default_def)

lemma ni_send_asks:
  assumes "addr_ipv4_numeric next_hop = Inr ip" and "ni_cacheMap ni ip = None" and "ni_arpRequests ni ip = None"
    and "addr_ipv4_numeric (ni_ip_address ni) = Inr my"
  shows "\<exists>s. arp_serialize (ni_question ni my ip) = Inr s \<and> ni_send_datagram d next_hop ni =
    Inr (ni\<lparr>ni_frames_out := ni_frames_out ni @
              [\<lparr>ef_header = \<lparr>eh_dst = ETHERNET_BROADCAST, eh_src = ni_ethernet_address ni, eh_type = TYPE_ARP\<rparr>,
                ef_payload = buffer_list_of s\<rparr>],
            ni_arpRequests := (ni_arpRequests ni)(ip \<mapsto> 5000),
            ni_datagramQueue := (ni_datagramQueue ni)(ip \<mapsto> ni_pending ip ni @ [d])\<rparr>)"
  using arp_request_serialized [where eth = "ni_ethernet_address ni" and ip = my and ip' = ip] assms
  by (auto simp: ni_send_datagram_def ni_request_def Let_def ni_question_def ni_push_frame_def ni_pending_def)

text \<open>\<open>ni_tells a f mac\<close>: the frame \<open>f\<close> takes the ARP message \<open>a\<close> to the address \<open>mac\<close>.\<close>

definition ni_tells :: "arp_message \<Rightarrow> ethernet_frame \<Rightarrow> ethernet_address \<Rightarrow> bool" where
  "ni_tells a f mac \<longleftrightarrow> eh_dst (ef_header f) = mac \<and> eh_type (ef_header f) = TYPE_ARP \<and> arp_wf a \<and>
     (\<exists>s. arp_serialize a = Inr s \<and> ef_payload f = buffer_list_of s)"

lemma ni_tells_teaches:
  "ni_tells a f mac \<Longrightarrow> mac = ETHERNET_BROADCAST \<or> mac = ni_ethernet_address ni \<Longrightarrow> ni_teaches f ni = Some a"
  by (auto simp: ni_tells_def ni_teaches_iff buffer_list_concatenate_eq arp_parse_at)

lemma ni_recv_question:
  assumes my: "addr_ipv4_numeric (ni_ip_address B) = Inr ip_B"
    and len: "length (ni_ethernet_address A) = 6" "length (ni_ethernet_address B) = 6"
    and wf: "list_all dg_wf (ni_pending ip_A B)"
    and s: "arp_serialize (ni_question A ip_A ip_B) = Inr s"
    and request: "request = \<lparr>ef_header = \<lparr>eh_dst = ETHERNET_BROADCAST, eh_src = ni_ethernet_address A,
      eh_type = TYPE_ARP\<rparr>, ef_payload = buffer_list_of s\<rparr>"
  shows "\<exists>fs b reply B1. ni_recv_frame request B = Inr (None, B1) \<and> ni_frames_out B1 = ni_frames_out B @ fs @ [reply] \<and>
    ni_cacheMap B1 ip_A = Some (ni_ethernet_address A, 30000) \<and> ni_ethernet_address B1 = ni_ethernet_address B \<and>
    length fs = length (ni_pending ip_A B) \<and> ni_tells b reply (ni_ethernet_address A) \<and> eh_wf (ef_header reply) \<and>
    sender_ip_address b = ip_B \<and> sender_ethernet_address b = ni_ethernet_address B \<and> opcode b = OPCODE_REPLY"
proof -
  let ?a = "ni_question A ip_A ip_B"
  have "ni_tells ?a request ETHERNET_BROADCAST" by (simp add: ni_tells_def request s ni_question_wf len(1))
  then have teach: "ni_teaches request B = Some ?a" by (rule ni_tells_teaches) simp
  have a: "sender_ip_address ?a = ip_A" "sender_ethernet_address ?a = ni_ethernet_address A" "opcode ?a = OPCODE_REQUEST"
    "target_ip_address ?a = ip_B" by (simp_all add: ni_question_def)
  from ni_recv_arp [OF teach my, unfolded a, OF wf] obtain fs gs B1 where
    r: "ni_recv_frame request B = Inr (None, B1)" "ni_frames_out B1 = ni_frames_out B @ fs @ gs"
      "ni_cacheMap B1 = (ni_cacheMap B)(ip_A \<mapsto> (ni_ethernet_address A, 30000))" "ni_ethernet_address B1 = ni_ethernet_address B"
      "list_all2 (ni_carries (ni_ethernet_address B)) fs (map (\<lambda>d. (ip_A, ni_ethernet_address A, d)) (ni_pending ip_A B))"
      "ni_answers ?a ip_B B gs"
    by blast
  then have B1: "ni_cacheMap B1 ip_A = Some (ni_ethernet_address A, 30000)" "length fs = length (ni_pending ip_A B)"
    by (auto dest: list_all2_lengthD)
  define b where "b = ?a\<lparr>opcode := OPCODE_REPLY, target_ethernet_address := ni_ethernet_address A,
    target_ip_address := ip_A, sender_ethernet_address := ni_ethernet_address B, sender_ip_address := ip_B\<rparr>"
  from r(6) a obtain s' where s': "arp_serialize b = Inr s'" and gs: "gs = [\<lparr>ef_header = \<lparr>eh_dst = ni_ethernet_address A,
      eh_src = ni_ethernet_address B, eh_type = TYPE_ARP\<rparr>, ef_payload = buffer_list_of s'\<rparr>]"
    by (auto simp: ni_answers_def b_def)
  have "ni_tells b (hd gs) (ni_ethernet_address A)" "eh_wf (ef_header (hd gs))"
    using len s' by (simp_all add: ni_tells_def gs b_def arp_wf_def eh_wf_def)
  moreover have "sender_ip_address b = ip_B" "sender_ethernet_address b = ni_ethernet_address B" "opcode b = OPCODE_REPLY"
    by (simp_all add: b_def)
  moreover have "ni_frames_out B1 = ni_frames_out B @ fs @ [hd gs]" by (simp add: r(2) gs)
  ultimately show ?thesis using B1 r(1,4) by blast
qed

lemma ni_recv_told:
  assumes "opcode b = OPCODE_REPLY" and my: "addr_ipv4_numeric (ni_ip_address ni) = Inr my"
    and tells: "ni_tells b reply (ni_ethernet_address ni)"
    and wf: "list_all dg_wf (ni_pending (sender_ip_address b) ni)"
  shows "\<exists>fs ni'. ni_recv_frame reply ni = Inr (None, ni') \<and> ni_frames_out ni' = ni_frames_out ni @ fs \<and>
    ni_cacheMap ni' (sender_ip_address b) = Some (sender_ethernet_address b, 30000) \<and>
    list_all2 (ni_carries (ni_ethernet_address ni)) fs
      (map (\<lambda>d. (sender_ip_address b, sender_ethernet_address b, d)) (ni_pending (sender_ip_address b) ni))"
proof -
  have "ni_teaches reply ni = Some b" by (rule ni_tells_teaches [OF tells]) simp
  from ni_recv_arp [OF this my wf] obtain fs gs ni' where r: "ni_recv_frame reply ni = Inr (None, ni')"
      "ni_frames_out ni' = ni_frames_out ni @ fs @ gs" "ni_answers b my ni gs"
      "ni_cacheMap ni' = (ni_cacheMap ni)(sender_ip_address b \<mapsto> (sender_ethernet_address b, 30000))"
      "list_all2 (ni_carries (ni_ethernet_address ni)) fs
        (map (\<lambda>d. (sender_ip_address b, sender_ethernet_address b, d)) (ni_pending (sender_ip_address b) ni))"
    by blast
  from r(3) assms(1) have "gs = []" by (simp add: ni_answers_def OPCODE_REPLY_def OPCODE_REQUEST_def)
  with r show ?thesis by (intro exI [of _ fs] exI [of _ ni']) simp
qed

lemma ni_flush_cache: "ni_flush ip mac q ni = Inr ni' \<Longrightarrow> ni_cacheMap ni' = ni_cacheMap ni"
  by (induction ip mac q ni rule: ni_flush.induct) (auto simp: Let_def bindE_eq_Inr_iff)

lemma ni_recv_carried:
  assumes "ni_carries src f (ip, ni_ethernet_address ni, d)" and "dg_wf d"
  shows "\<exists>c d'. ni_recv_frame f ni = Inr (Some d', ni) \<and> dg_header d' = (dg_header d)\<lparr>ip_cksum := c\<rparr> \<and>
    buffer_list_concatenate (dg_payload d') = buffer_list_concatenate (dg_payload d)"
proof -
  from assms have f: "ef_header f = \<lparr>eh_dst = ni_ethernet_address ni, eh_src = src, eh_type = TYPE_IPv4\<rparr>"
    and ser: "dg_serialize d = Inr (ef_payload f)" by simp_all
  from assms(2) dg_serialized [of d] ser obtain c where
    "\<forall>d0. \<exists>d'. dg_parse (buffer_of (buffer_list_concatenate (ef_payload f))) d0 = Inr (NoError, d') \<and>
      dg_header d' = (dg_header d)\<lparr>ip_cksum := c\<rparr> \<and>
      buffer_list_concatenate (dg_payload d') = buffer_list_concatenate (dg_payload d)"
    unfolding dg_wf_def by fastforce
  then obtain d' where "dg_parse (buffer_of (buffer_list_concatenate (ef_payload f))) dg_default = Inr (NoError, d')"
    "dg_header d' = (dg_header d)\<lparr>ip_cksum := c\<rparr>"
    "buffer_list_concatenate (dg_payload d') = buffer_list_concatenate (dg_payload d)" by blast
  then show ?thesis using f by (intro exI [of _ c] exI [of _ d']) (simp add: ni_recv_frame_def)
qed

subsection \<open>Properties\<close>

text \<open>
  C27. Datagrams leave an interface in order and exactly once. After any sequence of calls of
  \<^verbatim>\<open>send_datagram\<close> (with datagrams that can be serialized and IPv4 next hops),
  \<^verbatim>\<open>recv_frame\<close> with any frames, \<^verbatim>\<open>tick\<close> and pops of the outgoing queue, no call has thrown;
  the frames of type IPv4 that were ever pushed carry, for each next hop, exactly the datagrams
  sent to it so far, in this order, but for those still waiting in its queue; each went to an
  Ethernet address that an ARP message gave for the next hop; and nothing waits for a next hop
  whose address is in the cache.
\<close>

theorem interface_sends_in_order:
  assumes "addr_ipv4_numeric ip_address = Inr my" and "list_all nh_op_ok ops"
  shows "\<exists>h E. nh_run ops (nh_init ethernet_address ip_address) = Inr h \<and>
    list_all2 (ni_carries (ni_ethernet_address (nh_ni h))) (filter ef_is_ipv4 (nh_frames h)) E \<and>
    (\<forall>ip. nh_to ip (nh_sent h) = map snd (nh_to ip E) @ ni_pending ip (nh_ni h)) \<and>
    (\<forall>(ip, mac, d) \<in> set E. (ip, mac) \<in> set (nh_learned h)) \<and>
    (\<forall>ip mac t. ni_cacheMap (nh_ni h) ip = Some (mac, t) \<longrightarrow>
       (ip, mac) \<in> set (nh_learned h) \<and> ni_pending ip (nh_ni h) = [])"
proof -
  from nh_run_ok [OF nh_ok_init [OF assms(1)] assms(2)] obtain h E where
    "nh_run ops (nh_init ethernet_address ip_address) = Inr h" "nh_fifo E h"
    unfolding nh_ok_def by blast
  then show ?thesis unfolding nh_fifo_def by blast
qed

text \<open>
  C28. ARP requests for the same address are at least five seconds apart, and a datagram waits
  only for an address that was asked for: after any sequence of calls, the broadcast requests
  with the times at which they were made have this spacing, and every next hop with datagrams
  waiting has been asked for.
\<close>

theorem arp_requests_spaced:
  assumes "addr_ipv4_numeric ip_address = Inr my" and "list_all nh_op_ok ops"
  shows "\<exists>h. nh_run ops (nh_init ethernet_address ip_address) = Inr h \<and>
    sorted_wrt (\<lambda>(ip, t) (ip', t'). ip = ip' \<longrightarrow> t + 5000 \<le> t') (nh_requests h) \<and>
    (\<forall>ip. ni_pending ip (nh_ni h) \<noteq> [] \<longrightarrow> ip \<in> fst ` set (nh_requests h))"
proof -
  from nh_run_ok [OF nh_ok_init [OF assms(1)] assms(2)] obtain h where
    "nh_run ops (nh_init ethernet_address ip_address) = Inr h" "nh_spaced h"
    unfolding nh_ok_def by blast
  then show ?thesis unfolding nh_spaced_def by blast
qed

theorem interface_sends_in_order_witness:
  "let d = \<lparr>dg_header = ip_default\<lparr>ip_len := 22\<rparr>, dg_payload = [buffer_of [1, 2]]\<rparr>;
       ops = [Ni_send_datagram d (inet 9 0), Ni_tick 30, Ni_send_datagram d (inet 9 0), Ni_pop]
   in \<exists>h E. nh_run ops (nh_init (replicate 6 1) (inet 7 0)) = Inr h \<and>
    list_all2 (ni_carries (ni_ethernet_address (nh_ni h))) (filter ef_is_ipv4 (nh_frames h)) E \<and>
    (\<forall>ip. nh_to ip (nh_sent h) = map snd (nh_to ip E) @ ni_pending ip (nh_ni h)) \<and>
    (\<forall>(ip, mac, d) \<in> set E. (ip, mac) \<in> set (nh_learned h)) \<and>
    (\<forall>ip mac t. ni_cacheMap (nh_ni h) ip = Some (mac, t) \<longrightarrow>
       (ip, mac) \<in> set (nh_learned h) \<and> ni_pending ip (nh_ni h) = [])"
  unfolding Let_def
  by (rule interface_sends_in_order) (simp_all add: dg_wf_def ip_wf_def ip_default_def buffer_list_concatenate_eq)

theorem arp_requests_spaced_witness:
  "let d = \<lparr>dg_header = ip_default\<lparr>ip_len := 22\<rparr>, dg_payload = [buffer_of [1, 2]]\<rparr>;
       ops = [Ni_send_datagram d (inet 9 0), Ni_tick 5000, Ni_send_datagram d (inet 9 0)]
   in \<exists>h. nh_run ops (nh_init (replicate 6 1) (inet 7 0)) = Inr h \<and>
    sorted_wrt (\<lambda>(ip, t) (ip', t'). ip = ip' \<longrightarrow> t + 5000 \<le> t') (nh_requests h) \<and>
    (\<forall>ip. ni_pending ip (nh_ni h) \<noteq> [] \<longrightarrow> ip \<in> fst ` set (nh_requests h))"
  unfolding Let_def
  by (rule arp_requests_spaced) (simp_all add: dg_wf_def ip_wf_def ip_default_def buffer_list_concatenate_eq)

text \<open>
  C26. An address is resolved and the datagram arrives. When interface \<open>A\<close> sends a datagram to
  the address of interface \<open>B\<close>, does not know its Ethernet address and has not asked for it in
  the last five seconds, it broadcasts one request; \<open>B\<close>, on receiving it, learns the address of
  \<open>A\<close> and answers; \<open>A\<close>, on receiving the answer, sends whatever waited for \<open>B\<close> and then the
  datagram; and \<open>B\<close> returns the datagram with its payload and its header, the checksum filled in.
\<close>

theorem arp_resolution:
  assumes "addr_ipv4_numeric (ni_ip_address A) = Inr ip_A" and "addr_ipv4_numeric (ni_ip_address B) = Inr ip_B"
    and "length (ni_ethernet_address A) = 6" and "length (ni_ethernet_address B) = 6"
    and "ni_cacheMap A ip_B = None" and "ni_arpRequests A ip_B = None"
    and "list_all dg_wf (ni_pending ip_B A)" and "list_all dg_wf (ni_pending ip_A B)" and "dg_wf d"
  shows "\<exists>A1 request B1 reply A2 frame c d' waited waited'.
    ni_send_datagram d (ni_ip_address B) A = Inr A1 \<and> ni_frames_out A1 = ni_frames_out A @ [request] \<and>
    ni_recv_frame request B = Inr (None, B1) \<and> ni_frames_out B1 = ni_frames_out B @ waited' @ [reply] \<and>
    (\<exists>t. ni_cacheMap B1 ip_A = Some (ni_ethernet_address A, t)) \<and>
    ni_recv_frame reply A1 = Inr (None, A2) \<and> ni_frames_out A2 = ni_frames_out A1 @ waited @ [frame] \<and>
    length waited = length (ni_pending ip_B A) \<and> length waited' = length (ni_pending ip_A B) \<and>
    (\<exists>t. ni_cacheMap A2 ip_B = Some (ni_ethernet_address B, t)) \<and>
    ni_recv_frame frame B1 = Inr (Some d', B1) \<and> dg_header d' = (dg_header d)\<lparr>ip_cksum := c\<rparr> \<and>
    buffer_list_concatenate (dg_payload d') = buffer_list_concatenate (dg_payload d)"
proof -
  let ?d = "\<lparr>eh_dst = ETHERNET_BROADCAST, eh_src = ni_ethernet_address A, eh_type = TYPE_ARP\<rparr>"
  from ni_send_asks [OF assms(2,5,6,1), of d] obtain s where s: "arp_serialize (ni_question A ip_A ip_B) = Inr s" and
    send: "ni_send_datagram d (ni_ip_address B) A =
      Inr (A\<lparr>ni_frames_out := ni_frames_out A @ [\<lparr>ef_header = ?d, ef_payload = buffer_list_of s\<rparr>],
            ni_arpRequests := (ni_arpRequests A)(ip_B \<mapsto> 5000),
            ni_datagramQueue := (ni_datagramQueue A)(ip_B \<mapsto> ni_pending ip_B A @ [d])\<rparr>)" by blast
  define request where "request = \<lparr>ef_header = ?d, ef_payload = buffer_list_of s\<rparr>"
  define A1 where "A1 = A\<lparr>ni_frames_out := ni_frames_out A @ [request],
    ni_arpRequests := (ni_arpRequests A)(ip_B \<mapsto> 5000),
    ni_datagramQueue := (ni_datagramQueue A)(ip_B \<mapsto> ni_pending ip_B A @ [d])\<rparr>"
  have A1: "ni_send_datagram d (ni_ip_address B) A = Inr A1" "ni_frames_out A1 = ni_frames_out A @ [request]"
    "ni_pending ip_B A1 = ni_pending ip_B A @ [d]" "ni_ethernet_address A1 = ni_ethernet_address A"
    "addr_ipv4_numeric (ni_ip_address A1) = Inr ip_A"
    using send assms(1) by (simp_all add: A1_def request_def ni_pending_def)
  from ni_recv_question [OF assms(2,3,4,8) s request_def] obtain waited' b reply B1 where
    B1: "ni_recv_frame request B = Inr (None, B1)" "ni_frames_out B1 = ni_frames_out B @ waited' @ [reply]"
      "ni_cacheMap B1 ip_A = Some (ni_ethernet_address A, 30000)" "ni_ethernet_address B1 = ni_ethernet_address B"
      "length waited' = length (ni_pending ip_A B)" "ni_tells b reply (ni_ethernet_address A)"
      "sender_ip_address b = ip_B" "sender_ethernet_address b = ni_ethernet_address B" "opcode b = OPCODE_REPLY"
    by blast
  from ni_recv_told [OF B1(9) A1(5) B1(6) [folded A1(4)]] assms(7,9) obtain fs A2 where
    A2: "ni_recv_frame reply A1 = Inr (None, A2)" "ni_frames_out A2 = ni_frames_out A1 @ fs"
      "ni_cacheMap A2 ip_B = Some (ni_ethernet_address B, 30000)"
      "list_all2 (ni_carries (ni_ethernet_address A)) fs (map (\<lambda>d. (ip_B, ni_ethernet_address B, d)) (ni_pending ip_B A @ [d]))"
    by (auto simp: B1 A1)
  then obtain waited f where f: "fs = waited @ [f]" "length waited = length (ni_pending ip_B A)"
    "ni_carries (ni_ethernet_address A) f (ip_B, ni_ethernet_address B1, d)"
    using B1(4) by (fastforce simp: list_all2_append2 list_all2_Cons2 dest: list_all2_lengthD)
  from ni_recv_carried [OF f(3) assms(9)] obtain c d' where d': "ni_recv_frame f B1 = Inr (Some d', B1)"
    "dg_header d' = (dg_header d)\<lparr>ip_cksum := c\<rparr>"
    "buffer_list_concatenate (dg_payload d') = buffer_list_concatenate (dg_payload d)" by blast
  have "ni_frames_out A2 = ni_frames_out A1 @ waited @ [f]" by (simp add: A2(2) f(1))
  then show ?thesis using A1(1,2) B1(1,2,3,5) A2(1,3) f(2) d' by blast
qed

theorem arp_resolution_witness:
  "let d = \<lparr>dg_header = ip_default\<lparr>ip_len := 22\<rparr>, dg_payload = [buffer_of [1, 2]]\<rparr>;
       A = ni_init (replicate 6 1) (inet 7 0); B = ni_init (replicate 6 2) (inet 9 0)
   in \<exists>A1 request B1 reply A2 frame c d' waited waited'.
    ni_send_datagram d (ni_ip_address B) A = Inr A1 \<and> ni_frames_out A1 = ni_frames_out A @ [request] \<and>
    ni_recv_frame request B = Inr (None, B1) \<and> ni_frames_out B1 = ni_frames_out B @ waited' @ [reply] \<and>
    (\<exists>t. ni_cacheMap B1 7 = Some (ni_ethernet_address A, t)) \<and>
    ni_recv_frame reply A1 = Inr (None, A2) \<and> ni_frames_out A2 = ni_frames_out A1 @ waited @ [frame] \<and>
    length waited = length (ni_pending 9 A) \<and> length waited' = length (ni_pending 7 B) \<and>
    (\<exists>t. ni_cacheMap A2 9 = Some (ni_ethernet_address B, t)) \<and>
    ni_recv_frame frame B1 = Inr (Some d', B1) \<and> dg_header d' = (dg_header d)\<lparr>ip_cksum := c\<rparr> \<and>
    buffer_list_concatenate (dg_payload d') = buffer_list_concatenate (dg_payload d)"
  unfolding Let_def
  by (rule arp_resolution)
    (simp_all add: ni_init_def ni_pending_def dg_wf_def ip_wf_def ip_default_def buffer_list_concatenate_eq)

text \<open>
  What an interface learned lasts thirty seconds and what it asked five: after \<^verbatim>\<open>tick\<close> an
  entry is kept exactly when its remaining time exceeds the time that passed, and then its
  remaining time is shorter by that time. So an address just learned is used for less than
  30000 ms, and the same request may be made again after 5000 ms.
\<close>

theorem tick_expires:
  "ni_cacheMap (ni_tick ms ni) ip =
     (case ni_cacheMap ni ip of
        None \<Rightarrow> None
      | Some (mac, t) \<Rightarrow> if unat ms < unat t then Some (mac, of_nat (unat t - unat ms)) else None) \<and>
   ni_arpRequests (ni_tick ms ni) ip =
     (case ni_arpRequests ni ip of
        None \<Rightarrow> None
      | Some t \<Rightarrow> if unat ms < unat t then Some (of_nat (unat t - unat ms)) else None) \<and>
   (case ni_learn a ni of
      Inl _ \<Rightarrow> True
    | Inr ni' \<Rightarrow> ni_cacheMap (ni_tick ms ni') (sender_ip_address a) \<noteq> None \<longleftrightarrow> unat ms < 30000)"
proof (intro conjI)
  have left: "of_nat (unat (t :: u64) - unat ms) = t - ms" if "unat ms < unat t" for t
    using that by (simp add: of_nat_diff)
  show "ni_cacheMap (ni_tick ms ni) ip =
     (case ni_cacheMap ni ip of
        None \<Rightarrow> None
      | Some (mac, t) \<Rightarrow> if unat ms < unat t then Some (mac, of_nat (unat t - unat ms)) else None)"
    by (auto simp: ni_tick_def word_less_nat_alt left split: option.split)
  show "ni_arpRequests (ni_tick ms ni) ip =
     (case ni_arpRequests ni ip of
        None \<Rightarrow> None
      | Some t \<Rightarrow> if unat ms < unat t then Some (of_nat (unat t - unat ms)) else None)"
    by (auto simp: ni_tick_def word_less_nat_alt left split: option.split)
  have "ni_cacheMap ni' = (ni_cacheMap ni)(sender_ip_address a \<mapsto> (sender_ethernet_address a, 30000))"
    if "ni_learn a ni = Inr ni'" for ni'
    using that by (auto simp: ni_learn_def Let_def dest!: ni_flush_cache split: option.splits)
  then show "case ni_learn a ni of
      Inl _ \<Rightarrow> True
    | Inr ni' \<Rightarrow> ni_cacheMap (ni_tick ms ni') (sender_ip_address a) \<noteq> None \<longleftrightarrow> unat ms < 30000"
    by (simp add: ni_tick_def word_less_nat_alt split: sum.split)
qed

end
