(* ===== verification/Wrapping_Integers.thy ===== *)
theory Wrapping_Integers
  imports Sponge_Prelude
begin

text \<open>
  The 32-bit wrapping sequence numbers of \<^verbatim>\<open>libsponge/wrapping_integers.{hh,cc}\<close>. An absolute
  sequence number is a \<^typ>\<open>64 word\<close>; all arithmetic is that of the machine, including the
  multiplications of \<^verbatim>\<open>unwrap\<close>, which wrap at 2^64.
\<close>

datatype wrapping_int32 = WrappingInt32 (raw_value: u32)

text \<open>\<^verbatim>\<open>operator-\<close> on two wrapping integers returns an \<^verbatim>\<open>int32_t\<close>.\<close>

definition wi_sub :: "wrapping_int32 \<Rightarrow> wrapping_int32 \<Rightarrow> int" where
  "wi_sub a b = sint (raw_value a - raw_value b)"

definition wi_eq :: "wrapping_int32 \<Rightarrow> wrapping_int32 \<Rightarrow> bool" where
  "wi_eq a b \<longleftrightarrow> raw_value a = raw_value b"

definition wi_neq :: "wrapping_int32 \<Rightarrow> wrapping_int32 \<Rightarrow> bool" where
  "wi_neq a b \<longleftrightarrow> \<not> wi_eq a b"

definition wi_add :: "wrapping_int32 \<Rightarrow> u32 \<Rightarrow> wrapping_int32" where
  "wi_add a b = WrappingInt32 (raw_value a + b)"

definition wi_minus :: "wrapping_int32 \<Rightarrow> u32 \<Rightarrow> wrapping_int32" where
  "wi_minus a b = wi_add a (- b)"

definition wrap :: "u64 \<Rightarrow> wrapping_int32 \<Rightarrow> wrapping_int32" where
  "wrap n isn =
     (let max_number = push_bit 32 (1 :: u64);
          n = n mod max_number
      in wi_add isn (ucast n))"

definition unwrap :: "wrapping_int32 \<Rightarrow> wrapping_int32 \<Rightarrow> u64 \<Rightarrow> u64" where
  "unwrap n isn checkpoint =
     (let max_number = push_bit 32 (1 :: u64);
          times = checkpoint div max_number;
          A = ucast (raw_value (WrappingInt32 (word_of_int (wi_sub n isn)))) :: u64;
          B = checkpoint mod max_number
      in if (A \<le> B \<and> (B \<le> max_number div 2 \<or> A \<ge> B - max_number div 2)) \<or>
            (A > B \<and> (B \<ge> max_number div 2 \<or> A \<le> B + max_number div 2))
         then times * max_number + A
         else if A \<le> B then (times + 1) * max_number + A
         else if times < 1 then times * max_number + A
         else (times - 1) * max_number + A)"

subsection \<open>Reading the operations as natural numbers\<close>

definition rel_seq :: "wrapping_int32 \<Rightarrow> wrapping_int32 \<Rightarrow> nat" where
  "rel_seq n isn = unat (raw_value n - raw_value isn)"

lemma rel_seq_lt: "rel_seq n isn < 4294967296"
  by (simp add: rel_seq_def unat_u32_lt)

lemma wi_eq_iff [simp]: "wi_eq a b \<longleftrightarrow> a = b"
  by (cases a; cases b) (simp add: wi_eq_def)

lemma max_number_eq: "push_bit 32 (1 :: u64) = 4294967296"
  by simp

lemma unat_mod_max: "unat (n mod 4294967296 :: u64) = unat n mod 4294967296"
  by (simp add: unat_mod)

lemma wrap_eq: "raw_value (wrap n isn) = raw_value isn + of_nat (unat n mod 4294967296)"
proof -
  have "(ucast (n mod 4294967296 :: u64) :: u32) = of_nat (unat (n mod 4294967296 :: u64))"
    by (simp add: unsigned_ucast_eq)
  then show ?thesis by (simp add: wrap_def Let_def wi_add_def unat_mod_max)
qed

lemma wrap_eq_iff: "wrap x isn = n \<longleftrightarrow> unat x mod 4294967296 = rel_seq n isn"
proof
  assume "wrap x isn = n"
  then have "raw_value n - raw_value isn = of_nat (unat x mod 4294967296)"
    using wrap_eq [of x isn] by simp
  then show "unat x mod 4294967296 = rel_seq n isn"
    by (simp add: rel_seq_def unat_of_nat take_bit_eq_mod)
next
  assume "unat x mod 4294967296 = rel_seq n isn"
  then have "raw_value (wrap x isn) = raw_value n"
    using wrap_eq [of x isn] by (simp add: rel_seq_def)
  then show "wrap x isn = n" by (simp add: wrapping_int32.expand)
qed

lemma wrap_rel_seq: "rel_seq (wrap x isn) isn = unat x mod 4294967296"
  using wrap_eq_iff [of x isn "wrap x isn"] by simp

text \<open>\<open>unwrap\<close> as a function on natural numbers, for checkpoints below the last 2^32-block.\<close>

definition unwrap_nat :: "nat \<Rightarrow> nat \<Rightarrow> nat" where
  "unwrap_nat a c =
     (let t = c div 4294967296; b = c mod 4294967296 in
      if a \<le> b \<and> (b \<le> 2147483648 \<or> b - 2147483648 \<le> a) \<or>
         b < a \<and> (2147483648 \<le> b \<or> a \<le> b + 2147483648)
      then t * 4294967296 + a
      else if a \<le> b then (t + 1) * 4294967296 + a
      else if t < 1 then t * 4294967296 + a
      else (t - 1) * 4294967296 + a)"

lemma unat_block:
  assumes "unat (t :: u64) < 4294967296" and "a < 4294967296"
  shows "unat (t * 4294967296 + of_nat a :: u64) = unat t * 4294967296 + a"
proof -
  have "unat t * 4294967296 + a < 18446744073709551616" using assms by linarith
  moreover have "(t * 4294967296 + of_nat a :: u64) = of_nat (unat t * 4294967296 + a)" by simp
  ultimately show ?thesis by (simp only: unat_of_nat) (simp add: take_bit_eq_mod)
qed

lemma unwrap_relative: "(ucast (word_of_int (wi_sub n isn) :: u32) :: u64) = of_nat (rel_seq n isn)"
proof -
  have "(word_of_int (wi_sub n isn) :: u32) = raw_value n - raw_value isn"
    by (simp add: wi_sub_def)
  then show ?thesis by (simp add: rel_seq_def unsigned_ucast_eq)
qed

lemma unat_unwrap:
  assumes "unat c < 18446744069414584320"
  shows "unat (unwrap n isn c) = unwrap_nat (rel_seq n isn) (unat c)"
proof -
  define a where "a = rel_seq n isn"
  define t where "t = (c div 4294967296 :: u64)"
  define b where "b = (c mod 4294967296 :: u64)"
  have a: "a < 4294967296" unfolding a_def by (rule rel_seq_lt)
  have ua: "unat (of_nat a :: u64) = a" using a by (simp add: unat_of_nat take_bit_eq_mod)
  have t: "unat t = unat c div 4294967296" unfolding t_def by (simp add: unat_div)
  have b: "unat b = unat c mod 4294967296" unfolding b_def by (simp add: unat_mod)
  have b_lt: "unat b < 4294967296" using b by simp
  have t_lt: "unat t < 4294967295" using assms t by (simp add: less_mult_imp_div_less)
  have t1: "unat (t + 1) = unat t + 1" using t_lt by (simp add: unat_add_nowrap)
  have t0: "\<not> t < 1 \<Longrightarrow> unat (t - 1) = unat t - 1"
    by (metis linorder_not_less unat_1 unat_diff_nowrap)
  have lt1: "t < 1 \<longleftrightarrow> unat t < 1" by (simp add: word_less_nat_alt)
  have le: "of_nat a \<le> b \<longleftrightarrow> a \<le> unat b" "b < of_nat a \<longleftrightarrow> unat b < a"
    by (simp_all add: word_le_nat_alt word_less_nat_alt ua)
  have half: "b \<le> 2147483648 \<longleftrightarrow> unat b \<le> 2147483648" "2147483648 \<le> b \<longleftrightarrow> 2147483648 \<le> unat b"
    by (simp_all add: word_le_nat_alt)
  have sub: "\<not> b \<le> 2147483648 \<Longrightarrow> b - 2147483648 \<le> of_nat a \<longleftrightarrow> unat b - 2147483648 \<le> a"
    by (simp add: word_le_nat_alt unat_diff_nowrap ua)
  have add: "of_nat a \<le> b + 2147483648 \<longleftrightarrow> a \<le> unat b + 2147483648"
    using b_lt by (simp add: word_le_nat_alt unat_add_nowrap ua)
  define P where "P \<longleftrightarrow> a \<le> unat b \<and> (unat b \<le> 2147483648 \<or> unat b - 2147483648 \<le> a) \<or>
      unat b < a \<and> (2147483648 \<le> unat b \<or> a \<le> unat b + 2147483648)"
  have cond: "of_nat a \<le> b \<and> (b \<le> 2147483648 \<or> b - 2147483648 \<le> of_nat a) \<or>
      b < of_nat a \<and> (2147483648 \<le> b \<or> of_nat a \<le> b + 2147483648) \<longleftrightarrow> P"
    unfolding P_def using sub le half add by blast
  have "unwrap n isn c =
      (if P then t * 4294967296 + of_nat a
       else if a \<le> unat b then (t + 1) * 4294967296 + of_nat a
       else if unat t < 1 then t * 4294967296 + of_nat a
       else (t - 1) * 4294967296 + of_nat a)"
    unfolding cond [symmetric] le(1) [symmetric] lt1 [symmetric]
    by (simp add: unwrap_def Let_def unwrap_relative a_def t_def b_def)
  moreover have "unwrap_nat a (unat c) =
      (if P then unat t * 4294967296 + a
       else if a \<le> unat b then (unat t + 1) * 4294967296 + a
       else if unat t < 1 then unat t * 4294967296 + a
       else (unat t - 1) * 4294967296 + a)"
    unfolding unwrap_nat_def Let_def P_def t b by (rule refl)
  moreover have "\<not> unat t < 1 \<Longrightarrow> unat (t - 1) = unat t - 1" using t0 lt1 by blast
  ultimately show ?thesis
    using unat_block [of t a] unat_block [of "t + 1" a] unat_block [of "t - 1" a] a t_lt t1
    unfolding a_def [symmetric] by (simp del: One_nat_def)
qed

lemma unwrap_nat_cases:
  assumes "a < 4294967296" and "c = t * 4294967296 + b" and "b < 4294967296"
  obtains "unwrap_nat a c = t * 4294967296 + a" and "\<bar>int a - int b\<bar> \<le> 2147483648"
  | "unwrap_nat a c = (t + 1) * 4294967296 + a" and "a + 2147483648 < b"
  | "1 \<le> t" and "unwrap_nat a c = (t - 1) * 4294967296 + a" and "b + 2147483648 < a"
  | "t = 0" and "unwrap_nat a c = a" and "b < a"
proof -
  define P where "P \<longleftrightarrow> a \<le> b \<and> (b \<le> 2147483648 \<or> b - 2147483648 \<le> a) \<or>
      b < a \<and> (2147483648 \<le> b \<or> a \<le> b + 2147483648)"
  have tb: "c div 4294967296 = t" "c mod 4294967296 = b" using assms by simp_all
  have eq: "unwrap_nat a c =
      (if P then t * 4294967296 + a
       else if a \<le> b then (t + 1) * 4294967296 + a
       else if t < 1 then t * 4294967296 + a
       else (t - 1) * 4294967296 + a)"
    unfolding unwrap_nat_def Let_def tb P_def by (rule refl)
  consider P | "\<not> P" "a \<le> b" | "\<not> P" "b < a" "1 \<le> t" | "\<not> P" "b < a" "t = 0" by linarith
  then show ?thesis
  proof cases
    case 1
    then have "\<bar>int a - int b\<bar> \<le> 2147483648" using assms(1,3) unfolding P_def by linarith
    with 1 eq show ?thesis by (intro that(1)) simp_all
  next
    case 2
    then have "a + 2147483648 < b" unfolding P_def by linarith
    with 2 eq show ?thesis by (intro that(2)) simp_all
  next
    case 3
    then have "b + 2147483648 < a" unfolding P_def by linarith
    with 3 eq show ?thesis by (intro that(3)) simp_all
  next
    case 4
    with eq show ?thesis by (intro that(4)) simp_all
  qed
qed

lemma unwrap_nat_block: "\<exists>q. unwrap_nat a c = q * 4294967296 + a"
proof -
  let ?t = "c div 4294967296"
  have "unwrap_nat a c \<in> (\<lambda>q. q * 4294967296 + a) ` {?t, ?t + 1, ?t - 1}"
    unfolding unwrap_nat_def Let_def by (simp only: insert_iff image_insert split: if_splits) blast
  then show ?thesis by blast
qed

lemma unwrap_nat_mod: "a < 4294967296 \<Longrightarrow> unwrap_nat a c mod 4294967296 = a"
  using unwrap_nat_block [of a c] by auto

lemma unwrap_nat_closest:
  assumes "a < 4294967296" and "x mod 4294967296 = a"
  shows "\<bar>int (unwrap_nat a c) - int c\<bar> \<le> \<bar>int x - int c\<bar>"
proof -
  define q where "q = x div 4294967296"
  define t where "t = c div 4294967296"
  define b where "b = c mod 4294967296"
  have x: "int x = int q * 4294967296 + int a"
    using assms(2) unfolding q_def by (metis div_mult_mod_eq of_nat_add of_nat_mult of_nat_numeral)
  have c: "c = t * 4294967296 + b" unfolding t_def b_def by simp
  have b: "b < 4294967296" unfolding b_def by simp
  from assms(1) c b show ?thesis
  proof (cases rule: unwrap_nat_cases)
    case 1
    consider "q + 1 \<le> t" | "q = t" | "t + 1 \<le> q" by linarith
    then show ?thesis using 1 x c assms(1) b by cases (simp; linarith)+
  next
    case 2
    consider "q \<le> t" | "q = t + 1" | "t + 2 \<le> q" by linarith
    then show ?thesis using 2 x c assms(1) b by cases (simp; linarith)+
  next
    case 3
    consider "q + 2 \<le> t" | "q + 1 = t" | "t \<le> q" by linarith
    then show ?thesis using 3 x c assms(1) b by cases (simp; linarith)+
  next
    case 4
    consider "q = 0" | "1 \<le> q" by linarith
    then show ?thesis using 4 x c assms(1) b by cases (simp; linarith)+
  qed
qed

lemma unwrap_nat_unique:
  assumes "\<bar>int x - int c\<bar> < 2147483648"
  shows "unwrap_nat (x mod 4294967296) c = x"
proof -
  let ?u = "unwrap_nat (x mod 4294967296) c"
  have near: "\<bar>int ?u - int c\<bar> \<le> \<bar>int x - int c\<bar>"
    by (rule unwrap_nat_closest) simp_all
  obtain q where q: "?u = q * 4294967296 + x mod 4294967296"
    using unwrap_nat_block [of "x mod 4294967296" c] by auto
  have x: "x = x div 4294967296 * 4294967296 + x mod 4294967296" by simp
  have "\<bar>int ?u - int x\<bar> < 4294967296" using near assms by linarith
  then have "q = x div 4294967296" using q x by linarith
  with q show ?thesis by simp
qed

text \<open>The receiver and the sender always unwrap against checkpoint 0.\<close>

lemma unwrap_checkpoint_0: "unat (unwrap n isn 0) = rel_seq n isn"
  using unat_unwrap [of 0 n isn] rel_seq_lt [of n isn] by (simp add: unwrap_nat_def)

lemma unwrap_self: "unwrap isn isn 0 = 0"
  using unwrap_checkpoint_0 [of isn isn] by (simp add: rel_seq_def unat_eq_zero)

text \<open>
  C14. Whatever the initial sequence number, and for every checkpoint below the last block of
  2^32 numbers, the absolute sequence number that \<open>unwrap\<close> returns wraps to the sequence
  number given, and no other 64-bit number that wraps to it is closer to the checkpoint.
\<close>

theorem unwrap_closest:
  assumes "unat c < 2 ^ 64 - 2 ^ 32"
  shows "wrap (unwrap n isn c) isn = n \<and>
    (\<forall>x. wrap x isn = n \<longrightarrow>
       \<bar>int (unat (unwrap n isn c)) - int (unat c)\<bar> \<le> \<bar>int (unat x) - int (unat c)\<bar>)"
proof -
  from assms have c: "unat c < 18446744069414584320" by simp
  have "wrap (unwrap n isn c) isn = n"
    by (simp add: wrap_eq_iff unat_unwrap [OF c] unwrap_nat_mod [OF rel_seq_lt])
  moreover have "\<bar>int (unat (unwrap n isn c)) - int (unat c)\<bar> \<le> \<bar>int (unat x) - int (unat c)\<bar>"
    if "wrap x isn = n" for x
    using unwrap_nat_closest [OF rel_seq_lt] that unfolding wrap_eq_iff unat_unwrap [OF c] by blast
  ultimately show ?thesis by blast
qed

theorem unwrap_closest_witness:
  "wrap (unwrap (WrappingInt32 7) (WrappingInt32 4294967290) 5000000000) (WrappingInt32 4294967290)
     = WrappingInt32 7 \<and>
   wrap 13 (WrappingInt32 4294967290) = WrappingInt32 7 \<and>
   \<bar>int (unat (unwrap (WrappingInt32 7) (WrappingInt32 4294967290) 5000000000)) - int (unat (5000000000 :: u64))\<bar>
     \<le> \<bar>int (unat (13 :: u64)) - int (unat (5000000000 :: u64))\<bar>"
proof -
  have "wrap 13 (WrappingInt32 4294967290) = WrappingInt32 7"
    by (simp add: wrap_def wi_add_def)
  moreover have "unat (5000000000 :: u64) < 2 ^ 64 - 2 ^ 32" by simp
  ultimately show ?thesis
    using unwrap_closest [of 5000000000 "WrappingInt32 7" "WrappingInt32 4294967290"] by blast
qed

text \<open>
  Wrapping an absolute sequence number and unwrapping it with a checkpoint less than 2^31
  away gives the number back.
\<close>

theorem unwrap_wrap:
  assumes "unat c < 2 ^ 64 - 2 ^ 32" and "\<bar>int (unat x) - int (unat c)\<bar> < 2 ^ 31"
  shows "unwrap (wrap x isn) isn c = x"
proof -
  have "unat (unwrap (wrap x isn) isn c) = unat x"
    using assms unwrap_nat_unique [of "unat x" "unat c"]
    by (simp add: unat_unwrap wrap_rel_seq)
  then show ?thesis by (rule unsigned_word_eqI)
qed

theorem unwrap_wrap_witness:
  "unwrap (wrap 4294967300 (WrappingInt32 99)) (WrappingInt32 99) 4294967000 = 4294967300"
  by (rule unwrap_wrap) simp_all

end
