(* ===== verification/TCP_Segment.thy ===== *)
theory TCP_Segment
  imports IPv4 Wrapping_Integers
begin

text \<open>
  TCP headers and segments: \<^verbatim>\<open>libsponge/tcp_helpers/tcp_header.{hh,cc}\<close> and
  \<^verbatim>\<open>tcp_segment.{hh,cc}\<close>.
\<close>

definition TCP_LENGTH :: nat where "TCP_LENGTH = 20"

record tcp_header =
  th_sport :: u16
  th_dport :: u16
  th_seqno :: wrapping_int32
  th_ackno :: wrapping_int32
  th_doff :: u8
  th_urg :: bool
  th_ack :: bool
  th_psh :: bool
  th_rst :: bool
  th_syn :: bool
  th_fin :: bool
  th_win :: u16
  th_cksum :: u16
  th_uptr :: u16

definition th_default :: tcp_header where
  "th_default =
     \<lparr>th_sport = 0, th_dport = 0, th_seqno = WrappingInt32 0, th_ackno = WrappingInt32 0,
      th_doff = 5, th_urg = False, th_ack = False, th_psh = False, th_rst = False,
      th_syn = False, th_fin = False, th_win = 0, th_cksum = 0, th_uptr = 0\<rparr>"

definition th_parse :: "net_parser \<Rightarrow> (parse_result \<times> tcp_header \<times> net_parser) result" where
  "th_parse p =
     bindE (np_u16 p) (\<lambda>(sport, p).
     bindE (np_u16 p) (\<lambda>(dport, p).
     bindE (np_u32 p) (\<lambda>(seqno, p).
     bindE (np_u32 p) (\<lambda>(ackno, p).
     bindE (np_u8 p) (\<lambda>(do_b, p).
     bindE (np_u8 p) (\<lambda>(fl_b, p).
     bindE (np_u16 p) (\<lambda>(win, p).
     bindE (np_u16 p) (\<lambda>(cksum, p).
     bindE (np_u16 p) (\<lambda>(uptr, p).
     let doff = drop_bit 4 do_b;
         h = \<lparr>th_sport = sport, th_dport = dport, th_seqno = WrappingInt32 seqno,
              th_ackno = WrappingInt32 ackno, th_doff = doff,
              th_urg = (fl_b AND 0x20 \<noteq> 0), th_ack = (fl_b AND 0x10 \<noteq> 0),
              th_psh = (fl_b AND 0x08 \<noteq> 0), th_rst = (fl_b AND 0x04 \<noteq> 0),
              th_syn = (fl_b AND 0x02 \<noteq> 0), th_fin = (fl_b AND 0x01 \<noteq> 0),
              th_win = win, th_cksum = cksum, th_uptr = uptr\<rparr>
     in if doff < 5 then Inr (HeaderTooShort, h, p)
        else bindE (np_remove_prefix (unat doff * 4 - TCP_LENGTH) p) (\<lambda>p.
          if np_error p then Inr (np_get_error p, h, p) else Inr (NoError, h, p)))))))))))"

definition th_serialize :: "tcp_header \<Rightarrow> bytes result" where
  "th_serialize h =
     (if th_doff h < 5 then Inl (Runtime_error ''TCP header too short'')
      else
        let ret = [];
            ret = unparse_u16 ret (th_sport h);
            ret = unparse_u16 ret (th_dport h);
            ret = unparse_u32 ret (raw_value (th_seqno h));
            ret = unparse_u32 ret (raw_value (th_ackno h));
            ret = unparse_u8 ret (push_bit 4 (th_doff h));
            fl_b = (if th_urg h then 0x20 else 0) OR (if th_ack h then 0x10 else 0) OR
                   (if th_psh h then 0x08 else 0) OR (if th_rst h then 0x04 else 0) OR
                   (if th_syn h then 0x02 else 0) OR (if th_fin h then 0x01 else 0);
            ret = unparse_u8 ret fl_b;
            ret = unparse_u16 ret (th_win h);
            ret = unparse_u16 ret (th_cksum h);
            ret = unparse_u16 ret (th_uptr h);
            ret = str_resize (4 * unat (th_doff h)) ret
        in Inr ret)"

definition th_eq :: "tcp_header \<Rightarrow> tcp_header \<Rightarrow> bool" where
  "th_eq h other \<longleftrightarrow>
     wi_eq (th_seqno h) (th_seqno other) \<and> wi_eq (th_ackno h) (th_ackno other) \<and>
     th_doff h = th_doff other \<and> th_urg h = th_urg other \<and> th_ack h = th_ack other \<and>
     th_psh h = th_psh other \<and> th_rst h = th_rst other \<and> th_syn h = th_syn other \<and>
     th_fin h = th_fin other \<and> th_win h = th_win other \<and> th_uptr h = th_uptr other"

record tcp_segment =
  seg_header :: tcp_header
  seg_payload :: buffer

definition seg_default :: tcp_segment where
  "seg_default = \<lparr>seg_header = th_default, seg_payload = buffer_empty_ctor\<rparr>"

definition seg_parse :: "buffer \<Rightarrow> u32 \<Rightarrow> tcp_segment \<Rightarrow> (parse_result \<times> tcp_segment) result" where
  "seg_parse buffer datagram_layer_checksum seg =
     (let check = ck_add (buffer_str buffer) (ck_init datagram_layer_checksum) in
      if ck_value check \<noteq> 0 then Inr (BadChecksum, seg)
      else bindE (th_parse (np_init buffer)) (\<lambda>(_, h, p).
             Inr (np_get_error p, \<lparr>seg_header = h, seg_payload = np_buffer p\<rparr>)))"

definition length_in_sequence_space :: "tcp_segment \<Rightarrow> u64" where
  "length_in_sequence_space seg =
     sz (buffer_str (seg_payload seg)) + (if th_syn (seg_header seg) then 1 else 0) +
     (if th_fin (seg_header seg) then 1 else 0)"

definition seg_serialize :: "u32 \<Rightarrow> tcp_segment \<Rightarrow> buffer_list result" where
  "seg_serialize datagram_layer_checksum seg =
     (let header_out = (seg_header seg)\<lparr>th_cksum := 0\<rparr>;
          check = ck_init datagram_layer_checksum
      in bindE (th_serialize header_out) (\<lambda>hdr0.
         let check = ck_add hdr0 check;
             check = ck_add (buffer_str (seg_payload seg)) check;
             header_out = header_out\<lparr>th_cksum := ck_value check\<rparr>
         in bindE (th_serialize header_out) (\<lambda>hdr.
            let ret = [];
                ret = buffer_list_append ret (buffer_list_of hdr);
                ret = buffer_list_append ret (buffer_list_of_buffer (seg_payload seg))
            in Inr ret)))"

subsection \<open>Bit fields\<close>

definition th_flags :: "tcp_header \<Rightarrow> u8" where
  "th_flags h =
     (if th_urg h then 0x20 else 0) OR (if th_ack h then 0x10 else 0) OR
     (if th_psh h then 0x08 else 0) OR (if th_rst h then 0x04 else 0) OR
     (if th_syn h then 0x02 else 0) OR (if th_fin h then 0x01 else 0)"

lemma th_flags_fields:
  "th_flags h AND 0x20 \<noteq> 0 \<longleftrightarrow> th_urg h" "th_flags h AND 0x10 \<noteq> 0 \<longleftrightarrow> th_ack h"
  "th_flags h AND 0x08 \<noteq> 0 \<longleftrightarrow> th_psh h" "th_flags h AND 0x04 \<noteq> 0 \<longleftrightarrow> th_rst h"
  "th_flags h AND 0x02 \<noteq> 0 \<longleftrightarrow> th_syn h" "th_flags h AND 0x01 \<noteq> 0 \<longleftrightarrow> th_fin h"
  by (simp_all add: th_flags_def)

text \<open>A header whose data offset fits its four bits and covers the fixed part.\<close>

definition th_wf :: "tcp_header \<Rightarrow> bool" where
  "th_wf h \<longleftrightarrow> 5 \<le> unat (th_doff h) \<and> unat (th_doff h) < 16"

lemma th_wf_cksum [simp]: "th_wf (h\<lparr>th_cksum := c\<rparr>) = th_wf h"
  by (simp add: th_wf_def)

lemma th_doff_field: "th_wf h \<Longrightarrow> drop_bit 4 (push_bit 4 (th_doff h)) = th_doff h"
proof -
  assume "th_wf h"
  then have "take_bit 4 (th_doff h) = th_doff h" by (simp add: th_wf_def take_bit_small)
  moreover have "drop_bit 4 (push_bit 4 (th_doff h)) = take_bit 4 (th_doff h)"
    by (rule bit_word_eqI) (auto simp: bit_simps)
  ultimately show ?thesis by simp
qed

definition th_front :: "tcp_header \<Rightarrow> bytes" where
  "th_front h = be (th_sport h) @ be (th_dport h) @ be (raw_value (th_seqno h)) @ be (raw_value (th_ackno h)) @
     push_bit 4 (th_doff h) # th_flags h # be (th_win h)"

definition th_back :: "tcp_header \<Rightarrow> bytes" where
  "th_back h = be (th_uptr h) @ replicate (4 * unat (th_doff h) - 20) 0"

lemma th_front_back_lengths: "length (th_front h) = 16" "length (th_back h) = 2 + (4 * unat (th_doff h) - 20)"
  by (simp_all add: th_front_def th_back_def)

lemma th_front_back_cksum [simp]:
  "th_front (h\<lparr>th_cksum := c\<rparr>) = th_front h" "th_back (h\<lparr>th_cksum := c\<rparr>) = th_back h"
  by (simp_all add: th_front_def th_back_def th_flags_def)

lemma th_serialize_eq:
  assumes "th_wf h"
  shows "th_serialize h = Inr (th_front h @ be (th_cksum h) @ th_back h)"
proof -
  let ?s = "th_front h @ be (th_cksum h) @ be (th_uptr h)"
  have "\<not> th_doff h < 5" using assms by (simp add: th_wf_def word_less_nat_alt)
  then have "th_serialize h = Inr (str_resize (4 * unat (th_doff h)) ?s)"
    by (simp add: th_serialize_def Let_def th_front_def th_flags_def)
  moreover have "length ?s = 20" by (simp add: th_front_back_lengths)
  moreover have "20 \<le> 4 * unat (th_doff h)" using assms by (simp add: th_wf_def)
  ultimately show ?thesis by (simp add: str_resize_def th_back_def)
qed

lemma th_parse_serialized:
  assumes wf: "th_wf h" and p: "np_at (th_front h @ be (th_cksum h) @ th_back h @ rest) p"
    and P: "\<And>p'. np_at rest p' \<Longrightarrow> P (NoError, h, p')"
  shows "ensures (th_parse p) P"
proof -
  have in': "np_at (be (th_sport h) @ be (th_dport h) @ be (raw_value (th_seqno h)) @
      be (raw_value (th_ackno h)) @ push_bit 4 (th_doff h) # th_flags h # be (th_win h) @ be (th_cksum h) @
      be (th_uptr h) @ replicate (4 * unat (th_doff h) - 20) 0 @ rest) p"
    using p by (simp add: th_front_def th_back_def)
  have d5: "\<not> th_doff h < 5" using wf by (simp add: th_wf_def word_less_nat_alt)
  have h: "\<lparr>th_sport = th_sport h, th_dport = th_dport h, th_seqno = WrappingInt32 (raw_value (th_seqno h)),
      th_ackno = WrappingInt32 (raw_value (th_ackno h)), th_doff = th_doff h, th_urg = th_urg h,
      th_ack = th_ack h, th_psh = th_psh h, th_rst = th_rst h, th_syn = th_syn h, th_fin = th_fin h,
      th_win = th_win h, th_cksum = th_cksum h, th_uptr = th_uptr h\<rparr> = h"
    by simp
  show ?thesis
    unfolding th_parse_def Let_def
    by (insert in', (rule reads, assumption)+,
        simp only: th_flags_fields th_doff_field [OF wf] h d5 if_False, (rule reads, assumption)+)
      (use P in \<open>simp_all add: np_at_error TCP_LENGTH_def\<close>)
qed

subsection \<open>Segments of a stream\<close>

text \<open>
  \<open>seg_from S isn seg\<close>: the segment carries a piece of the stream \<open>S\<close> whose initial sequence
  number is \<open>isn\<close>. A SYN occupies sequence number 0, byte \<open>i\<close> of \<open>S\<close> number \<open>i + 1\<close>. A bare
  segment (a pure acknowledgment) occupies nothing, whatever its sequence number.
\<close>

definition seg_bare :: "tcp_segment \<Rightarrow> bool" where
  "seg_bare seg \<longleftrightarrow>
     buffer_str (seg_payload seg) = [] \<and> \<not> th_syn (seg_header seg) \<and> \<not> th_fin (seg_header seg)"

definition seg_from :: "bytes \<Rightarrow> wrapping_int32 \<Rightarrow> tcp_segment \<Rightarrow> bool" where
  "seg_from S isn seg \<longleftrightarrow> seg_bare seg \<or>
     (let h = seg_header seg; d = buffer_str (seg_payload seg) in
      \<exists>n :: nat. n \<le> length S + 1 \<and> th_seqno h = wrap (of_nat n) isn \<and> (th_syn h \<longleftrightarrow> n = 0) \<and>
        (let i = n - 1 in
         i + length d \<le> length S \<and> d = take (length d) (drop i S) \<and>
         (th_fin h \<longrightarrow> i + length d = length S)))"

text \<open>The header fields that the receiver of the other direction fills in do not matter.\<close>

lemma seg_from_cong:
  assumes "th_seqno h = th_seqno (seg_header seg)" and "th_syn h = th_syn (seg_header seg)"
    and "th_fin h = th_fin (seg_header seg)"
  shows "seg_from S isn (seg\<lparr>seg_header := h\<rparr>) = seg_from S isn seg"
  using assms by (simp add: seg_from_def seg_bare_def Let_def)

lemma seg_from_extend:
  assumes "seg_from S isn seg" and "th_fin (seg_header seg) \<Longrightarrow> T = []"
  shows "seg_from (S @ T) isn seg"
proof (cases "seg_bare seg")
  case False
  with assms(1) obtain n where "n \<le> length S + 1" "th_seqno (seg_header seg) = wrap (of_nat n) isn"
    "th_syn (seg_header seg) \<longleftrightarrow> n = 0" "n - 1 + length (buffer_str (seg_payload seg)) \<le> length S"
    "buffer_str (seg_payload seg) = take (length (buffer_str (seg_payload seg))) (drop (n - 1) S)"
    "th_fin (seg_header seg) \<longrightarrow> n - 1 + length (buffer_str (seg_payload seg)) = length S"
    by (auto simp: seg_from_def Let_def)
  with assms(2) show ?thesis
    by (auto simp: seg_from_def Let_def intro!: exI [of _ n])
qed (simp add: seg_from_def)

text \<open>A segment as another layer hands it on: the ports, the checksum and the buffers may be new.\<close>

definition seg_carried :: "tcp_segment \<Rightarrow> tcp_segment \<Rightarrow> bool" where
  "seg_carried seg seg' \<longleftrightarrow>
     seg_header seg' = (seg_header seg)\<lparr>th_sport := th_sport (seg_header seg'), th_dport := th_dport (seg_header seg'),
       th_cksum := th_cksum (seg_header seg')\<rparr> \<and>
     buffer_str (seg_payload seg') = buffer_str (seg_payload seg)"

lemma seg_carried_refl [simp]: "seg_carried seg seg"
  by (simp add: seg_carried_def)

lemma seg_carried_fields:
  assumes "seg_carried seg seg'"
  shows "th_seqno (seg_header seg') = th_seqno (seg_header seg)" "th_syn (seg_header seg') = th_syn (seg_header seg)"
    "th_fin (seg_header seg') = th_fin (seg_header seg)" "buffer_str (seg_payload seg') = buffer_str (seg_payload seg)"
proof -
  from assms have h: "seg_header seg' = (seg_header seg)\<lparr>th_sport := th_sport (seg_header seg'),
      th_dport := th_dport (seg_header seg'), th_cksum := th_cksum (seg_header seg')\<rparr>"
    and "buffer_str (seg_payload seg') = buffer_str (seg_payload seg)" by (simp_all only: seg_carried_def)
  then show "buffer_str (seg_payload seg') = buffer_str (seg_payload seg)" by simp
  show "th_seqno (seg_header seg') = th_seqno (seg_header seg)" by (subst h) simp
  show "th_syn (seg_header seg') = th_syn (seg_header seg)" by (subst h) simp
  show "th_fin (seg_header seg') = th_fin (seg_header seg)" by (subst h) simp
qed

lemma seg_from_carried: "seg_carried seg seg' \<Longrightarrow> seg_from S isn seg' = seg_from S isn seg"
  using seg_carried_fields [of seg seg'] by (simp add: seg_from_def seg_bare_def Let_def)

text \<open>Parsing returns on every input.\<close>

lemma th_parse_total: "ensures (th_parse p) (\<lambda>_. True)"
  unfolding th_parse_def Let_def
  by ((rule reads_any)+, simp split: if_split, intro impI, rule reads_any, simp)

lemma seg_parse_total: "\<exists>r. seg_parse b dlc seg = Inr r"
  using th_parse_total [of "np_init b"] by (auto simp: seg_parse_def ensures_iff Let_def)

lemma seg_serialized:
  assumes wf: "th_wf (seg_header seg)" and dlc: "unat dlc < 2 ^ 20"
    and len: "4 * unat (th_doff (seg_header seg)) + length (buffer_str (seg_payload seg)) \<le> 65536"
  shows "\<exists>bl c. seg_serialize dlc seg = Inr bl \<and> length (buffer_list_concatenate bl) =
      4 * unat (th_doff (seg_header seg)) + length (buffer_str (seg_payload seg)) \<and>
    (\<forall>b seg0. buffer_str b = buffer_list_concatenate bl \<longrightarrow> (\<exists>seg'. seg_parse b dlc seg0 = Inr (NoError, seg') \<and>
    seg_header seg' = (seg_header seg)\<lparr>th_cksum := c\<rparr> \<and> th_eq (seg_header seg') (seg_header seg) \<and>
    buffer_str (seg_payload seg') = buffer_str (seg_payload seg) \<and>
    length_in_sequence_space seg' = length_in_sequence_space seg))"
proof -
  let ?h = "seg_header seg" and ?rest = "buffer_str (seg_payload seg)"
  define c where "c = ck_value (ck_add (th_front ?h @ be (0 :: u16) @ (th_back ?h @ ?rest)) (ck_init dlc))"
  let ?hc = "?h\<lparr>th_cksum := c\<rparr>" and ?hdr = "th_front ?h @ be c @ th_back ?h"
  have c: "c = ck_value (ck_add ?rest (ck_add (th_front ?h @ be (0 :: u16) @ th_back ?h) (ck_init dlc)))"
    unfolding c_def by (simp add: ck_add_append)
  have ser: "seg_serialize dlc seg = Inr [buffer_of ?hdr, seg_payload seg]"
    using wf by (simp add: seg_serialize_def th_serialize_eq Let_def buffer_list_of_buffer_def flip: c)
  let ?in = "th_front ?h @ be c @ (th_back ?h @ ?rest)"
  have cat: "buffer_list_concatenate [buffer_of ?hdr, seg_payload seg] = ?in"
    by (simp add: buffer_list_concatenate_eq)
  have good: "ck_value (ck_add ?in (ck_init dlc)) = 0"
    unfolding c_def
    by (rule ck_fill) (use dlc len wf in \<open>simp_all add: th_front_back_lengths ck_init_def th_wf_def\<close>)
  have "\<exists>seg'. seg_parse b dlc seg0 = Inr (NoError, seg') \<and> seg_header seg' = ?hc \<and> th_eq (seg_header seg') ?h \<and>
      buffer_str (seg_payload seg') = ?rest \<and> length_in_sequence_space seg' = length_in_sequence_space seg"
    if b: "buffer_str b = ?in" for b seg0
  proof -
    have "ensures (th_parse (np_init b)) (\<lambda>(res, h, p). res = NoError \<and> h = ?hc \<and> np_at ?rest p)"
      by (rule th_parse_serialized [of ?hc ?rest]) (use wf b in simp_all)
    then obtain p' where p': "th_parse (np_init b) = Inr (NoError, ?hc, p')" "np_at ?rest p'"
      by (auto simp: ensures_iff)
    then have "seg_parse b dlc seg0 = Inr (NoError, \<lparr>seg_header = ?hc, seg_payload = np_buffer p'\<rparr>)"
      unfolding seg_parse_def Let_def b good by (simp add: np_at_def np_get_error_def)
    moreover have "th_eq ?hc ?h" by (simp add: th_eq_def)
    ultimately show ?thesis using p'(2) by (auto simp: np_at_def length_in_sequence_space_def)
  qed
  moreover have "length ?in = 4 * unat (th_doff ?h) + length ?rest" using wf by (auto simp: th_front_back_lengths th_wf_def)
  ultimately show ?thesis
    using ser cat by (intro exI [of _ "[buffer_of ?hdr, seg_payload seg]"] exI [of _ c]) simp
qed

subsection \<open>Properties\<close>

text \<open>
  C17. A TCP segment is read back as it was written: if the data offset is between 5 and 15,
  serializing a segment succeeds, and parsing the concatenated buffers against the same
  pseudo-header checksum returns no error, the same payload bytes, and the same header with the
  checksum filled in.
\<close>

theorem tcp_segment_roundtrip:
  assumes wf: "th_wf (seg_header seg)" and dlc: "unat dlc < 2 ^ 20"
    and len: "4 * unat (th_doff (seg_header seg)) + length (buffer_str (seg_payload seg)) \<le> 65536"
  shows "\<exists>bl c seg'. seg_serialize dlc seg = Inr bl \<and>
    seg_parse (buffer_of (buffer_list_concatenate bl)) dlc seg0 = Inr (NoError, seg') \<and>
    seg_header seg' = (seg_header seg)\<lparr>th_cksum := c\<rparr> \<and> th_eq (seg_header seg') (seg_header seg) \<and>
    buffer_str (seg_payload seg') = buffer_str (seg_payload seg) \<and>
    length_in_sequence_space seg' = length_in_sequence_space seg"
  using seg_serialized [OF assms] by (metis buffer_str_simps)

theorem tcp_segment_roundtrip_witness:
  "\<exists>bl c seg'. seg_serialize 7 \<lparr>seg_header = th_default\<lparr>th_syn := True\<rparr>, seg_payload = buffer_of [1, 2, 3]\<rparr> = Inr bl \<and>
    seg_parse (buffer_of (buffer_list_concatenate bl)) 7 seg_default = Inr (NoError, seg') \<and>
    seg_header seg' = (seg_header \<lparr>seg_header = th_default\<lparr>th_syn := True\<rparr>, seg_payload = buffer_of [1, 2, 3]\<rparr>)\<lparr>th_cksum := c\<rparr> \<and>
    th_eq (seg_header seg') (seg_header \<lparr>seg_header = th_default\<lparr>th_syn := True\<rparr>, seg_payload = buffer_of [1, 2, 3]\<rparr>) \<and>
    buffer_str (seg_payload seg') = buffer_str (seg_payload \<lparr>seg_header = th_default\<lparr>th_syn := True\<rparr>, seg_payload = buffer_of [1, 2, 3]\<rparr>) \<and>
    length_in_sequence_space seg' = length_in_sequence_space \<lparr>seg_header = th_default\<lparr>th_syn := True\<rparr>, seg_payload = buffer_of [1, 2, 3]\<rparr>"
  by (rule tcp_segment_roundtrip) (simp_all add: th_wf_def th_default_def)

end
