(* ===== verification/TCP_Over_IP.thy ===== *)
theory TCP_Over_IP
  imports Address TCP_Segment
begin

text \<open>
  TCP segments in IPv4 datagrams: the adapter base class of
  \<^verbatim>\<open>libsponge/tcp_helpers/fd_adapter.hh\<close> with its configuration (\<^verbatim>\<open>tcp_config.hh\<close>), and
  \<^verbatim>\<open>TCPOverIPv4Adapter\<close> of \<^verbatim>\<open>tcp_over_ip.{hh,cc}\<close>. \<^verbatim>\<open>inet_ntoa\<close> is \<^const>\<open>dotted_quad\<close>; the
  library calls behind the \<^verbatim>\<open>Address\<close> class are the arguments \<open>gai\<close> and \<open>gni\<close>.
\<close>

record fd_adapter_config =
  cfg_source :: address
  cfg_destination :: address
  cfg_loss_rate_dn :: u16
  cfg_loss_rate_up :: u16

definition fd_adapter_config_default :: "getaddrinfo \<Rightarrow> fd_adapter_config result" where
  "fd_adapter_config_default gai =
     bindE (addr_of_ip gai ''0'' 0) (\<lambda>source.
     bindE (addr_of_ip gai ''0'' 0) (\<lambda>destination.
       Inr \<lparr>cfg_source = source, cfg_destination = destination, cfg_loss_rate_dn = 0, cfg_loss_rate_up = 0\<rparr>))"

record fd_adapter_base =
  ad_cfg :: fd_adapter_config
  ad_listen :: bool

definition ad_set_listening :: "bool \<Rightarrow> fd_adapter_base \<Rightarrow> fd_adapter_base" where
  "ad_set_listening l a = a\<lparr>ad_listen := l\<rparr>"

definition ad_listening :: "fd_adapter_base \<Rightarrow> bool" where
  "ad_listening a = ad_listen a"

definition ad_config :: "fd_adapter_base \<Rightarrow> fd_adapter_config" where
  "ad_config a = ad_cfg a"

definition ad_tick :: "u64 \<Rightarrow> fd_adapter_base \<Rightarrow> fd_adapter_base" where
  "ad_tick ms a = a"

text \<open>
  The part of \<^verbatim>\<open>unwrap_tcp_in_ip\<close> that a listening adapter runs on a segment for its port: a
  connection request fixes both ends and ends listening; \<open>None\<close> is the early return.
\<close>

definition ad_accept ::
  "getaddrinfo \<Rightarrow> getnameinfo \<Rightarrow> ipv4_header \<Rightarrow> tcp_segment \<Rightarrow> fd_adapter_base \<Rightarrow> fd_adapter_base option result" where
  "ad_accept gai gni h tcp_seg a =
     (if ad_listening a then
        if th_syn (seg_header tcp_seg) \<and> \<not> th_rst (seg_header tcp_seg) then
          bindE (addr_port gni (cfg_source (ad_config a))) (\<lambda>port.
          bindE (addr_of_ip gai (dotted_quad (ip_dst h)) port) (\<lambda>source.
          bindE (addr_of_ip gai (dotted_quad (ip_src h)) (th_sport (seg_header tcp_seg))) (\<lambda>destination.
            Inr (Some (ad_set_listening False
              (a\<lparr>ad_cfg := (ad_cfg a)\<lparr>cfg_source := source, cfg_destination := destination\<rparr>\<rparr>))))))
        else Inr None
      else Inr (Some a))"

definition unwrap_tcp_in_ip ::
  "getaddrinfo \<Rightarrow> getnameinfo \<Rightarrow> ipv4_datagram \<Rightarrow> fd_adapter_base \<Rightarrow> (tcp_segment option \<times> fd_adapter_base) result" where
  "unwrap_tcp_in_ip gai gni ip_dgram a =
     bindE (if ad_listening a then Inr False
            else bindE (addr_ipv4_numeric (cfg_source (ad_config a))) (\<lambda>ip. Inr (ip_dst (dg_header ip_dgram) \<noteq> ip))) (\<lambda>not_for_us.
     if not_for_us then Inr (None, a) else
     bindE (if ad_listening a then Inr False
            else bindE (addr_ipv4_numeric (cfg_destination (ad_config a))) (\<lambda>ip. Inr (ip_src (dg_header ip_dgram) \<noteq> ip))) (\<lambda>not_from_peer.
     if not_from_peer then Inr (None, a)
     else if ip_proto (dg_header ip_dgram) \<noteq> PROTO_TCP then Inr (None, a)
     else
       bindE (buffer_list_to_buffer (dg_payload ip_dgram)) (\<lambda>payload.
       bindE (seg_parse payload (ip_pseudo_cksum (dg_header ip_dgram)) seg_default) (\<lambda>(res, tcp_seg).
         if res \<noteq> NoError then Inr (None, a)
         else bindE (addr_port gni (cfg_source (ad_config a))) (\<lambda>port.
           if th_dport (seg_header tcp_seg) \<noteq> port then Inr (None, a)
           else bindE (ad_accept gai gni (dg_header ip_dgram) tcp_seg a) (\<lambda>accepted.
             case accepted of
               None \<Rightarrow> Inr (None, a)
             | Some a \<Rightarrow> bindE (addr_port gni (cfg_destination (ad_config a))) (\<lambda>port.
                 if th_sport (seg_header tcp_seg) \<noteq> port then Inr (None, a) else Inr (Some tcp_seg, a))))))))"

text \<open>\<^verbatim>\<open>wrap_tcp_in_ip\<close> also leaves the port numbers in the segment it is given.\<close>

definition wrap_tcp_in_ip :: "getnameinfo \<Rightarrow> tcp_segment \<Rightarrow> fd_adapter_base \<Rightarrow> (ipv4_datagram \<times> tcp_segment) result" where
  "wrap_tcp_in_ip gni seg a =
     bindE (addr_port gni (cfg_source (ad_config a))) (\<lambda>sport.
     bindE (addr_port gni (cfg_destination (ad_config a))) (\<lambda>dport.
       let seg = seg\<lparr>seg_header := (seg_header seg)\<lparr>th_sport := sport, th_dport := dport\<rparr>\<rparr> in
       bindE (addr_ipv4_numeric (cfg_source (ad_config a))) (\<lambda>src.
       bindE (addr_ipv4_numeric (cfg_destination (ad_config a))) (\<lambda>dst.
         let h = (dg_header dg_default)\<lparr>ip_src := src, ip_dst := dst\<rparr>;
             h = h\<lparr>ip_len := of_nat (unat (ip_hlen h) * 4 + unat (th_doff (seg_header seg)) * 4 + buffer_size (seg_payload seg))\<rparr>
         in bindE (seg_serialize (ip_pseudo_cksum h) seg) (\<lambda>payload.
              Inr (dg_default\<lparr>dg_header := h, dg_payload := payload\<rparr>, seg))))))"

subsection \<open>Wrapping and unwrapping\<close>

lemma unat_add_le: "unat (a + b) \<le> unat a + unat (b :: 'a::len word)"
  by (simp add: unat_word_ariths)

lemma ip_pseudo_cksum_bound: "unat (ip_pseudo_cksum h) < 2 ^ 20"
proof -
  have hi: "unat (drop_bit 16 (x :: u32)) < 65536" for x
    using unat_u32_lt [of x] by (simp only: unat_drop_bit_eq) (simp add: drop_bit_eq_div)
  have lo: "unat (x AND 0xffff :: u32) < 65536" for x
  proof -
    have "x AND 0xffff \<le> (0xffff :: u32)" by (rule word_and_le1)
    then show ?thesis by (simp add: word_le_nat_alt)
  qed
  have p: "unat (ucast (ip_proto h) :: u32) < 256" "unat (ucast (ip_payload_length h) :: u32) < 65536"
    using unat_u8_lt [of "ip_proto h"] unat_u16_lt [of "ip_payload_length h"]
    by (simp_all add: unsigned_ucast_eq take_bit_nat_eq_self)
  let ?s = "drop_bit 16 (ip_src h) + (ip_src h AND 0xffff)" and ?d = "drop_bit 16 (ip_dst h) + (ip_dst h AND 0xffff)"
  have "unat (ip_pseudo_cksum h) \<le> unat ?s + unat ?d + unat (ucast (ip_proto h) :: u32) + unat (ucast (ip_payload_length h) :: u32)"
    unfolding ip_pseudo_cksum_def Let_def
    by (meson add_le_mono1 le_trans unat_add_le)
  moreover have "unat ?s \<le> unat (drop_bit 16 (ip_src h)) + unat (ip_src h AND 0xffff)" by (rule unat_add_le)
  moreover have "unat ?d \<le> unat (drop_bit 16 (ip_dst h)) + unat (ip_dst h AND 0xffff)" by (rule unat_add_le)
  ultimately have "unat (ip_pseudo_cksum h) < 1048576"
    using hi [of "ip_src h"] hi [of "ip_dst h"] lo [of "ip_src h"] lo [of "ip_dst h"] p by linarith
  then show ?thesis by simp
qed

lemma ip_pseudo_cksum_cksum [simp]: "ip_pseudo_cksum (h\<lparr>ip_cksum := c\<rparr>) = ip_pseudo_cksum h"
  by (simp add: ip_pseudo_cksum_def ip_payload_length_def)

lemma dg_parse_payload: "dg_parse b d = Inr (res, d') \<Longrightarrow> \<exists>p. dg_payload d' = [p]"
  by (auto simp: dg_parse_def bindE_eq_Inr_iff Let_def buffer_list_of_buffer_def split: if_splits)

text \<open>A segment with its ports filled in, as it travels between two ends.\<close>

definition seg_between :: "u16 \<Rightarrow> u16 \<Rightarrow> tcp_segment \<Rightarrow> tcp_segment" where
  "seg_between sport dport seg = seg\<lparr>seg_header := (seg_header seg)\<lparr>th_sport := sport, th_dport := dport\<rparr>\<rparr>"

lemma seg_between_simps [simp]:
  "seg_payload (seg_between p q seg) = seg_payload seg"
  "seg_header (seg_between p q seg) = (seg_header seg)\<lparr>th_sport := p, th_dport := q\<rparr>"
  by (simp_all add: seg_between_def)

definition seg_fits :: "tcp_segment \<Rightarrow> bool" where
  "seg_fits seg \<longleftrightarrow> th_wf (seg_header seg) \<and> 20 + 4 * unat (th_doff (seg_header seg)) + length (buffer_str (seg_payload seg)) < 65536"

lemma th_wf_ports [simp]: "th_wf (h\<lparr>th_sport := p, th_dport := q\<rparr>) = th_wf h"
  by (simp add: th_wf_def)

lemma seg_between_serialized:
  assumes fits: "seg_fits seg" and dlc: "unat dlc < 2 ^ 20"
  shows "\<exists>bl c. seg_serialize dlc (seg_between p q seg) = Inr bl \<and>
    length (buffer_list_concatenate bl) = 4 * unat (th_doff (seg_header seg)) + length (buffer_str (seg_payload seg)) \<and>
    (\<forall>b seg0. buffer_str b = buffer_list_concatenate bl \<longrightarrow> (\<exists>seg'. seg_parse b dlc seg0 = Inr (NoError, seg') \<and>
      seg_header seg' = (seg_header (seg_between p q seg))\<lparr>th_cksum := c\<rparr> \<and>
      buffer_str (seg_payload seg') = buffer_str (seg_payload seg)))"
proof -
  let ?seg = "seg_between p q seg"
  have doff: "th_doff (seg_header ?seg) = th_doff (seg_header seg)" by simp
  have wf: "th_wf (seg_header ?seg)" using fits by (simp add: seg_fits_def)
  have len: "4 * unat (th_doff (seg_header ?seg)) + length (buffer_str (seg_payload ?seg)) \<le> 65536"
    using fits by (simp add: seg_fits_def)
  obtain bl c where bl: "seg_serialize dlc ?seg = Inr bl"
      "length (buffer_list_concatenate bl) = 4 * unat (th_doff (seg_header ?seg)) + length (buffer_str (seg_payload ?seg))"
      "\<forall>b seg0. buffer_str b = buffer_list_concatenate bl \<longrightarrow> (\<exists>seg'. seg_parse b dlc seg0 = Inr (NoError, seg') \<and>
        seg_header seg' = (seg_header ?seg)\<lparr>th_cksum := c\<rparr> \<and> th_eq (seg_header seg') (seg_header ?seg) \<and>
        buffer_str (seg_payload seg') = buffer_str (seg_payload ?seg) \<and> length_in_sequence_space seg' = length_in_sequence_space ?seg)"
    using seg_serialized [OF wf dlc len] by blast
  have "\<exists>seg'. seg_parse b dlc seg0 = Inr (NoError, seg') \<and> seg_header seg' = (seg_header ?seg)\<lparr>th_cksum := c\<rparr> \<and>
      buffer_str (seg_payload seg') = buffer_str (seg_payload seg)"
    if "buffer_str b = buffer_list_concatenate bl" for b seg0
    using bl(3) [rule_format, OF that, of seg0] by auto
  with bl(1,2) show ?thesis unfolding doff seg_between_simps(1) by blast
qed

lemma unat_of_nat_u16: "n < 65536 \<Longrightarrow> unat (of_nat n :: u16) = n"
  by (simp add: unat_of_nat take_bit_eq_mod)

lemma wrap_tcp_in_ip_ok:
  assumes cfg: "cfg_source (ad_config a) = inet ip_A port_A" "cfg_destination (ad_config a) = inet ip_B port_B"
    and gni: "numeric_names gni" and fits: "seg_fits seg"
  shows "\<exists>d c. wrap_tcp_in_ip gni seg a = Inr (d, seg_between port_A port_B seg) \<and>
    ip_wf (dg_header d) \<and> ip_ttl (dg_header d) = DEFAULT_TTL \<and> ip_proto (dg_header d) = PROTO_TCP \<and>
    ip_src (dg_header d) = ip_A \<and> ip_dst (dg_header d) = ip_B \<and>
    unat (ip_len (dg_header d)) = 4 * unat (ip_hlen (dg_header d)) + length (buffer_list_concatenate (dg_payload d)) \<and>
    (\<forall>b seg0. buffer_str b = buffer_list_concatenate (dg_payload d) \<longrightarrow>
      (\<exists>seg'. seg_parse b (ip_pseudo_cksum (dg_header d)) seg0 = Inr (NoError, seg') \<and>
        seg_header seg' = (seg_header (seg_between port_A port_B seg))\<lparr>th_cksum := c\<rparr> \<and>
        buffer_str (seg_payload seg') = buffer_str (seg_payload seg)))"
proof -
  let ?seg = "seg_between port_A port_B seg"
  let ?n = "20 + 4 * unat (th_doff (seg_header seg)) + length (buffer_str (seg_payload seg))"
  define h where "h = ip_default\<lparr>ip_src := ip_A, ip_dst := ip_B, ip_len := of_nat ?n\<rparr>"
  have n: "unat (of_nat ?n :: u16) = ?n" by (rule unat_of_nat_u16) (use fits in \<open>simp add: seg_fits_def\<close>)
  obtain bl c where bl: "seg_serialize (ip_pseudo_cksum h) ?seg = Inr bl"
      "length (buffer_list_concatenate bl) = 4 * unat (th_doff (seg_header seg)) + length (buffer_str (seg_payload seg))"
      "\<forall>b seg0. buffer_str b = buffer_list_concatenate bl \<longrightarrow> (\<exists>seg'. seg_parse b (ip_pseudo_cksum h) seg0 = Inr (NoError, seg') \<and>
        seg_header seg' = (seg_header ?seg)\<lparr>th_cksum := c\<rparr> \<and> buffer_str (seg_payload seg') = buffer_str (seg_payload seg))"
    using seg_between_serialized [OF fits ip_pseudo_cksum_bound [of h], of port_A port_B] by (elim exE conjE) (rule that)
  define d where "d = \<lparr>dg_header = h, dg_payload = bl\<rparr>"
  let ?h0 = "(dg_header dg_default)\<lparr>ip_src := ip_A, ip_dst := ip_B\<rparr>"
  have "unat (ip_hlen ?h0) * 4 + unat (th_doff (seg_header ?seg)) * 4 + buffer_size (seg_payload ?seg) = ?n"
    by (simp add: dg_default_def ip_default_def)
  then have h: "?h0\<lparr>ip_len := of_nat (unat (ip_hlen ?h0) * 4 + unat (th_doff (seg_header ?seg)) * 4 + buffer_size (seg_payload ?seg))\<rparr> = h"
    by (simp only: h_def dg_default_def ipv4_datagram.simps)
  have "wrap_tcp_in_ip gni seg a = Inr (d, ?seg)"
    unfolding wrap_tcp_in_ip_def cfg addr_port_inet [OF gni] addr_ipv4_numeric_inet bindE_simps Let_def
      seg_between_def [symmetric] h bl(1)
    by (simp add: d_def dg_default_def)
  moreover have "ip_wf h" "ip_ttl h = DEFAULT_TTL" "ip_proto h = PROTO_TCP" "ip_src h = ip_A" "ip_dst h = ip_B"
    by (simp_all add: h_def ip_wf_def ip_default_def)
  moreover have "unat (ip_len h) = 4 * unat (ip_hlen h) + length (buffer_list_concatenate bl)"
    using n bl(2) by (simp add: h_def ip_default_def)
  ultimately show ?thesis using bl(3) by (intro exI [of _ d] exI [of _ c]) (simp add: d_def)
qed

lemma unwrap_connected:
  assumes cfg: "cfg_source (ad_config b) = inet ip_B port_B" "cfg_destination (ad_config b) = inet ip_A port_A"
    and gni: "numeric_names gni" and connected: "\<not> ad_listening b" and p: "dg_payload d = [p]"
    and seg: "seg_parse p (ip_pseudo_cksum (dg_header d)) seg_default = Inr (res, seg)"
  shows "unwrap_tcp_in_ip gai gni d b =
    (if ip_dst (dg_header d) = ip_B \<and> ip_src (dg_header d) = ip_A \<and> ip_proto (dg_header d) = PROTO_TCP \<and> res = NoError \<and>
        th_dport (seg_header seg) = port_B \<and> th_sport (seg_header seg) = port_A
     then Inr (Some seg, b) else Inr (None, b))"
  using connected seg p cfg addr_port_inet [OF gni]
  by (auto simp: unwrap_tcp_in_ip_def ad_accept_def buffer_list_to_buffer_def)

lemma unwrap_listening:
  assumes cfg: "cfg_source (ad_config b) = inet ip port_B" and gni: "numeric_names gni" and gai: "numeric_hosts gai"
    and listening: "ad_listening b" and p: "dg_payload d = [p]"
    and seg: "seg_parse p (ip_pseudo_cksum (dg_header d)) seg_default = Inr (res, seg)"
  shows "unwrap_tcp_in_ip gai gni d b =
    (if ip_proto (dg_header d) = PROTO_TCP \<and> res = NoError \<and> th_dport (seg_header seg) = port_B \<and>
        th_syn (seg_header seg) \<and> \<not> th_rst (seg_header seg)
     then Inr (Some seg, b\<lparr>ad_listen := False, ad_cfg := (ad_cfg b)\<lparr>cfg_source := inet (ip_dst (dg_header d)) port_B,
       cfg_destination := inet (ip_src (dg_header d)) (th_sport (seg_header seg))\<rparr>\<rparr>)
     else Inr (None, b))"
  using listening seg p cfg addr_port_inet [OF gni] addr_of_ip_dotted [OF gai]
  by (auto simp: unwrap_tcp_in_ip_def ad_accept_def buffer_list_to_buffer_def ad_config_def ad_set_listening_def)

subsection \<open>Properties\<close>

text \<open>
  C32. A segment crosses the network layer unharmed. A segment that fits into a datagram, wrapped
  by an adapter with the addresses \<open>A\<close> and \<open>B\<close>, gives a datagram that can be serialized and
  parsed; from the parsed datagram a connected adapter at \<open>B\<close> whose peer is \<open>A\<close> gets the
  segment back with the same payload and header (ports and checksum filled in), and an adapter
  listening on the port of \<open>B\<close> gets it exactly if it is a SYN without RST, and is then
  connected to \<open>A\<close>.
\<close>

theorem tcp_over_ip_roundtrip:
  assumes "numeric_names gni" and "numeric_hosts gai" and "seg_fits seg"
    and "cfg_source (ad_config a) = inet ip_A port_A" and "cfg_destination (ad_config a) = inet ip_B port_B"
  shows "\<exists>d bl d' c seg'. wrap_tcp_in_ip gni seg a = Inr (d, seg_between port_A port_B seg) \<and>
    dg_serialize d = Inr bl \<and> dg_parse (buffer_of (buffer_list_concatenate bl)) d0 = Inr (NoError, d') \<and>
    seg_header seg' = (seg_header (seg_between port_A port_B seg))\<lparr>th_cksum := c\<rparr> \<and>
    buffer_str (seg_payload seg') = buffer_str (seg_payload seg) \<and>
    (\<forall>b. \<not> ad_listening b \<and> cfg_source (ad_config b) = inet ip_B port_B \<and> cfg_destination (ad_config b) = inet ip_A port_A \<longrightarrow>
       unwrap_tcp_in_ip gai gni d' b = Inr (Some seg', b)) \<and>
    (\<forall>b ip. ad_listening b \<and> cfg_source (ad_config b) = inet ip port_B \<longrightarrow>
       unwrap_tcp_in_ip gai gni d' b =
         (if th_syn (seg_header seg) \<and> \<not> th_rst (seg_header seg)
          then Inr (Some seg', b\<lparr>ad_listen := False,
            ad_cfg := (ad_cfg b)\<lparr>cfg_source := inet ip_B port_B, cfg_destination := inet ip_A port_A\<rparr>\<rparr>)
          else Inr (None, b)))"
proof -
  from wrap_tcp_in_ip_ok [OF assms(4,5,1,3)] obtain d c where
    d: "wrap_tcp_in_ip gni seg a = Inr (d, seg_between port_A port_B seg)" "ip_wf (dg_header d)"
      "ip_proto (dg_header d) = PROTO_TCP" "ip_src (dg_header d) = ip_A" "ip_dst (dg_header d) = ip_B"
      "unat (ip_len (dg_header d)) = 4 * unat (ip_hlen (dg_header d)) + length (buffer_list_concatenate (dg_payload d))"
    and parse: "\<forall>b seg0. buffer_str b = buffer_list_concatenate (dg_payload d) \<longrightarrow>
      (\<exists>seg'. seg_parse b (ip_pseudo_cksum (dg_header d)) seg0 = Inr (NoError, seg') \<and>
        seg_header seg' = (seg_header (seg_between port_A port_B seg))\<lparr>th_cksum := c\<rparr> \<and>
        buffer_str (seg_payload seg') = buffer_str (seg_payload seg))"
    by (elim exE conjE) (rule that)
  from dg_serialized [OF d(2,6)] obtain bl c' d' where d': "dg_serialize d = Inr bl"
    "dg_parse (buffer_of (buffer_list_concatenate bl)) d0 = Inr (NoError, d')" "dg_header d' = (dg_header d)\<lparr>ip_cksum := c'\<rparr>"
    "buffer_list_concatenate (dg_payload d') = buffer_list_concatenate (dg_payload d)" by blast
  obtain p where p: "dg_payload d' = [p]" using dg_parse_payload [OF d'(2)] by blast
  with d'(4) have "buffer_str p = buffer_list_concatenate (dg_payload d)" by (simp add: buffer_list_concatenate_eq)
  with parse obtain seg' where seg': "seg_parse p (ip_pseudo_cksum (dg_header d)) seg_default = Inr (NoError, seg')"
    "seg_header seg' = (seg_header (seg_between port_A port_B seg))\<lparr>th_cksum := c\<rparr>"
    "buffer_str (seg_payload seg') = buffer_str (seg_payload seg)" by blast
  then have parsed: "seg_parse p (ip_pseudo_cksum (dg_header d')) seg_default = Inr (NoError, seg')" by (simp add: d'(3))
  have "unwrap_tcp_in_ip gai gni d' b = Inr (Some seg', b)"
    if "\<not> ad_listening b \<and> cfg_source (ad_config b) = inet ip_B port_B \<and> cfg_destination (ad_config b) = inet ip_A port_A" for b
    using that unwrap_connected [OF _ _ assms(1) _ p parsed] d seg'(2) by (simp add: d'(3))
  moreover have "unwrap_tcp_in_ip gai gni d' b =
         (if th_syn (seg_header seg) \<and> \<not> th_rst (seg_header seg)
          then Inr (Some seg', b\<lparr>ad_listen := False,
            ad_cfg := (ad_cfg b)\<lparr>cfg_source := inet ip_B port_B, cfg_destination := inet ip_A port_A\<rparr>\<rparr>)
          else Inr (None, b))" if "ad_listening b \<and> cfg_source (ad_config b) = inet ip port_B" for b ip
    using that unwrap_listening [OF _ assms(1,2) _ p parsed] d seg'(2) by (simp add: d'(3))
  ultimately show ?thesis using d(1) d'(1,2) seg'(2,3) by blast
qed

definition ad_example :: "bool \<Rightarrow> address \<Rightarrow> address \<Rightarrow> fd_adapter_base" where
  "ad_example listen source destination =
     \<lparr>ad_cfg = \<lparr>cfg_source = source, cfg_destination = destination, cfg_loss_rate_dn = 0, cfg_loss_rate_up = 0\<rparr>, ad_listen = listen\<rparr>"

theorem tcp_over_ip_roundtrip_witness:
  "let seg = \<lparr>seg_header = th_default\<lparr>th_syn := True\<rparr>, seg_payload = buffer_of [1, 2, 3]\<rparr>; a = ad_example False (inet 7 70) (inet 9 90)
   in \<exists>d bl d' c seg'. wrap_tcp_in_ip ipv4_names seg a = Inr (d, seg_between 70 90 seg) \<and>
    dg_serialize d = Inr bl \<and> dg_parse (buffer_of (buffer_list_concatenate bl)) dg_default = Inr (NoError, d') \<and>
    seg_header seg' = (seg_header (seg_between 70 90 seg))\<lparr>th_cksum := c\<rparr> \<and>
    buffer_str (seg_payload seg') = buffer_str (seg_payload seg) \<and>
    (\<forall>b. \<not> ad_listening b \<and> cfg_source (ad_config b) = inet 9 90 \<and> cfg_destination (ad_config b) = inet 7 70 \<longrightarrow>
       unwrap_tcp_in_ip ipv4_hosts ipv4_names d' b = Inr (Some seg', b)) \<and>
    (\<forall>b ip. ad_listening b \<and> cfg_source (ad_config b) = inet ip 90 \<longrightarrow>
       unwrap_tcp_in_ip ipv4_hosts ipv4_names d' b =
         (if th_syn (seg_header seg) \<and> \<not> th_rst (seg_header seg)
          then Inr (Some seg', b\<lparr>ad_listen := False,
            ad_cfg := (ad_cfg b)\<lparr>cfg_source := inet 9 90, cfg_destination := inet 7 70\<rparr>\<rparr>)
          else Inr (None, b)))"
  unfolding Let_def
  by (rule tcp_over_ip_roundtrip [OF numeric_names_ipv4 numeric_hosts_ipv4])
    (simp_all add: seg_fits_def th_wf_def th_default_def ad_example_def ad_config_def)

text \<open>
  C33. Only segments of the connection get through: on any datagram with a one-buffer payload (as
  \<^verbatim>\<open>IPv4Datagram::parse\<close> makes them), an adapter that is connected returns without an exception
  and stays as it is, and a segment it returns came from the peer's address and port, was sent
  to the adapter's own, in a datagram marked as TCP, and passed the checksum test.
\<close>

theorem unwrap_filters:
  assumes "numeric_names gni" and "\<not> ad_listening b" and "dg_payload d = [p]"
    and "cfg_source (ad_config b) = inet ip_B port_B" and "cfg_destination (ad_config b) = inet ip_A port_A"
  shows "\<exists>got. unwrap_tcp_in_ip gai gni d b = Inr (got, b) \<and>
    (case got of
       None \<Rightarrow> True
     | Some seg \<Rightarrow> ip_src (dg_header d) = ip_A \<and> ip_dst (dg_header d) = ip_B \<and> ip_proto (dg_header d) = PROTO_TCP \<and>
         th_sport (seg_header seg) = port_A \<and> th_dport (seg_header seg) = port_B \<and>
         ck_value (ck_add (buffer_str p) (ck_init (ip_pseudo_cksum (dg_header d)))) = 0)"
proof -
  obtain res seg where seg: "seg_parse p (ip_pseudo_cksum (dg_header d)) seg_default = Inr (res, seg)"
    using seg_parse_total [of p "ip_pseudo_cksum (dg_header d)" seg_default] by auto
  then have "res = NoError \<Longrightarrow> ck_value (ck_add (buffer_str p) (ck_init (ip_pseudo_cksum (dg_header d)))) = 0"
    by (auto simp: seg_parse_def Let_def split: if_splits)
  with unwrap_connected [OF assms(4,5,1,2,3) seg, of gai] show ?thesis by auto
qed

theorem unwrap_filters_witness:
  "let d = \<lparr>dg_header = ip_default, dg_payload = [buffer_of [1, 2, 3]]\<rparr>; b = ad_example False (inet 9 90) (inet 7 70)
   in \<exists>got. unwrap_tcp_in_ip ipv4_hosts ipv4_names d b = Inr (got, b) \<and>
    (case got of
       None \<Rightarrow> True
     | Some seg \<Rightarrow> ip_src (dg_header d) = 7 \<and> ip_dst (dg_header d) = 9 \<and> ip_proto (dg_header d) = PROTO_TCP \<and>
         th_sport (seg_header seg) = 70 \<and> th_dport (seg_header seg) = 90 \<and>
         ck_value (ck_add (buffer_str (buffer_of [1, 2, 3])) (ck_init (ip_pseudo_cksum (dg_header d)))) = 0)"
  unfolding Let_def
  by (rule unwrap_filters [OF numeric_names_ipv4]) (simp_all add: ad_example_def ad_config_def ad_listening_def)

end
