(* ===== verification/Sockets.thy ===== *)
theory Sockets
  imports File_Descriptor Address
begin

text \<open>
  Sockets and TUN/TAP devices: \<^verbatim>\<open>libsponge/util/socket.{hh,cc}\<close> and \<^verbatim>\<open>libsponge/util/tun.{hh,cc}\<close>.
  The system calls that only these use are a second record of parameters. A socket is the wrapper
  of its file descriptor.
\<close>

record 'w socket_calls =
  sk_socket :: "int \<Rightarrow> int \<Rightarrow> int \<Rightarrow> 'w \<Rightarrow> int \<times> 'w"
  sk_getsockopt :: "int \<Rightarrow> int \<Rightarrow> int \<Rightarrow> 'w \<Rightarrow> int \<times> int \<times> nat \<times> 'w"
  sk_setsockopt :: "int \<Rightarrow> int \<Rightarrow> int \<Rightarrow> int \<Rightarrow> 'w \<Rightarrow> int \<times> 'w"
  sk_getsockname :: "int \<Rightarrow> 'w \<Rightarrow> int \<times> bytes \<times> 'w"
  sk_getpeername :: "int \<Rightarrow> 'w \<Rightarrow> int \<times> bytes \<times> 'w"
  sk_bind :: "int \<Rightarrow> bytes \<Rightarrow> 'w \<Rightarrow> int \<times> 'w"
  sk_connect :: "int \<Rightarrow> bytes \<Rightarrow> 'w \<Rightarrow> int \<times> 'w"
  sk_listen :: "int \<Rightarrow> int \<Rightarrow> 'w \<Rightarrow> int \<times> 'w"
  sk_accept :: "int \<Rightarrow> 'w \<Rightarrow> int \<times> 'w"
  sk_recvfrom :: "int \<Rightarrow> nat \<Rightarrow> 'w \<Rightarrow> int \<times> bytes \<times> bytes \<times> 'w"
  sk_sendmsg :: "int \<Rightarrow> bytes \<Rightarrow> (bytes \<times> nat) list \<Rightarrow> 'w \<Rightarrow> int \<times> 'w"
  sk_socketpair :: "int \<Rightarrow> int \<Rightarrow> 'w \<Rightarrow> int \<times> int \<times> int \<times> 'w"
  sk_open :: "string \<Rightarrow> 'w \<Rightarrow> int \<times> 'w"
  sk_tunsetiff :: "int \<Rightarrow> u16 \<Rightarrow> bytes \<Rightarrow> 'w \<Rightarrow> int \<times> 'w"

definition AF_UNIX_int :: int where "AF_UNIX_int = 1"
definition AF_INET_int :: int where "AF_INET_int = 2"
definition SOCK_STREAM :: int where "SOCK_STREAM = 1"
definition SOCK_DGRAM :: int where "SOCK_DGRAM = 2"
definition SOL_SOCKET :: int where "SOL_SOCKET = 1"
definition SO_REUSEADDR :: int where "SO_REUSEADDR = 2"
definition SO_TYPE :: int where "SO_TYPE = 3"
definition SO_DOMAIN :: int where "SO_DOMAIN = 39"

subsection \<open>Construction\<close>

definition sock_open :: "'w posix \<Rightarrow> 'w socket_calls \<Rightarrow> int \<Rightarrow> int \<Rightarrow> 'w \<Rightarrow> (fd_wrapper \<times> 'w) result" where
  "sock_open sys net domain type w =
     (let (ret, w) = sk_socket net domain type 0 w in
      bindE (SystemCall ''socket'' ret (px_errno sys w) 0) (\<lambda>fd.
      bindE (fdw_init fd) (\<lambda>f. Inr (f, w))))"

text \<open>One of the two checks of a descriptor that is turned into a socket.\<close>

definition sock_verify ::
  "'w posix \<Rightarrow> 'w socket_calls \<Rightarrow> int \<Rightarrow> int \<Rightarrow> string \<Rightarrow> fd_wrapper \<Rightarrow> 'w \<Rightarrow> 'w result" where
  "sock_verify sys net option expected mismatch f w =
     (let (ret, actual_value, len, w) = sk_getsockopt net (fd_num f) SOL_SOCKET option w in
      bindE (SystemCall ''getsockopt'' ret (px_errno sys w) 0) (\<lambda>_.
        if len \<noteq> 4 \<or> actual_value \<noteq> expected then Inl (Runtime_error mismatch) else Inr w))"

definition sock_of_fd ::
  "'w posix \<Rightarrow> 'w socket_calls \<Rightarrow> fd_wrapper \<Rightarrow> int \<Rightarrow> int \<Rightarrow> 'w \<Rightarrow> (fd_wrapper \<times> 'w) result" where
  "sock_of_fd sys net f domain type w =
     bindE (sock_verify sys net SO_DOMAIN domain ''socket domain mismatch'' f w) (\<lambda>w.
     bindE (sock_verify sys net SO_TYPE type ''socket type mismatch'' f w) (\<lambda>w. Inr (f, w)))"

subsection \<open>Addresses\<close>

definition sock_get_address ::
  "'w posix \<Rightarrow> string \<Rightarrow> (int \<Rightarrow> 'w \<Rightarrow> int \<times> bytes \<times> 'w) \<Rightarrow> fd_wrapper \<Rightarrow> 'w \<Rightarrow> (address \<times> 'w) result" where
  "sock_get_address sys name_of_function call f w =
     (let (ret, addr, w) = call (fd_num f) w in
      bindE (SystemCall name_of_function ret (px_errno sys w) 0) (\<lambda>_.
      bindE (addr_of_sockaddr addr) (\<lambda>a. Inr (a, w))))"

definition sock_local_address :: "'w posix \<Rightarrow> 'w socket_calls \<Rightarrow> fd_wrapper \<Rightarrow> 'w \<Rightarrow> (address \<times> 'w) result" where
  "sock_local_address sys net = sock_get_address sys ''getsockname'' (sk_getsockname net)"

definition sock_peer_address :: "'w posix \<Rightarrow> 'w socket_calls \<Rightarrow> fd_wrapper \<Rightarrow> 'w \<Rightarrow> (address \<times> 'w) result" where
  "sock_peer_address sys net = sock_get_address sys ''getpeername'' (sk_getpeername net)"

definition sockaddr_of :: "address \<Rightarrow> bytes" where
  "sockaddr_of a = take (addr_size a) (addr_storage a)"

definition sock_bind :: "'w posix \<Rightarrow> 'w socket_calls \<Rightarrow> address \<Rightarrow> fd_wrapper \<Rightarrow> 'w \<Rightarrow> 'w result" where
  "sock_bind sys net address f w =
     (let (ret, w) = sk_bind net (fd_num f) (sockaddr_of address) w in
      bindE (SystemCall ''bind'' ret (px_errno sys w) 0) (\<lambda>_. Inr w))"

definition sock_connect :: "'w posix \<Rightarrow> 'w socket_calls \<Rightarrow> address \<Rightarrow> fd_wrapper \<Rightarrow> 'w \<Rightarrow> 'w result" where
  "sock_connect sys net address f w =
     (let (ret, w) = sk_connect net (fd_num f) (sockaddr_of address) w in
      bindE (SystemCall ''connect'' ret (px_errno sys w) 0) (\<lambda>_. Inr w))"

subsection \<open>Shutdown\<close>

definition SHUT_RD :: int where "SHUT_RD = 0"
definition SHUT_WR :: int where "SHUT_WR = 1"
definition SHUT_RDWR :: int where "SHUT_RDWR = 2"

definition sock_shutdown :: "'w posix \<Rightarrow> int \<Rightarrow> fd_wrapper \<Rightarrow> 'w \<Rightarrow> (fd_wrapper \<times> 'w) result" where
  "sock_shutdown sys how f w =
     (let (ret, w) = px_shutdown sys (fd_num f) how w in
      bindE (SystemCall ''shutdown'' ret (px_errno sys w) 0) (\<lambda>_.
        if how = SHUT_RD then Inr (fd_register_read f, w)
        else if how = SHUT_WR then Inr (fd_register_write f, w)
        else if how = SHUT_RDWR then Inr (fd_register_write (fd_register_read f), w)
        else Inl (Runtime_error ''Socket::shutdown() called with invalid `how`'')))"

subsection \<open>UDP\<close>

record received_datagram =
  rd_source_address :: address
  rd_payload :: bytes

definition udp_recv_into ::
  "'w posix \<Rightarrow> 'w socket_calls \<Rightarrow> u64 \<Rightarrow> received_datagram \<Rightarrow> fd_wrapper \<Rightarrow> 'w \<Rightarrow>
   (received_datagram \<times> fd_wrapper \<times> 'w) result" where
  "udp_recv_into sys net mtu datagram f w =
     bindE (string_resize mtu (rd_payload datagram)) (\<lambda>payload.
     let (ret, stored, from, w) = sk_recvfrom net (fd_num f) (length payload) w in
     bindE (SystemCall ''recvfrom'' ret (px_errno sys w) 0) (\<lambda>recv_len.
     let payload = stored @ drop (length stored) payload in
     if recv_len > sint mtu then Inl (Runtime_error ''recvfrom (oversized datagram)'')
     else
       let f = fd_register_read f in
       bindE (addr_of_sockaddr from) (\<lambda>source_address.
       bindE (string_resize (size_of_int recv_len) payload) (\<lambda>payload.
         Inr (\<lparr>rd_source_address = source_address, rd_payload = payload\<rparr>, f, w)))))"

definition udp_recv ::
  "'w posix \<Rightarrow> 'w socket_calls \<Rightarrow> u64 \<Rightarrow> fd_wrapper \<Rightarrow> 'w \<Rightarrow> (received_datagram \<times> fd_wrapper \<times> 'w) result" where
  "udp_recv sys net mtu f w =
     bindE (addr_of_sockaddr []) (\<lambda>none.
       udp_recv_into sys net mtu \<lparr>rd_source_address = none, rd_payload = []\<rparr> f w)"

definition sendmsg_helper ::
  "'w posix \<Rightarrow> 'w socket_calls \<Rightarrow> int \<Rightarrow> bytes \<Rightarrow> buffer_view_list \<Rightarrow> 'w \<Rightarrow> 'w result" where
  "sendmsg_helper sys net fd destination_address payload w =
     (let (ret, w) = sk_sendmsg net fd destination_address (view_list_as_iovecs payload) w in
      bindE (SystemCall ''sendmsg'' ret (px_errno sys w) 0) (\<lambda>bytes_sent.
        if size_of_int bytes_sent \<noteq> of_nat (view_list_size payload)
        then Inl (Runtime_error ''datagram payload too big for sendmsg()'')
        else Inr w))"

definition udp_sendto ::
  "'w posix \<Rightarrow> 'w socket_calls \<Rightarrow> address \<Rightarrow> buffer_view_list \<Rightarrow> fd_wrapper \<Rightarrow> 'w \<Rightarrow> (fd_wrapper \<times> 'w) result" where
  "udp_sendto sys net destination payload f w =
     bindE (sendmsg_helper sys net (fd_num f) (sockaddr_of destination) payload w) (\<lambda>w. Inr (fd_register_write f, w))"

definition udp_send ::
  "'w posix \<Rightarrow> 'w socket_calls \<Rightarrow> buffer_view_list \<Rightarrow> fd_wrapper \<Rightarrow> 'w \<Rightarrow> (fd_wrapper \<times> 'w) result" where
  "udp_send sys net payload f w =
     bindE (sendmsg_helper sys net (fd_num f) [] payload w) (\<lambda>w. Inr (fd_register_write f, w))"

subsection \<open>TCP sockets of the kernel\<close>

definition tcpsock_listen :: "'w posix \<Rightarrow> 'w socket_calls \<Rightarrow> int \<Rightarrow> fd_wrapper \<Rightarrow> 'w \<Rightarrow> 'w result" where
  "tcpsock_listen sys net backlog f w =
     (let (ret, w) = sk_listen net (fd_num f) backlog w in
      bindE (SystemCall ''listen'' ret (px_errno sys w) 0) (\<lambda>_. Inr w))"

text \<open>\<^verbatim>\<open>accept\<close> returns the new socket and the old one with its read counted.\<close>

definition tcpsock_accept ::
  "'w posix \<Rightarrow> 'w socket_calls \<Rightarrow> fd_wrapper \<Rightarrow> 'w \<Rightarrow> (fd_wrapper \<times> fd_wrapper \<times> 'w) result" where
  "tcpsock_accept sys net f w =
     (let f = fd_register_read f; (ret, w) = sk_accept net (fd_num f) w in
      bindE (SystemCall ''accept'' ret (px_errno sys w) 0) (\<lambda>fd.
      bindE (fdw_init fd) (\<lambda>new.
      bindE (sock_of_fd sys net new AF_INET_int SOCK_STREAM w) (\<lambda>(new, w). Inr (new, f, w)))))"

definition sock_setsockopt :: "'w posix \<Rightarrow> 'w socket_calls \<Rightarrow> int \<Rightarrow> int \<Rightarrow> int \<Rightarrow> fd_wrapper \<Rightarrow> 'w \<Rightarrow> 'w result" where
  "sock_setsockopt sys net level option option_value f w =
     (let (ret, w) = sk_setsockopt net (fd_num f) level option option_value w in
      bindE (SystemCall ''setsockopt'' ret (px_errno sys w) 0) (\<lambda>_. Inr w))"

definition sock_set_reuseaddr :: "'w posix \<Rightarrow> 'w socket_calls \<Rightarrow> fd_wrapper \<Rightarrow> 'w \<Rightarrow> 'w result" where
  "sock_set_reuseaddr sys net f w = sock_setsockopt sys net SOL_SOCKET SO_REUSEADDR 1 f w"

subsection \<open>TUN and TAP devices\<close>

definition IFF_TUN :: u16 where "IFF_TUN = 0x1"
definition IFF_TAP :: u16 where "IFF_TAP = 0x2"
definition IFF_NO_PI :: u16 where "IFF_NO_PI = 0x1000"
definition IFNAMSIZ :: nat where "IFNAMSIZ = 16"

text \<open>\<^verbatim>\<open>strncpy\<close> of at most 15 bytes, up to the first zero byte, into a zeroed field of 16.\<close>

definition ifr_name_of :: "string \<Rightarrow> bytes" where
  "ifr_name_of devname =
     (let name = take (IFNAMSIZ - 1) (takeWhile (\<lambda>c. c \<noteq> 0) (map of_char devname))
      in name @ replicate (IFNAMSIZ - length name) 0)"

definition tuntap_open :: "'w posix \<Rightarrow> 'w socket_calls \<Rightarrow> string \<Rightarrow> bool \<Rightarrow> 'w \<Rightarrow> (fd_wrapper \<times> 'w) result" where
  "tuntap_open sys net devname is_tun w =
     (let (ret, w) = sk_open net ''/dev/net/tun'' w in
      bindE (SystemCall ''open'' ret (px_errno sys w) 0) (\<lambda>fd.
      bindE (fdw_init fd) (\<lambda>f.
      let flags = (if is_tun then IFF_TUN else IFF_TAP) OR IFF_NO_PI;
          (ret, w) = sk_tunsetiff net (fd_num f) flags (ifr_name_of devname) w
      in bindE (SystemCall ''ioctl'' ret (px_errno sys w) 0) (\<lambda>_. Inr (f, w)))))"

lemma ifr_name_terminated: "length (ifr_name_of devname) = IFNAMSIZ \<and> ifr_name_of devname ! 15 = 0"
  by (simp add: ifr_name_of_def IFNAMSIZ_def Let_def nth_append)

lemma sock_shutdown_ok:
  assumes "posix_io sys t" and "how \<in> {SHUT_RD, SHUT_WR, SHUT_RDWR}"
  shows "outcome (\<lambda>e. e = Runtime_error ''shutdown'')
    (\<lambda>(f', w'). quiet t w w' \<and> fdw_fd f' = fdw_fd f \<and> fdw_eof f' = fdw_eof f \<and>
        fdw_write_count f' = fdw_write_count f + (if how = SHUT_RD then 0 else 1)) (sock_shutdown sys how f w)"
proof -
  obtain ret w' where r: "px_shutdown sys (fdw_fd f) how w = (ret, w')" by (cases "px_shutdown sys (fdw_fd f) how w")
  have "quiet t w (snd (px_shutdown sys (fdw_fd f) how w))" using assms(1) unfolding posix_io_def by blast
  with r assms(2) show ?thesis
    by (auto simp: sock_shutdown_def SystemCall_def fd_num_def fd_register_read_def fd_register_write_def SHUT_RD_def SHUT_WR_def
        SHUT_RDWR_def)
qed

end
