(* ===== verification/Adapters.thy ===== *)
theory Adapters
  imports Network_Interface TCP_Over_IP Sockets
begin

text \<open>
  The adapters between TCP and the outside world: \<^verbatim>\<open>TCPOverUDPSocketAdapter\<close>
  (\<^verbatim>\<open>libsponge/tcp_helpers/fd_adapter.{hh,cc}\<close>), \<^verbatim>\<open>TCPOverIPv4OverTunFdAdapter\<close> and
  \<^verbatim>\<open>TCPOverIPv4OverEthernetAdapter\<close> (\<^verbatim>\<open>tuntap_adapter.{hh,cc}\<close>), and the template
  \<^verbatim>\<open>LossyFdAdapter\<close> (\<^verbatim>\<open>lossy_fd_adapter.hh\<close>). The device is outside the model: what a read returns
  is an argument of \<^verbatim>\<open>read\<close>, and what is written is part of the result. The template is modelled
  by functions that take the operations of the adapter as arguments; the locale \<open>fd_adapter\<close> is
  the interface they rely on, and each of the three adapters provides it.
\<close>

subsection \<open>UDP\<close>

definition udp_read ::
  "received_datagram \<Rightarrow> fd_adapter_base \<Rightarrow> (tcp_segment option \<times> (address \<times> buffer_list) list \<times> fd_adapter_base) result" where
  "udp_read datagram a =
     (if \<not> ad_listening a \<and> addr_neq (rd_source_address datagram) (cfg_destination (ad_config a)) then Inr (None, [], a)
      else bindE (seg_parse (buffer_of (rd_payload datagram)) 0 seg_default) (\<lambda>(res, seg).
        if res \<noteq> NoError then Inr (None, [], a)
        else if ad_listening a then
          if th_syn (seg_header seg) \<and> \<not> th_rst (seg_header seg) then
            Inr (Some seg, [], ad_set_listening False
              (a\<lparr>ad_cfg := (ad_cfg a)\<lparr>cfg_destination := rd_source_address datagram\<rparr>\<rparr>))
          else Inr (None, [], a)
        else Inr (Some seg, [], a)))"

definition udp_write ::
  "getnameinfo \<Rightarrow> tcp_segment \<Rightarrow> fd_adapter_base \<Rightarrow> ((address \<times> buffer_list) list \<times> tcp_segment \<times> fd_adapter_base) result" where
  "udp_write gni seg a =
     bindE (addr_port gni (cfg_source (ad_config a))) (\<lambda>sport.
     bindE (addr_port gni (cfg_destination (ad_config a))) (\<lambda>dport.
       let seg = seg\<lparr>seg_header := (seg_header seg)\<lparr>th_sport := sport, th_dport := dport\<rparr>\<rparr> in
       bindE (seg_serialize 0 seg) (\<lambda>payload.
         Inr ([(cfg_destination (ad_config a), payload)], seg, a))))"

subsection \<open>IPv4 over a TUN device\<close>

definition tun_read ::
  "getaddrinfo \<Rightarrow> getnameinfo \<Rightarrow> bytes \<Rightarrow> fd_adapter_base \<Rightarrow> (tcp_segment option \<times> buffer_list list \<times> fd_adapter_base) result" where
  "tun_read gai gni input a =
     bindE (dg_parse (buffer_of input) dg_default) (\<lambda>(res, ip_dgram).
       if res \<noteq> NoError then Inr (None, [], a)
       else bindE (unwrap_tcp_in_ip gai gni ip_dgram a) (\<lambda>(seg, a). Inr (seg, [], a)))"

definition tun_write ::
  "getnameinfo \<Rightarrow> tcp_segment \<Rightarrow> fd_adapter_base \<Rightarrow> (buffer_list list \<times> tcp_segment \<times> fd_adapter_base) result" where
  "tun_write gni seg a =
     bindE (wrap_tcp_in_ip gni seg a) (\<lambda>(ip_dgram, seg).
     bindE (dg_serialize ip_dgram) (\<lambda>bl. Inr ([bl], seg, a)))"

subsection \<open>IPv4 over Ethernet on a TAP device\<close>

record eth_adapter =
  ea_base :: fd_adapter_base
  ea_interface :: network_interface
  ea_next_hop :: address

definition ea_init :: "fd_adapter_base \<Rightarrow> ethernet_address \<Rightarrow> address \<Rightarrow> address \<Rightarrow> buffer_list list \<times> eth_adapter" where
  "ea_init base eth_address ip_address next_hop =
     ([ef_serialize ef_default],
      \<lparr>ea_base = base, ea_interface = ni_init eth_address ip_address, ea_next_hop = next_hop\<rparr>)"

fun ea_send_frames :: "ethernet_frame list \<Rightarrow> buffer_list list \<Rightarrow> network_interface \<Rightarrow> buffer_list list \<times> network_interface" where
  "ea_send_frames [] out ni = (out, ni)"
| "ea_send_frames (f # fs) out ni = ea_send_frames fs (out @ [ef_serialize f]) (ni\<lparr>ni_frames_out := fs\<rparr>)"

definition ea_send_pending :: "eth_adapter \<Rightarrow> buffer_list list \<times> eth_adapter" where
  "ea_send_pending ea =
     (let (out, ni) = ea_send_frames (ni_frames_out (ea_interface ea)) [] (ea_interface ea)
      in (out, ea\<lparr>ea_interface := ni\<rparr>))"

definition ea_read ::
  "getaddrinfo \<Rightarrow> getnameinfo \<Rightarrow> bytes \<Rightarrow> eth_adapter \<Rightarrow> (tcp_segment option \<times> buffer_list list \<times> eth_adapter) result" where
  "ea_read gai gni input ea =
     bindE (ef_parse (buffer_of input) ef_default) (\<lambda>(res, frame).
       if res \<noteq> NoError then Inr (None, [], ea)
       else bindE (ni_recv_frame frame (ea_interface ea)) (\<lambda>(ip_dgram, ni).
         let (out, ea) = ea_send_pending (ea\<lparr>ea_interface := ni\<rparr>) in
         case ip_dgram of
           None \<Rightarrow> Inr (None, out, ea)
         | Some d \<Rightarrow> bindE (unwrap_tcp_in_ip gai gni d (ea_base ea)) (\<lambda>(seg, base). Inr (seg, out, ea\<lparr>ea_base := base\<rparr>))))"

definition ea_tick :: "u64 \<Rightarrow> eth_adapter \<Rightarrow> buffer_list list \<times> eth_adapter" where
  "ea_tick ms_since_last_tick ea =
     ea_send_pending (ea\<lparr>ea_interface := ni_tick ms_since_last_tick (ea_interface ea)\<rparr>)"

definition ea_write ::
  "getnameinfo \<Rightarrow> tcp_segment \<Rightarrow> eth_adapter \<Rightarrow> (buffer_list list \<times> tcp_segment \<times> eth_adapter) result" where
  "ea_write gni seg ea =
     bindE (wrap_tcp_in_ip gni seg (ea_base ea)) (\<lambda>(ip_dgram, seg).
     bindE (ni_send_datagram ip_dgram (ea_next_hop ea) (ea_interface ea)) (\<lambda>ni.
       let (out, ea) = ea_send_pending (ea\<lparr>ea_interface := ni\<rparr>) in Inr (out, seg, ea)))"

text \<open>What the class inherits from its base.\<close>

definition ea_config :: "eth_adapter \<Rightarrow> fd_adapter_config" where
  "ea_config ea = ad_config (ea_base ea)"

definition ea_set_listening :: "bool \<Rightarrow> eth_adapter \<Rightarrow> eth_adapter" where
  "ea_set_listening l ea = ea\<lparr>ea_base := ad_set_listening l (ea_base ea)\<rparr>"

text \<open>Assignments through the reference that \<^verbatim>\<open>config_mut\<close> returns.\<close>

definition ad_set_config :: "fd_adapter_config \<Rightarrow> fd_adapter_base \<Rightarrow> fd_adapter_base" where
  "ad_set_config cfg a = a\<lparr>ad_cfg := cfg\<rparr>"

definition ea_set_config :: "fd_adapter_config \<Rightarrow> eth_adapter \<Rightarrow> eth_adapter" where
  "ea_set_config cfg ea = ea\<lparr>ea_base := ad_set_config cfg (ea_base ea)\<rparr>"

definition base_tick :: "u64 \<Rightarrow> fd_adapter_base \<Rightarrow> 'o list \<times> fd_adapter_base" where
  "base_tick ms a = ([], ad_tick ms a)"

subsection \<open>Random loss\<close>

text \<open>The generator \<^verbatim>\<open>mt19937\<close> is the argument \<open>rand\<close>, a function from its state to a number and the next state.\<close>

record ('a, 'g) lossy_fd_adapter =
  lo_rand :: 'g
  lo_adapter :: 'a

definition lo_should_drop ::
  "('g \<Rightarrow> u32 \<times> 'g) \<Rightarrow> ('a \<Rightarrow> fd_adapter_config) \<Rightarrow> bool \<Rightarrow> ('a, 'g) lossy_fd_adapter \<Rightarrow> bool \<times> ('a, 'g) lossy_fd_adapter" where
  "lo_should_drop rand config uplink lo =
     (let cfg = config (lo_adapter lo);
          loss = (if uplink then cfg_loss_rate_up cfg else cfg_loss_rate_dn cfg)
      in if loss \<noteq> 0 then
           let (r, g) = rand (lo_rand lo) in ((ucast r :: u16) < loss, lo\<lparr>lo_rand := g\<rparr>)
         else (False, lo))"

definition lo_read ::
  "('g \<Rightarrow> u32 \<times> 'g) \<Rightarrow> ('a \<Rightarrow> fd_adapter_config) \<Rightarrow> ('i \<Rightarrow> 'a \<Rightarrow> (tcp_segment option \<times> 'o list \<times> 'a) result) \<Rightarrow>
   'i \<Rightarrow> ('a, 'g) lossy_fd_adapter \<Rightarrow> (tcp_segment option \<times> 'o list \<times> ('a, 'g) lossy_fd_adapter) result" where
  "lo_read rand config rd input lo =
     bindE (rd input (lo_adapter lo)) (\<lambda>(ret, out, a).
       let (dropped, lo) = lo_should_drop rand config False (lo\<lparr>lo_adapter := a\<rparr>)
       in if dropped then Inr (None, out, lo) else Inr (ret, out, lo))"

definition lo_write ::
  "('g \<Rightarrow> u32 \<times> 'g) \<Rightarrow> ('a \<Rightarrow> fd_adapter_config) \<Rightarrow> (tcp_segment \<Rightarrow> 'a \<Rightarrow> ('o list \<times> tcp_segment \<times> 'a) result) \<Rightarrow>
   tcp_segment \<Rightarrow> ('a, 'g) lossy_fd_adapter \<Rightarrow> ('o list \<times> tcp_segment \<times> ('a, 'g) lossy_fd_adapter) result" where
  "lo_write rand config wr seg lo =
     (let (dropped, lo) = lo_should_drop rand config True lo in
      if dropped then Inr ([], seg, lo)
      else bindE (wr seg (lo_adapter lo)) (\<lambda>(out, seg, a). Inr (out, seg, lo\<lparr>lo_adapter := a\<rparr>)))"

definition lo_tick :: "(u64 \<Rightarrow> 'a \<Rightarrow> 'o list \<times> 'a) \<Rightarrow> u64 \<Rightarrow> ('a, 'g) lossy_fd_adapter \<Rightarrow> 'o list \<times> ('a, 'g) lossy_fd_adapter" where
  "lo_tick tick ms lo = (let (out, a) = tick ms (lo_adapter lo) in (out, lo\<lparr>lo_adapter := a\<rparr>))"

definition lo_set_listening :: "(bool \<Rightarrow> 'a \<Rightarrow> 'a) \<Rightarrow> bool \<Rightarrow> ('a, 'g) lossy_fd_adapter \<Rightarrow> ('a, 'g) lossy_fd_adapter" where
  "lo_set_listening set_listening l lo = lo\<lparr>lo_adapter := set_listening l (lo_adapter lo)\<rparr>"

definition lo_set_config ::
  "(fd_adapter_config \<Rightarrow> 'a \<Rightarrow> 'a) \<Rightarrow> fd_adapter_config \<Rightarrow> ('a, 'g) lossy_fd_adapter \<Rightarrow> ('a, 'g) lossy_fd_adapter" where
  "lo_set_config set_config cfg lo = lo\<lparr>lo_adapter := set_config cfg (lo_adapter lo)\<rparr>"

definition lo_config :: "('a \<Rightarrow> fd_adapter_config) \<Rightarrow> ('a, 'g) lossy_fd_adapter \<Rightarrow> fd_adapter_config" where
  "lo_config config lo = config (lo_adapter lo)"

subsection \<open>Runs\<close>

datatype 'i fd_op =
    Fd_read 'i
  | Fd_write tcp_segment
  | Fd_tick u64
  | Fd_set_listening bool

fun fd_step ::
  "('i \<Rightarrow> 'a \<Rightarrow> (tcp_segment option \<times> 'o list \<times> 'a) result) \<Rightarrow> (tcp_segment \<Rightarrow> 'a \<Rightarrow> ('o list \<times> tcp_segment \<times> 'a) result) \<Rightarrow>
   (u64 \<Rightarrow> 'a \<Rightarrow> 'o list \<times> 'a) \<Rightarrow> (bool \<Rightarrow> 'a \<Rightarrow> 'a) \<Rightarrow> 'i fd_op \<Rightarrow> 'a \<Rightarrow> (tcp_segment list \<times> 'o list \<times> 'a) result" where
  "fd_step rd wr tick listen (Fd_read input) a =
     bindE (rd input a) (\<lambda>(seg, out, a). Inr (case seg of None \<Rightarrow> [] | Some s \<Rightarrow> [s], out, a))"
| "fd_step rd wr tick listen (Fd_write seg) a = bindE (wr seg a) (\<lambda>(out, _, a). Inr ([], out, a))"
| "fd_step rd wr tick listen (Fd_tick ms) a = (let (out, a) = tick ms a in Inr ([], out, a))"
| "fd_step rd wr tick listen (Fd_set_listening l) a = Inr ([], [], listen l a)"

fun fd_run ::
  "('i \<Rightarrow> 'a \<Rightarrow> (tcp_segment option \<times> 'o list \<times> 'a) result) \<Rightarrow> (tcp_segment \<Rightarrow> 'a \<Rightarrow> ('o list \<times> tcp_segment \<times> 'a) result) \<Rightarrow>
   (u64 \<Rightarrow> 'a \<Rightarrow> 'o list \<times> 'a) \<Rightarrow> (bool \<Rightarrow> 'a \<Rightarrow> 'a) \<Rightarrow> 'i fd_op list \<Rightarrow> 'a \<Rightarrow> (tcp_segment list \<times> 'o list \<times> 'a) result" where
  "fd_run rd wr tick listen [] a = Inr ([], [], a)"
| "fd_run rd wr tick listen (x # xs) a =
     bindE (fd_step rd wr tick listen x a) (\<lambda>(segs, out, a).
     bindE (fd_run rd wr tick listen xs a) (\<lambda>(segs', out', a). Inr (segs @ segs', out @ out', a)))"

definition fd_rates :: "fd_adapter_config \<Rightarrow> u16 \<times> u16" where
  "fd_rates cfg = (cfg_loss_rate_dn cfg, cfg_loss_rate_up cfg)"

text \<open>The interface of an adapter, as the lossy wrapper relies on it: no operation changes the loss rates.\<close>

locale fd_adapter =
  fixes rd :: "'i \<Rightarrow> 'a \<Rightarrow> (tcp_segment option \<times> 'o list \<times> 'a) result"
    and wr :: "tcp_segment \<Rightarrow> 'a \<Rightarrow> ('o list \<times> tcp_segment \<times> 'a) result"
    and tick :: "u64 \<Rightarrow> 'a \<Rightarrow> 'o list \<times> 'a" and listen :: "bool \<Rightarrow> 'a \<Rightarrow> 'a" and config :: "'a \<Rightarrow> fd_adapter_config"
  assumes rd_rates: "rd input a = Inr (seg, out, a') \<Longrightarrow> fd_rates (config a') = fd_rates (config a)"
    and wr_rates: "wr s a = Inr (out, s', a') \<Longrightarrow> fd_rates (config a') = fd_rates (config a)"
    and tick_rates: "fd_rates (config (snd (tick ms a))) = fd_rates (config a)"
    and listen_rates: "fd_rates (config (listen l a)) = fd_rates (config a)"
begin

lemma step_rates: "fd_step rd wr tick listen x a = Inr (segs, out, a') \<Longrightarrow> fd_rates (config a') = fd_rates (config a)"
proof (cases x)
  case (Fd_tick ms)
  then show "fd_step rd wr tick listen x a = Inr (segs, out, a') \<Longrightarrow> fd_rates (config a') = fd_rates (config a)"
    using tick_rates [of ms a] by (simp split: prod.splits)
qed (auto simp: bindE_eq_Inr_iff rd_rates wr_rates listen_rates)

lemma no_drop: "fd_rates (config (lo_adapter lo)) = (0, 0) \<Longrightarrow> lo_should_drop rand config up lo = (False, lo)"
  by (simp add: lo_should_drop_def fd_rates_def Let_def)

lemma lossless_step:
  assumes "fd_rates (config (lo_adapter lo)) = (0, 0)"
  shows "fd_step (lo_read rand config rd) (lo_write rand config wr) (lo_tick tick) (lo_set_listening listen) x lo =
    bindE (fd_step rd wr tick listen x (lo_adapter lo)) (\<lambda>(segs, out, a). Inr (segs, out, lo\<lparr>lo_adapter := a\<rparr>))"
proof (cases x)
  case (Fd_read input)
  have "lo_should_drop rand config False (lo\<lparr>lo_adapter := a\<rparr>) = (False, lo\<lparr>lo_adapter := a\<rparr>)"
    if "rd input (lo_adapter lo) = Inr (seg, out, a)" for seg out a
    using rd_rates [OF that] assms by (intro no_drop) simp
  with Fd_read show ?thesis by (cases "rd input (lo_adapter lo)") (auto simp: lo_read_def)
next
  case (Fd_write seg)
  with assms show ?thesis by (cases "wr seg (lo_adapter lo)") (auto simp: lo_write_def no_drop)
qed (simp_all add: lo_tick_def lo_set_listening_def split: prod.split)

lemma lossless:
  assumes "fd_rates (config (lo_adapter lo)) = (0, 0)"
  shows "fd_run (lo_read rand config rd) (lo_write rand config wr) (lo_tick tick) (lo_set_listening listen) ops lo =
    bindE (fd_run rd wr tick listen ops (lo_adapter lo)) (\<lambda>(segs, out, a). Inr (segs, out, lo\<lparr>lo_adapter := a\<rparr>))"
  using assms
proof (induction ops arbitrary: lo)
  case (Cons x ops)
  show ?case
  proof (cases "fd_step rd wr tick listen x (lo_adapter lo)")
    case (Inl e)
    then show ?thesis by (simp add: lossless_step [OF Cons.prems])
  next
    case (Inr r)
    obtain segs out a where r: "r = (segs, out, a)" by (cases r)
    have "fd_rates (config a) = (0, 0)" using step_rates [of x "lo_adapter lo"] Inr r Cons.prems by simp
    then show ?thesis
      using Cons.IH [of "lo\<lparr>lo_adapter := a\<rparr>"] Inr r
      by (cases "fd_run rd wr tick listen ops a") (auto simp: lossless_step [OF Cons.prems])
  qed
qed simp

end

text \<open>Adapters whose state a write does not change: dropping a write then only loses its output.\<close>

locale plain_writer = fd_adapter +
  assumes wr_same: "wr s a = Inr (out, s', a') \<Longrightarrow> a' = a"
begin

lemma lossy_step:
  assumes "fd_step rd wr tick listen x (lo_adapter lo) = Inr (segs, out, a)"
  shows "\<exists>segs' out' lo'. fd_step (lo_read rand config rd) (lo_write rand config wr) (lo_tick tick) (lo_set_listening listen) x lo =
      Inr (segs', out', lo') \<and> subseq segs' segs \<and> subseq out' out \<and> lo_adapter lo' = a"
proof -
  have keep: "lo_adapter (snd (lo_should_drop rand config up lo)) = lo_adapter lo" for up and lo
    by (simp add: lo_should_drop_def Let_def split: prod.split)
  show ?thesis
  proof (cases x)
    case (Fd_read input)
    with assms obtain seg where rd: "rd input (lo_adapter lo) = Inr (seg, out, a)"
      and segs: "segs = (case seg of None \<Rightarrow> [] | Some s \<Rightarrow> [s])"
      by (auto simp: bindE_eq_Inr_iff)
    obtain b lo' where d: "lo_should_drop rand config False (lo\<lparr>lo_adapter := a\<rparr>) = (b, lo')"
      by (cases "lo_should_drop rand config False (lo\<lparr>lo_adapter := a\<rparr>)")
    then have "lo_adapter lo' = a" using keep [of False "lo\<lparr>lo_adapter := a\<rparr>"] by simp
    with Fd_read rd segs d show ?thesis by (cases b) (simp_all add: lo_read_def)
  next
    case (Fd_write seg)
    with assms obtain s' where wr: "wr seg (lo_adapter lo) = Inr (out, s', a)" and segs: "segs = []"
      by (auto simp: bindE_eq_Inr_iff)
    from wr_same [OF wr] have a: "a = lo_adapter lo" .
    obtain b lo' where d: "lo_should_drop rand config True lo = (b, lo')" by (cases "lo_should_drop rand config True lo")
    then have "lo_adapter lo' = a" using keep [of True lo] a by simp
    with Fd_write wr segs d a show ?thesis by (cases b) (auto simp: lo_write_def)
  qed (use assms in \<open>auto simp: lo_tick_def lo_set_listening_def split: prod.splits\<close>)
qed

lemma only_loses:
  assumes "fd_run rd wr tick listen ops (lo_adapter lo) = Inr (segs, out, a)"
  shows "\<exists>segs' out' lo'. fd_run (lo_read rand config rd) (lo_write rand config wr) (lo_tick tick) (lo_set_listening listen) ops lo =
      Inr (segs', out', lo') \<and> subseq segs' segs \<and> subseq out' out \<and> lo_adapter lo' = a"
  using assms
proof (induction ops arbitrary: lo segs out)
  case (Cons x ops)
  then obtain segs1 out1 a1 segs2 out2 where 1: "fd_step rd wr tick listen x (lo_adapter lo) = Inr (segs1, out1, a1)"
    and 2: "fd_run rd wr tick listen ops a1 = Inr (segs2, out2, a)" and eq: "segs = segs1 @ segs2" "out = out1 @ out2"
    by (auto simp: bindE_eq_Inr_iff)
  from lossy_step [OF 1] obtain segs1' out1' lo1 where s1:
    "fd_step (lo_read rand config rd) (lo_write rand config wr) (lo_tick tick) (lo_set_listening listen) x lo = Inr (segs1', out1', lo1)"
    "subseq segs1' segs1" "subseq out1' out1" "lo_adapter lo1 = a1" by blast
  from Cons.IH [of lo1 segs2 out2] 2 s1(4) obtain segs2' out2' lo2 where r2:
    "fd_run (lo_read rand config rd) (lo_write rand config wr) (lo_tick tick) (lo_set_listening listen) ops lo1 = Inr (segs2', out2', lo2)"
    "subseq segs2' segs2" "subseq out2' out2" "lo_adapter lo2 = a" by auto
  show ?case
    using s1 r2 eq by (intro exI [of _ "segs1' @ segs2'"] exI [of _ "out1' @ out2'"] exI [of _ lo2]) (simp add: list_emb_append_mono)
qed simp

end

lemma unwrap_rates:
  "unwrap_tcp_in_ip gai gni d a = Inr (seg, a') \<Longrightarrow> fd_rates (ad_config a') = fd_rates (ad_config a)"
  by (auto simp: unwrap_tcp_in_ip_def ad_accept_def fd_rates_def ad_config_def ad_set_listening_def bindE_eq_Inr_iff
      split: if_splits option.splits prod.splits)

lemma base_rates [simp]:
  "fd_rates (ad_config (ad_set_listening l a)) = fd_rates (ad_config a)"
  "fd_rates (ad_config (snd (base_tick ms a))) = fd_rates (ad_config a)"
  by (simp_all add: fd_rates_def ad_config_def ad_set_listening_def base_tick_def ad_tick_def)

lemma udp_read_rates: "udp_read input a = Inr (seg, out, a') \<Longrightarrow> fd_rates (ad_config a') = fd_rates (ad_config a)"
  by (auto simp: udp_read_def fd_rates_def ad_config_def ad_set_listening_def bindE_eq_Inr_iff split: if_splits)

lemma udp_write_same: "udp_write gni s a = Inr (out, s', a') \<Longrightarrow> a' = a"
  by (auto simp: udp_write_def bindE_eq_Inr_iff Let_def)

lemma tun_read_rates: "tun_read gai gni input a = Inr (seg, out, a') \<Longrightarrow> fd_rates (ad_config a') = fd_rates (ad_config a)"
  by (auto simp: tun_read_def bindE_eq_Inr_iff split: if_splits dest: unwrap_rates)

lemma tun_write_same: "tun_write gni s a = Inr (out, s', a') \<Longrightarrow> a' = a"
  by (auto simp: tun_write_def bindE_eq_Inr_iff)

lemma ea_send_frames_eq:
  "ni_frames_out ni = fs \<Longrightarrow> ea_send_frames fs out ni = (out @ map ef_serialize fs, ni\<lparr>ni_frames_out := []\<rparr>)"
  by (induction fs arbitrary: out ni) simp_all

lemma ea_send_pending_eq:
  "ea_send_pending ea = (map ef_serialize (ni_frames_out (ea_interface ea)),
     ea\<lparr>ea_interface := (ea_interface ea)\<lparr>ni_frames_out := []\<rparr>\<rparr>)"
  by (simp add: ea_send_pending_def ea_send_frames_eq)

lemma ea_read_rates: "ea_read gai gni input ea = Inr (seg, out, ea') \<Longrightarrow> fd_rates (ea_config ea') = fd_rates (ea_config ea)"
  by (auto simp: ea_read_def ea_config_def bindE_eq_Inr_iff Let_def ea_send_pending_eq split: if_splits option.splits
      dest!: unwrap_rates)

lemma ea_write_rates: "ea_write gni s ea = Inr (out, s', ea') \<Longrightarrow> fd_rates (ea_config ea') = fd_rates (ea_config ea)"
  by (auto simp: ea_write_def ea_config_def bindE_eq_Inr_iff Let_def ea_send_pending_eq)

lemma ea_tick_rates: "fd_rates (ea_config (snd (ea_tick ms ea))) = fd_rates (ea_config ea)"
  by (simp add: ea_tick_def ea_config_def ea_send_pending_eq)

interpretation udp: plain_writer udp_read "udp_write gni" base_tick ad_set_listening ad_config for gni
  by unfold_locales (auto dest: udp_read_rates udp_write_same)

interpretation tun: plain_writer "tun_read gai gni" "tun_write gni" base_tick ad_set_listening ad_config for gai gni
  by unfold_locales (auto dest: tun_read_rates tun_write_same)

interpretation eth: fd_adapter "ea_read gai gni" "ea_write gni" ea_tick ea_set_listening ea_config for gai gni
  by unfold_locales
    (auto dest: ea_read_rates ea_write_rates simp: ea_tick_rates, simp add: ea_set_listening_def ea_config_def)

subsection \<open>Properties\<close>

text \<open>
  With loss rates of zero the lossy adapter is the adapter: for the UDP and the TUN adapter,
  every sequence of reads, writes, ticks and changes of the listening flag gives the same
  segments, the same output, the same final adapter and the same exceptions with the wrapper
  as without it, and no random number is drawn.
\<close>

theorem lossy_transparent:
  assumes "cfg_loss_rate_dn (lo_config ad_config lo) = 0" and "cfg_loss_rate_up (lo_config ad_config lo) = 0"
  shows "fd_run (lo_read rand ad_config udp_read) (lo_write rand ad_config (udp_write gni)) (lo_tick base_tick)
      (lo_set_listening ad_set_listening) ops lo =
    bindE (fd_run udp_read (udp_write gni) base_tick ad_set_listening ops (lo_adapter lo))
      (\<lambda>(segs, out, a). Inr (segs, out, lo\<lparr>lo_adapter := a\<rparr>)) \<and>
    fd_run (lo_read rand ad_config (tun_read gai gni)) (lo_write rand ad_config (tun_write gni)) (lo_tick base_tick)
      (lo_set_listening ad_set_listening) ops' lo =
    bindE (fd_run (tun_read gai gni) (tun_write gni) base_tick ad_set_listening ops' (lo_adapter lo))
      (\<lambda>(segs, out, a). Inr (segs, out, lo\<lparr>lo_adapter := a\<rparr>))"
proof -
  have "fd_rates (ad_config (lo_adapter lo)) = (0, 0)" using assms by (simp add: lo_config_def fd_rates_def)
  then show ?thesis using udp.lossless tun.lossless by blast
qed

theorem lossy_transparent_witness:
  "let lo = \<lparr>lo_rand = (), lo_adapter = ad_example False (inet 7 70) (inet 9 90)\<rparr>; rand = (\<lambda>g. (5, g));
       ops = [Fd_write seg_default, Fd_read \<lparr>rd_source_address = inet 9 90, rd_payload = [1, 2]\<rparr>];
       ops' = [Fd_write seg_default, Fd_read [1, 2]]
   in fd_run (lo_read rand ad_config udp_read) (lo_write rand ad_config (udp_write ipv4_names)) (lo_tick base_tick)
      (lo_set_listening ad_set_listening) ops lo =
    bindE (fd_run udp_read (udp_write ipv4_names) base_tick ad_set_listening ops (lo_adapter lo))
      (\<lambda>(segs, out, a). Inr (segs, out, lo\<lparr>lo_adapter := a\<rparr>)) \<and>
    fd_run (lo_read rand ad_config (tun_read ipv4_hosts ipv4_names)) (lo_write rand ad_config (tun_write ipv4_names)) (lo_tick base_tick)
      (lo_set_listening ad_set_listening) ops' lo =
    bindE (fd_run (tun_read ipv4_hosts ipv4_names) (tun_write ipv4_names) base_tick ad_set_listening ops' (lo_adapter lo))
      (\<lambda>(segs, out, a). Inr (segs, out, lo\<lparr>lo_adapter := a\<rparr>))"
  unfolding Let_def by (rule lossy_transparent) (simp_all add: lo_config_def ad_config_def ad_example_def)

text \<open>
  C35. The lossy adapter only loses. Whatever the loss rates and the random numbers: if the UDP or
  the TUN adapter gets through a sequence of calls, so does its lossy version; the segments
  it returns and the datagrams it writes are among those of the adapter, in the same order; and
  it ends with the adapter in the same state.
\<close>

theorem lossy_only_loses:
  "(case fd_run udp_read (udp_write gni) base_tick ad_set_listening ops (lo_adapter lo) of
      Inl _ \<Rightarrow> True
    | Inr (segs, out, a) \<Rightarrow> \<exists>segs' out' lo'.
        fd_run (lo_read rand ad_config udp_read) (lo_write rand ad_config (udp_write gni)) (lo_tick base_tick)
          (lo_set_listening ad_set_listening) ops lo = Inr (segs', out', lo') \<and>
        subseq segs' segs \<and> subseq out' out \<and> lo_adapter lo' = a) \<and>
   (case fd_run (tun_read gai gni) (tun_write gni) base_tick ad_set_listening ops' (lo_adapter lo) of
      Inl _ \<Rightarrow> True
    | Inr (segs, out, a) \<Rightarrow> \<exists>segs' out' lo'.
        fd_run (lo_read rand ad_config (tun_read gai gni)) (lo_write rand ad_config (tun_write gni)) (lo_tick base_tick)
          (lo_set_listening ad_set_listening) ops' lo = Inr (segs', out', lo') \<and>
        subseq segs' segs \<and> subseq out' out \<and> lo_adapter lo' = a)"
proof (intro conjI)
  show "case fd_run udp_read (udp_write gni) base_tick ad_set_listening ops (lo_adapter lo) of
      Inl _ \<Rightarrow> True
    | Inr (segs, out, a) \<Rightarrow> \<exists>segs' out' lo'.
        fd_run (lo_read rand ad_config udp_read) (lo_write rand ad_config (udp_write gni)) (lo_tick base_tick)
          (lo_set_listening ad_set_listening) ops lo = Inr (segs', out', lo') \<and>
        subseq segs' segs \<and> subseq out' out \<and> lo_adapter lo' = a"
    using udp.only_loses [of gni ops lo] by (fastforce split: sum.split)
  show "case fd_run (tun_read gai gni) (tun_write gni) base_tick ad_set_listening ops' (lo_adapter lo) of
      Inl _ \<Rightarrow> True
    | Inr (segs, out, a) \<Rightarrow> \<exists>segs' out' lo'.
        fd_run (lo_read rand ad_config (tun_read gai gni)) (lo_write rand ad_config (tun_write gni)) (lo_tick base_tick)
          (lo_set_listening ad_set_listening) ops' lo = Inr (segs', out', lo') \<and>
        subseq segs' segs \<and> subseq out' out \<and> lo_adapter lo' = a"
    using tun.only_loses [of gai gni ops' lo] by (fastforce split: sum.split)
qed

end
