(* ===== verification/Byte_Stream.thy ===== *)
theory Byte_Stream
  imports Buffer
begin

text \<open>
  The flow-controlled in-memory byte stream of \<^verbatim>\<open>libsponge/byte_stream.{hh,cc}\<close>, with all
  counters at their 64-bit width. The locale \<open>flow_stream\<close> is the contract its two clients
  (the stream reassembler and the TCP sender) rely on: writes append what fits, reads take
  from the front, nothing is written after the end. \<open>bs_run\<close> executes a sequence of calls
  and records what was accepted and what was delivered.
\<close>

record byte_stream =
  bs_end_flag :: bool
  bs_capacity :: u64
  bs_size :: u64
  bs_stream :: buffer_list
  bs_bytes_w :: u64
  bs_bytes_r :: u64
  bs_err :: bool

definition bs_init :: "u64 \<Rightarrow> byte_stream" where
  "bs_init capacity =
     \<lparr>bs_end_flag = False, bs_capacity = capacity, bs_size = 0, bs_stream = [],
      bs_bytes_w = 0, bs_bytes_r = 0, bs_err = False\<rparr>"

definition bs_remaining_capacity :: "byte_stream \<Rightarrow> u64" where
  "bs_remaining_capacity s = bs_capacity s - bs_size s"

definition bs_write :: "bytes \<Rightarrow> byte_stream \<Rightarrow> u64 \<times> byte_stream" where
  "bs_write data s =
     (if bs_end_flag s then (0, s)
      else
        let write_bytes = sz data;
            write_bytes = (if bs_remaining_capacity s \<le> write_bytes
                           then bs_remaining_capacity s else write_bytes);
            copy_data = take (unat write_bytes) data;
            temp_buffer = buffer_of copy_data
        in (write_bytes,
            s\<lparr>bs_stream := buffer_list_append (bs_stream s) (buffer_list_of_buffer temp_buffer),
              bs_size := bs_size s + write_bytes,
              bs_bytes_w := bs_bytes_w s + write_bytes\<rparr>))"

definition bs_peek_output :: "u64 \<Rightarrow> byte_stream \<Rightarrow> bytes" where
  "bs_peek_output len s = (let str = buffer_list_concatenate (bs_stream s) in take (unat len) str)"

definition bs_pop_output :: "u64 \<Rightarrow> byte_stream \<Rightarrow> byte_stream result" where
  "bs_pop_output len s =
     bindE (buffer_list_remove_prefix (unat len) (bs_stream s)) (\<lambda>stream.
       Inr (s\<lparr>bs_stream := stream, bs_size := bs_size s - len, bs_bytes_r := bs_bytes_r s + len\<rparr>))"

definition bs_buffer_size :: "byte_stream \<Rightarrow> u64" where
  "bs_buffer_size s = bs_size s"

definition bs_read :: "u64 \<Rightarrow> byte_stream \<Rightarrow> (bytes \<times> byte_stream) result" where
  "bs_read len s =
     (let remain = bs_buffer_size s;
          read_bytes = (if remain \<le> len then remain else len);
          str = bs_peek_output read_bytes s
      in bindE (bs_pop_output read_bytes s) (\<lambda>s'. Inr (str, s')))"

definition bs_end_input :: "byte_stream \<Rightarrow> byte_stream" where
  "bs_end_input s = s\<lparr>bs_end_flag := True\<rparr>"

definition bs_input_ended :: "byte_stream \<Rightarrow> bool" where
  "bs_input_ended s \<longleftrightarrow> bs_end_flag s = True"

definition bs_set_error :: "byte_stream \<Rightarrow> byte_stream" where
  "bs_set_error s = s\<lparr>bs_err := True\<rparr>"

definition bs_error :: "byte_stream \<Rightarrow> bool" where
  "bs_error s = bs_err s"

definition bs_buffer_empty :: "byte_stream \<Rightarrow> bool" where
  "bs_buffer_empty s \<longleftrightarrow> bs_size s = 0"

definition bs_eof :: "byte_stream \<Rightarrow> bool" where
  "bs_eof s \<longleftrightarrow> bs_end_flag s \<and> bs_size s = 0"

definition bs_bytes_written :: "byte_stream \<Rightarrow> u64" where
  "bs_bytes_written s = bs_bytes_w s"

definition bs_bytes_read :: "byte_stream \<Rightarrow> u64" where
  "bs_bytes_read s = bs_bytes_r s"

text \<open>Sequences of calls, with the bytes accepted and the bytes delivered so far.\<close>

datatype stream_op = Op_write bytes | Op_read u64 | Op_end_input | Op_set_error

fun bs_step :: "stream_op \<Rightarrow> bytes \<times> bytes \<times> byte_stream \<Rightarrow> (bytes \<times> bytes \<times> byte_stream) result" where
  "bs_step (Op_write data) (acc, out, s) =
     (let (n, s') = bs_write data s in Inr (acc @ take (unat n) data, out, s'))"
| "bs_step (Op_read len) (acc, out, s) = bindE (bs_read len s) (\<lambda>(d, s'). Inr (acc, out @ d, s'))"
| "bs_step Op_end_input (acc, out, s) = Inr (acc, out, bs_end_input s)"
| "bs_step Op_set_error (acc, out, s) = Inr (acc, out, bs_set_error s)"

fun bs_run :: "stream_op list \<Rightarrow> bytes \<times> bytes \<times> byte_stream \<Rightarrow> (bytes \<times> bytes \<times> byte_stream) result" where
  "bs_run [] st = Inr st"
| "bs_run (x # xs) st = bindE (bs_step x st) (bs_run xs)"

fun op_addressable :: "stream_op \<Rightarrow> bool" where
  "op_addressable (Op_write data) \<longleftrightarrow> length data < 2 ^ 64"
| "op_addressable _ \<longleftrightarrow> True"

subsection \<open>Well-formed streams\<close>

definition bs_content :: "byte_stream \<Rightarrow> bytes" where
  "bs_content s = buffer_list_concatenate (bs_stream s)"

definition bs_inv :: "byte_stream \<Rightarrow> bool" where
  "bs_inv s \<longleftrightarrow>
     length (bs_content s) = unat (bs_size s) \<and>
     bs_size s \<le> bs_capacity s \<and>
     bs_bytes_w s = bs_bytes_r s + bs_size s"

definition bs_room :: "byte_stream \<Rightarrow> nat" where
  "bs_room s = unat (bs_remaining_capacity s)"

lemma bs_inv_init [simp]: "bs_inv (bs_init cap)" "bs_content (bs_init cap) = []"
  by (simp_all add: bs_inv_def bs_content_def bs_init_def)

lemma bs_inv_length: "bs_inv s \<Longrightarrow> length (bs_content s) = unat (bs_size s)"
  by (simp add: bs_inv_def)

lemma bs_content_empty_iff: "bs_inv s \<Longrightarrow> bs_content s = [] \<longleftrightarrow> bs_size s = 0"
  by (auto simp: bs_inv_def unat_eq_zero)

lemma bs_room_eq: "bs_inv s \<Longrightarrow> bs_room s = unat (bs_capacity s) - length (bs_content s)"
  by (simp add: bs_room_def bs_remaining_capacity_def bs_inv_def unat_diff_nowrap)

lemma bs_flags_frame [simp]:
  "bs_content (bs_end_input s) = bs_content s" "bs_content (bs_set_error s) = bs_content s"
  "bs_inv (bs_end_input s) = bs_inv s" "bs_inv (bs_set_error s) = bs_inv s"
  "bs_input_ended (bs_end_input s)" "bs_input_ended (bs_set_error s) = bs_input_ended s"
  "bs_error (bs_set_error s)" "bs_error (bs_end_input s) = bs_error s"
  "bs_bytes_w (bs_end_input s) = bs_bytes_w s" "bs_bytes_w (bs_set_error s) = bs_bytes_w s"
  "bs_bytes_r (bs_end_input s) = bs_bytes_r s" "bs_bytes_r (bs_set_error s) = bs_bytes_r s"
  "bs_capacity (bs_end_input s) = bs_capacity s" "bs_capacity (bs_set_error s) = bs_capacity s"
  "bs_size (bs_end_input s) = bs_size s" "bs_size (bs_set_error s) = bs_size s"
  "bs_end_flag (bs_end_input s)" "bs_end_flag (bs_set_error s) = bs_end_flag s"
  by (simp_all add: bs_end_input_def bs_set_error_def bs_content_def bs_inv_def
      bs_input_ended_def bs_error_def)

lemma bs_write_ended: "bs_end_flag s \<Longrightarrow> bs_write data s = (0, s)"
  by (simp add: bs_write_def)

lemma bs_write_count:
  assumes "length data < 2 ^ 64" and "\<not> bs_end_flag s"
  shows "unat (fst (bs_write data s)) = min (length data) (bs_room s)"
  using assms
  by (simp add: bs_write_def Let_def bs_room_def word_le_nat_alt unat_sz)

lemma bs_write_content:
  assumes "length data < 2 ^ 64" and "\<not> bs_end_flag s"
  shows "bs_content (snd (bs_write data s)) = bs_content s @ take (bs_room s) data"
proof -
  have "bs_content (snd (bs_write data s)) = bs_content s @ take (unat (fst (bs_write data s))) data"
    using assms(2) by (simp add: bs_write_def Let_def bs_content_def buffer_list_of_buffer_def)
  then show ?thesis
    by (simp add: bs_write_count [OF assms] take_min_length)
qed

lemma bs_write_frame [simp]:
  "bs_end_flag (snd (bs_write data s)) = bs_end_flag s"
  "bs_capacity (snd (bs_write data s)) = bs_capacity s"
  "bs_bytes_r (snd (bs_write data s)) = bs_bytes_r s"
  "bs_err (snd (bs_write data s)) = bs_err s"
  "bs_bytes_w (snd (bs_write data s)) = bs_bytes_w s + fst (bs_write data s)"
  by (simp_all add: bs_write_def Let_def)

lemma bs_write_size:
  "bs_size (snd (bs_write data s)) = bs_size s + fst (bs_write data s)"
  by (simp add: bs_write_def Let_def)

lemma bs_write_fits:
  assumes "bs_inv s" and "length data < 2 ^ 64"
  shows "unat (bs_size s) + unat (fst (bs_write data s)) \<le> unat (bs_capacity s)"
proof (cases "bs_end_flag s")
  case True
  with assms show ?thesis by (simp add: bs_write_ended bs_inv_def word_le_nat_alt)
next
  case False
  with assms show ?thesis
    by (simp add: bs_write_count bs_room_eq) (auto simp: bs_inv_def word_le_nat_alt)
qed

lemma bs_write_inv:
  assumes "bs_inv s" and "length data < 2 ^ 64"
  shows "bs_inv (snd (bs_write data s))"
proof (cases "bs_end_flag s")
  case True
  with assms show ?thesis by (simp add: bs_write_ended)
next
  case False
  let ?n = "fst (bs_write data s)"
  have fits: "unat (bs_size s) + unat ?n \<le> unat (bs_capacity s)"
    by (rule bs_write_fits [OF assms])
  then have sum: "unat (bs_size s + ?n) = unat (bs_size s) + unat ?n"
    using unat_lt_pow [of "bs_capacity s"] by (simp add: unat_add_nowrap del: unat_lt_pow)
  with assms False fits show ?thesis
    by (simp add: bs_inv_def bs_write_size bs_write_content bs_write_count word_le_nat_alt
        min.commute)
qed

lemma bs_pop_output_spec:
  assumes "bs_inv s" and "len \<le> bs_size s"
  shows "\<exists>s'. bs_pop_output len s = Inr s' \<and> bs_inv s' \<and>
    bs_content s' = drop (unat len) (bs_content s) \<and> bs_size s' = bs_size s - len \<and>
    bs_bytes_r s' = bs_bytes_r s + len \<and> bs_bytes_w s' = bs_bytes_w s \<and>
    bs_end_flag s' = bs_end_flag s \<and> bs_capacity s' = bs_capacity s \<and> bs_err s' = bs_err s"
proof -
  from assms have "unat len \<le> length (buffer_list_concatenate (bs_stream s))"
    by (simp add: bs_inv_def bs_content_def word_le_nat_alt)
  then obtain st where st: "buffer_list_remove_prefix (unat len) (bs_stream s) = Inr st"
    "buffer_list_concatenate st = drop (unat len) (buffer_list_concatenate (bs_stream s))"
    using bufs.remove_prefix_within by blast
  from assms have "bs_size s - len \<le> bs_capacity s"
    by (auto simp: bs_inv_def word_le_nat_alt unat_diff_nowrap)
  with st assms show ?thesis
    by (simp add: bs_pop_output_def bs_inv_def bs_content_def unat_diff_nowrap)
qed

lemma bs_read_spec:
  assumes "bs_inv s"
  shows "\<exists>s'. bs_read len s = Inr (take (unat len) (bs_content s), s') \<and> bs_inv s' \<and>
    bs_content s' = drop (unat len) (bs_content s) \<and>
    bs_size s' = bs_size s - (if bs_size s \<le> len then bs_size s else len) \<and>
    bs_bytes_r s' = bs_bytes_r s + (if bs_size s \<le> len then bs_size s else len) \<and>
    bs_bytes_w s' = bs_bytes_w s \<and> bs_end_flag s' = bs_end_flag s \<and>
    bs_capacity s' = bs_capacity s \<and> bs_err s' = bs_err s"
proof -
  let ?n = "if bs_size s \<le> len then bs_size s else len"
  have "?n \<le> bs_size s" by auto
  from bs_pop_output_spec [OF assms this] obtain s' where
    s': "bs_pop_output ?n s = Inr s'" "bs_inv s'" "bs_content s' = drop (unat ?n) (bs_content s)"
    "bs_size s' = bs_size s - ?n" "bs_bytes_r s' = bs_bytes_r s + ?n"
    "bs_bytes_w s' = bs_bytes_w s" "bs_end_flag s' = bs_end_flag s"
    "bs_capacity s' = bs_capacity s" "bs_err s' = bs_err s"
    by blast
  from assms have "take (unat ?n) (bs_content s) = take (unat len) (bs_content s)"
    "drop (unat ?n) (bs_content s) = drop (unat len) (bs_content s)"
    by (auto simp: bs_inv_def word_le_nat_alt)
  with s' show ?thesis
    by (simp add: bs_read_def bs_buffer_size_def bs_peek_output_def Let_def bs_content_def)
qed

subsection \<open>The contract of a flow-controlled stream\<close>

locale flow_stream =
  fixes inv :: "'s \<Rightarrow> bool"
    and content :: "'s \<Rightarrow> bytes"
    and room :: "'s \<Rightarrow> nat"
    and closed :: "'s \<Rightarrow> bool"
    and wr :: "bytes \<Rightarrow> 's \<Rightarrow> u64 \<times> 's"
    and rd :: "u64 \<Rightarrow> 's \<Rightarrow> (bytes \<times> 's) result"
  assumes write_keeps: "inv s \<Longrightarrow> length d < 2 ^ 64 \<Longrightarrow> inv (snd (wr d s))"
    and write_closed: "closed s \<Longrightarrow> wr d s = (0, s)"
    and write_open: "inv s \<Longrightarrow> \<not> closed s \<Longrightarrow> length d < 2 ^ 64 \<Longrightarrow>
      content (snd (wr d s)) = content s @ take (room s) d \<and>
      unat (fst (wr d s)) = min (length d) (room s) \<and>
      room (snd (wr d s)) = room s - length d \<and> \<not> closed (snd (wr d s))"
    and read_front: "inv s \<Longrightarrow>
      \<exists>s'. rd n s = Inr (take (unat n) (content s), s') \<and> inv s' \<and>
           content s' = drop (unat n) (content s) \<and> closed s' = closed s"
begin

lemma write_accepted_prefix:
  assumes "inv s" and "length d < 2 ^ 64"
  shows "content (snd (wr d s)) = content s @ take (unat (fst (wr d s))) d"
  using assms write_closed [of s d] write_open [of s d]
  by (cases "closed s") (auto simp: take_min_length)

lemma write_in_pieces:
  assumes "inv s" and "\<not> closed s" and "length (d @ e) < 2 ^ 64"
  shows "content (snd (wr e (snd (wr d s)))) = content (snd (wr (d @ e) s))"
  using assms write_open [of s d] write_open [of "snd (wr d s)" e] write_open [of s "d @ e"]
    write_keeps [of s d]
  by simp

lemma read_never_fails: "inv s \<Longrightarrow> \<exists>d s'. rd n s = Inr (d, s') \<and> inv s' \<and> d @ content s' = content s"
  using read_front [of s n] by auto

end

lemma bs_write_room:
  assumes "bs_inv s" and "length data < 2 ^ 64" and "\<not> bs_end_flag s"
  shows "bs_room (snd (bs_write data s)) = bs_room s - length data"
  using assms
  by (simp add: bs_room_eq bs_write_inv bs_write_content)

interpretation bs: flow_stream bs_inv bs_content bs_room bs_end_flag bs_write bs_read
proof unfold_locales
  fix s n
  assume "bs_inv s"
  from bs_read_spec [OF this, of n] show
    "\<exists>s'. bs_read n s = Inr (take (unat n) (bs_content s), s') \<and> bs_inv s' \<and>
       bs_content s' = drop (unat n) (bs_content s) \<and> bs_end_flag s' = bs_end_flag s"
    by blast
qed (simp_all add: bs_write_inv bs_write_ended bs_write_content bs_write_count bs_write_room)

subsection \<open>Following a sent stream\<close>

text \<open>
  \<open>bs_tracks S s\<close>: what went through \<open>s\<close> is a prefix of \<open>S\<close>, of which the first
  \<^const>\<open>bs_bytes_r\<close> bytes have been read and the rest is buffered.
\<close>

definition bs_tracks :: "bytes \<Rightarrow> byte_stream \<Rightarrow> bool" where
  "bs_tracks S s \<longleftrightarrow>
     bs_inv s \<and> unat (bs_bytes_w s) \<le> length S \<and> bs_bytes_r s \<le> bs_bytes_w s \<and>
     bs_content s = drop (unat (bs_bytes_r s)) (take (unat (bs_bytes_w s)) S)"

lemma bs_tracks_init [simp]: "bs_tracks S (bs_init cap)"
  by (simp add: bs_tracks_def bs_init_def bs_content_def bs_inv_def)

lemma bs_tracks_flags [simp]:
  "bs_tracks S (bs_end_input s) = bs_tracks S s" "bs_tracks S (bs_set_error s) = bs_tracks S s"
  by (simp_all add: bs_tracks_def)

lemma bs_tracks_write:
  assumes tr: "bs_tracks S s" and S: "length S < 2 ^ 64"
    and d: "d = take (length d) (drop (unat (bs_bytes_w s)) S)"
  shows "bs_tracks S (snd (bs_write d s))"
    and "unat (bs_bytes_w (snd (bs_write d s))) = unat (bs_bytes_w s) + unat (fst (bs_write d s))"
proof -
  let ?n = "fst (bs_write d s)"
  have inv: "bs_inv s" using tr by (simp add: bs_tracks_def)
  have len: "length d \<le> length S - unat (bs_bytes_w s)"
    by (subst d) simp
  with S have d64: "length d < 2 ^ 64" by linarith
  have n: "unat ?n \<le> length d"
    using bs_write_ended [of s d] bs_write_count [OF d64, of s] by (cases "bs_end_flag s") auto
  have w: "unat (bs_bytes_w s) \<le> length S" using tr by (simp add: bs_tracks_def)
  with n len S have nowrap: "unat (bs_bytes_w s + ?n) = unat (bs_bytes_w s) + unat ?n"
    by (intro unat_add_nowrap) simp
  then show "unat (bs_bytes_w (snd (bs_write d s))) = unat (bs_bytes_w s) + unat ?n" by simp
  have "take (unat ?n) d = take (unat ?n) (drop (unat (bs_bytes_w s)) S)"
    using n by (subst d) (simp add: min_def)
  then have "bs_content (snd (bs_write d s)) =
      drop (unat (bs_bytes_r s)) (take (unat (bs_bytes_w s)) S) @ take (unat ?n) (drop (unat (bs_bytes_w s)) S)"
    using bs.write_accepted_prefix [OF inv d64] tr by (simp add: bs_tracks_def)
  also have "\<dots> = drop (unat (bs_bytes_r s)) (take (unat (bs_bytes_w s) + unat ?n) S)"
    using tr w by (simp add: bs_tracks_def take_add word_le_nat_alt)
  finally show "bs_tracks S (snd (bs_write d s))"
    using tr nowrap n len w bs_write_inv [OF inv d64]
    by (simp add: bs_tracks_def word_le_nat_alt)
qed

lemma bs_tracks_read:
  assumes tr: "bs_tracks S s" and rd: "bs_read len s = Inr (d, s')"
  shows "bs_tracks S s'" and "d = take (unat len) (drop (unat (bs_bytes_r s)) (take (unat (bs_bytes_w s)) S))"
    and "bs_bytes_w s' = bs_bytes_w s"
proof -
  have inv: "bs_inv s" using tr by (simp add: bs_tracks_def)
  let ?n = "if bs_size s \<le> len then bs_size s else len"
  from bs_read_spec [OF inv, of len] rd have
    s': "bs_inv s'" "bs_content s' = drop (unat len) (bs_content s)"
      "bs_bytes_r s' = bs_bytes_r s + ?n" "bs_bytes_w s' = bs_bytes_w s"
    and d: "d = take (unat len) (bs_content s)"
    by auto
  from d tr show "d = take (unat len) (drop (unat (bs_bytes_r s)) (take (unat (bs_bytes_w s)) S))"
    by (simp add: bs_tracks_def)
  have "length (bs_content s) = unat (bs_bytes_w s) - unat (bs_bytes_r s)"
    using tr unfolding bs_tracks_def by (metis length_drop length_take min.absorb2)
  then have size: "unat (bs_size s) = unat (bs_bytes_w s) - unat (bs_bytes_r s)"
    using bs_inv_length [OF inv] by linarith
  have "unat ?n \<le> unat (bs_size s)" by (auto simp: word_le_nat_alt)
  moreover have "unat (bs_bytes_r s) \<le> unat (bs_bytes_w s)"
    using tr by (simp add: bs_tracks_def word_le_nat_alt)
  ultimately have sum: "unat (bs_bytes_r s) + unat ?n \<le> unat (bs_bytes_w s)"
    using size by linarith
  then have r: "unat (bs_bytes_r s + ?n) = unat (bs_bytes_r s) + unat ?n"
    using unat_lt_pow [of "bs_bytes_w s"] by (intro unat_add_nowrap) (simp del: unat_lt_pow)
  have "drop (unat len) (bs_content s) = drop (unat ?n) (bs_content s)"
    using inv by (auto simp: bs_inv_def word_le_nat_alt)
  with s' r sum tr show "bs_tracks S s'"
    by (simp add: bs_tracks_def word_le_nat_alt add.commute)
  show "bs_bytes_w s' = bs_bytes_w s" by (fact s'(4))
qed

subsection \<open>Sequences of calls\<close>

definition bs_ledger :: "bytes \<times> bytes \<times> byte_stream \<Rightarrow> bool" where
  "bs_ledger st \<longleftrightarrow> (case st of (acc, out, s) \<Rightarrow>
     bs_inv s \<and> acc = out @ bs_content s \<and>
     bs_bytes_written s = sz acc \<and> bs_bytes_read s = sz out)"

lemma bs_ledger_init: "bs_ledger ([], [], bs_init cap)"
  by (simp add: bs_ledger_def bs_init_def bs_content_def bs_inv_def bs_bytes_written_def
      bs_bytes_read_def)

lemma sz_take_eq: "unat n \<le> length xs \<Longrightarrow> sz (take (unat n) xs) = n"
  by (simp add: sz_def min_def)

lemma bs_step_ledger:
  assumes "bs_ledger (acc, out, s)" and "op_addressable x"
  shows "\<exists>acc' out' s'. bs_step x (acc, out, s) = Inr (acc', out', s') \<and>
    bs_ledger (acc', out', s') \<and> bs_capacity s' = bs_capacity s \<and>
    (bs_input_ended s \<longrightarrow> bs_input_ended s' \<and> acc' = acc)"
proof (cases x)
  case (Op_write d)
  obtain n s' where w: "bs_write d s = (n, s')" by fastforce
  have inv: "bs_inv s" using assms(1) by (simp add: bs_ledger_def)
  have d: "length d < 2 ^ 64" using assms(2) Op_write by simp
  have n: "unat n \<le> length d"
    using bs_write_ended [of s d] bs_write_count [OF d, of s] w by (cases "bs_end_flag s") auto
  have c: "bs_content s' = bs_content s @ take (unat n) d"
    using bs.write_accepted_prefix [OF inv d] w by simp
  have "bs_ledger (acc @ take (unat n) d, out, s')"
    using assms(1) c n bs_write_inv [OF inv d] bs_write_frame [of d s] w
    by (simp add: bs_ledger_def bs_bytes_written_def bs_bytes_read_def sz_append sz_take_eq)
  moreover have "bs_input_ended s \<longrightarrow> n = 0"
    using bs_write_ended [of s d] w by (auto simp: bs_input_ended_def)
  ultimately show ?thesis
    using Op_write w bs_write_frame [of d s] by (simp add: bs_input_ended_def)
next
  case (Op_read len)
  have inv: "bs_inv s" using assms(1) by (simp add: bs_ledger_def)
  from bs_read_spec [OF inv, of len] obtain s' where
    s': "bs_read len s = Inr (take (unat len) (bs_content s), s')" "bs_inv s'"
      "bs_content s' = drop (unat len) (bs_content s)"
      "bs_bytes_r s' = bs_bytes_r s + (if bs_size s \<le> len then bs_size s else len)"
      "bs_bytes_w s' = bs_bytes_w s" "bs_end_flag s' = bs_end_flag s" "bs_capacity s' = bs_capacity s"
    by blast
  have "sz (take (unat len) (bs_content s)) = (if bs_size s \<le> len then bs_size s else len)"
    using bs_inv_length [OF inv] by (auto simp: sz_def word_le_nat_alt min_def)
  with s' assms(1) have "bs_ledger (acc, out @ take (unat len) (bs_content s), s')"
    by (simp add: bs_ledger_def bs_bytes_written_def bs_bytes_read_def sz_append)
  with s' Op_read show ?thesis by (simp add: bs_input_ended_def)
next
  case Op_end_input
  with assms show ?thesis by (simp add: bs_ledger_def bs_bytes_written_def bs_bytes_read_def)
next
  case Op_set_error
  with assms show ?thesis by (simp add: bs_ledger_def bs_bytes_written_def bs_bytes_read_def)
qed

lemma bs_run_ledger:
  assumes "bs_ledger (acc, out, s)" and "list_all op_addressable xs"
  shows "\<exists>acc' out' s'. bs_run xs (acc, out, s) = Inr (acc', out', s') \<and>
    bs_ledger (acc', out', s') \<and> bs_capacity s' = bs_capacity s \<and>
    (bs_input_ended s \<longrightarrow> bs_input_ended s' \<and> acc' = acc)"
  using assms
proof (induction xs arbitrary: acc out s)
  case Nil
  then show ?case by simp
next
  case (Cons x xs)
  then obtain acc1 out1 s1 where step: "bs_step x (acc, out, s) = Inr (acc1, out1, s1)"
    "bs_ledger (acc1, out1, s1)" "bs_capacity s1 = bs_capacity s"
    "bs_input_ended s \<longrightarrow> bs_input_ended s1 \<and> acc1 = acc"
    using bs_step_ledger [of acc out s x] by (metis list.pred_inject(2))
  from Cons.prems(2) have "list_all op_addressable xs" by simp
  from Cons.IH [OF step(2) this] obtain acc2 out2 s2 where
    "bs_run xs (acc1, out1, s1) = Inr (acc2, out2, s2)"
    "bs_ledger (acc2, out2, s2)" "bs_capacity s2 = bs_capacity s1"
    "bs_input_ended s1 \<longrightarrow> bs_input_ended s2 \<and> acc2 = acc1"
    by blast
  with step show ?case by simp
qed

text \<open>
  C13. The byte stream is a bounded FIFO. For every capacity and every sequence of write,
  read, end_input and set_error calls on a new stream, no call throws, the bytes delivered
  followed by the bytes buffered are exactly the bytes accepted, the buffer never holds more
  than the capacity, and the counters agree with what was accepted and delivered (modulo
  2^64).
\<close>

theorem bs_run_fifo:
  assumes "list_all op_addressable ops"
  shows "\<exists>acc out s. bs_run ops ([], [], bs_init cap) = Inr (acc, out, s) \<and>
    acc = out @ bs_content s \<and> length (bs_content s) \<le> unat cap \<and>
    bs_buffer_size s = sz (bs_content s) \<and>
    bs_bytes_written s = sz acc \<and> bs_bytes_read s = sz out"
proof -
  from bs_run_ledger [OF bs_ledger_init assms] obtain acc out s where
    run: "bs_run ops ([], [], bs_init cap) = Inr (acc, out, s)" "bs_ledger (acc, out, s)"
    "bs_capacity s = cap"
    by (metis bs_init_def byte_stream.select_convs(2))
  moreover have "length (bs_content s) \<le> unat cap" "bs_buffer_size s = sz (bs_content s)"
    using run by (auto simp: bs_ledger_def bs_inv_def word_le_nat_alt bs_buffer_size_def sz_def)
  ultimately show ?thesis by (auto simp: bs_ledger_def)
qed

theorem bs_run_fifo_witness:
  "\<exists>acc out s. bs_run [Op_write [1, 2, 3], Op_read 1, Op_write [4, 5], Op_end_input, Op_write [6]]
      ([], [], bs_init 3) = Inr (acc, out, s) \<and>
    acc = out @ bs_content s \<and> length (bs_content s) \<le> unat (3 :: u64) \<and>
    bs_buffer_size s = sz (bs_content s) \<and>
    bs_bytes_written s = sz acc \<and> bs_bytes_read s = sz out"
  by (rule bs_run_fifo) simp

end
