(* ===== verification/Stream_Reassembler.thy ===== *)
theory Stream_Reassembler
  imports Byte_Stream "HOL-Library.Multiset"
begin

text \<open>
  The stream reassembler of \<^verbatim>\<open>libsponge/stream_reassembler.{hh,cc}\<close>.

  The \<^verbatim>\<open>std::unordered_map<size_t, std::string>\<close> of pending substrings is an association list
  with distinct keys. The order in which the C++ container is iterated is unspecified; it is
  the parameter \<open>iter\<close>, about which the lemmas assume only \<open>hash_order\<close>: every key exactly
  once. \<^verbatim>\<open>operator[]\<close> inserts an empty string under an absent key (\<open>hash_touch\<close>). Index
  arithmetic is that of 64-bit words. An out-of-range \<^verbatim>\<open>std::copy\<close> is undefined behaviour, an
  out-of-range \<^verbatim>\<open>substr\<close> throws.
\<close>

type_synonym substring_map = "(u64 \<times> bytes) list"
type_synonym iteration = "substring_map \<Rightarrow> u64 list"

record reassembler =
  ra_output :: byte_stream
  ra_capacity :: u64
  ra_willing :: u64
  ra_map :: substring_map
  ra_end_flag :: bool
  ra_total_write :: u64
  ra_bytes_writed :: u64

definition hash_touch :: "u64 \<Rightarrow> substring_map \<Rightarrow> substring_map" where
  "hash_touch k m = (case map_of m k of None \<Rightarrow> AList.update k [] m | Some _ \<Rightarrow> m)"

definition hash_at :: "u64 \<Rightarrow> substring_map \<Rightarrow> bytes" where
  "hash_at k m = (case map_of m k of None \<Rightarrow> [] | Some s \<Rightarrow> s)"

definition std_copy :: "bytes \<Rightarrow> u64 \<Rightarrow> bytes \<Rightarrow> bytes result" where
  "std_copy src off dst =
     (if unat off + length src \<le> length dst
      then Inr (take (unat off) dst @ src @ drop (unat off + length src) dst)
      else Inl (Undefined_behaviour ''std::copy past the end''))"

definition merge_substrings :: "bytes \<Rightarrow> u64 \<Rightarrow> bytes \<Rightarrow> u64 \<Rightarrow> bytes result" where
  "merge_substrings str1 index1 str2 index2 =
     (let start = min index1 index2;
          end1 = index1 + sz str1;
          end2 = index2 + sz str2;
          combined_length = max end1 end2 - start;
          res = replicate (unat combined_length) 0
      in bindE (std_copy str1 (index1 - start) res) (\<lambda>res.
         std_copy str2 (index2 - start) res))"

definition ra_init :: "u64 \<Rightarrow> reassembler" where
  "ra_init capacity =
     \<lparr>ra_output = bs_init capacity, ra_capacity = capacity, ra_willing = 0, ra_map = [],
      ra_end_flag = False, ra_total_write = 0, ra_bytes_writed = 0\<rparr>"

text \<open>The loop over the collected keys that merges overlapping substrings into the new one.\<close>

fun ra_merge :: "u64 list \<Rightarrow> bytes \<Rightarrow> u64 \<Rightarrow> substring_map \<Rightarrow> (bytes \<times> u64 \<times> substring_map) result" where
  "ra_merge [] copy_data copy_index m = Inr (copy_data, copy_index, m)"
| "ra_merge (key # keys) copy_data copy_index m =
     (let m = hash_touch key m;
          first_start = key;
          first_end = key + sz (hash_at key m) - 1;
          second_start = copy_index;
          second_end = copy_index + sz copy_data - 1
      in if second_end < first_start \<or> first_end < second_start
         then ra_merge keys copy_data copy_index m
         else bindE (merge_substrings copy_data copy_index (hash_at key m) key) (\<lambda>copy_data.
              ra_merge keys copy_data (min first_start second_start) (AList.delete key m)))"

text \<open>\<^verbatim>\<open>std::greater<int>\<close> compares the keys after conversion to \<^verbatim>\<open>int\<close>.\<close>

definition key_int :: "u64 \<Rightarrow> int" where
  "key_int k = sint (ucast k :: u32)"

definition sort_greater_int :: "u64 list \<Rightarrow> u64 list" where
  "sort_greater_int ks = sort_key (\<lambda>k. - key_int k) ks"

definition ra_total_size :: "substring_map \<Rightarrow> u64" where
  "ra_total_size m = foldl (\<lambda>total kv. total + sz (snd kv)) 0 m"

text \<open>The capacity check. The loop over the sorted keys breaks in its first round.\<close>

definition ra_trim :: "u64 list \<Rightarrow> u64 \<Rightarrow> u64 \<Rightarrow> substring_map \<Rightarrow> substring_map" where
  "ra_trim key_set buffered capacity m =
     (let total_reassembler_size = ra_total_size m in
      if buffered + total_reassembler_size > capacity then
        let remain_size = buffered + total_reassembler_size - capacity in
        case sort_greater_int key_set of
          [] \<Rightarrow> m
        | key # _ \<Rightarrow>
            let m = hash_touch key m;
                (m, remain_size) =
                  (if sz (hash_at key m) \<le> remain_size
                   then (AList.delete key m, remain_size - sz (hash_at key m))
                   else (m, remain_size));
                m = hash_touch key m
            in AList.update key (take (unat (sz (hash_at key m) - remain_size)) (hash_at key m)) m
      else m)"

text \<open>One round of the assembling loop, over the keys in iteration order.\<close>

fun ra_pass :: "u64 list \<Rightarrow> reassembler \<Rightarrow> reassembler result" where
  "ra_pass [] r = Inr r"
| "ra_pass (element_index # ks) r =
     (if element_index > ra_willing r then ra_pass ks r
      else
        let element_str = hash_at element_index (ra_map r);
            r = r\<lparr>ra_map := AList.delete element_index (ra_map r)\<rparr>
        in if element_index + sz element_str - 1 < ra_willing r then ra_pass ks r
           else if unat (ra_willing r - element_index) > length element_str
           then Inl (Out_of_range ''basic_string::substr'')
           else
             let temp_str = drop (unat (ra_willing r - element_index)) element_str;
                 (actual_write, output) = bs_write temp_str (ra_output r)
             in ra_pass ks
                  (r\<lparr>ra_output := output,
                     ra_willing := ra_willing r + actual_write,
                     ra_bytes_writed := ra_bytes_writed r + actual_write\<rparr>))"

lemma ra_pass_shrinks:
  "ra_pass ks r = Inr r' \<Longrightarrow> length (ra_map r') \<le> length (ra_map r) \<and>
     (ra_willing r' \<noteq> ra_willing r \<longrightarrow> length (ra_map r') < length (ra_map r))"
proof (induction ks arbitrary: r)
  case Nil
  then show ?case by simp
next
  case (Cons k ks)
  let ?m = "AList.delete k (ra_map r)" and ?s = "hash_at k (ra_map r)"
  have le: "length ?m \<le> length (ra_map r)" by (rule length_delete_le)
  consider "ra_willing r < k"
    | "\<not> ra_willing r < k" "k + sz ?s - 1 < ra_willing r"
    | "\<not> ra_willing r < k" "\<not> k + sz ?s - 1 < ra_willing r"
    by blast
  then show ?case
  proof cases
    case 1
    with Cons show ?thesis by simp
  next
    case 2
    with Cons.prems have "ra_pass ks (r\<lparr>ra_map := ?m\<rparr>) = Inr r'" by (simp add: Let_def)
    from Cons.IH [OF this] le show ?thesis by auto
  next
    case 3
    let ?t = "drop (unat (ra_willing r - k)) ?s"
    obtain n out where w: "bs_write ?t (ra_output r) = (n, out)" by (cases "bs_write ?t (ra_output r)")
    let ?r = "r\<lparr>ra_map := ?m, ra_output := out, ra_willing := ra_willing r + n,
                 ra_bytes_writed := ra_bytes_writed r + n\<rparr>"
    from 3 w Cons.prems have "ra_pass ks ?r = Inr r'" by (simp add: Let_def split: if_splits)
    from Cons.IH [OF this] have IH: "length (ra_map r') \<le> length ?m"
      "ra_willing r' \<noteq> ra_willing r + n \<Longrightarrow> length (ra_map r') < length ?m" by auto
    show ?thesis
    proof (cases "?s = []")
      case True
      then have "n = 0" using w by (auto simp: bs_write_def Let_def split: if_splits)
      with IH le show ?thesis by auto
    next
      case False
      then have "k \<in> fst ` set (ra_map r)"
        by (metis hash_at_def map_of_eq_None_iff option.simps(4))
      then have "length ?m < length (ra_map r)"
        by (auto simp: AList.delete_eq intro: length_filter_less)
      with IH show ?thesis by auto
    qed
  qed
qed

text \<open>The outer loop: another round as long as the last one wrote something.\<close>

function ra_assemble :: "iteration \<Rightarrow> reassembler \<Rightarrow> reassembler result" where
  "ra_assemble iter r =
     (case ra_pass (iter (ra_map r)) r of
        Inl e \<Rightarrow> Inl e
      | Inr r' \<Rightarrow> if ra_willing r' = ra_willing r then Inr r' else ra_assemble iter r')"
  by pat_completeness auto
termination
  by (relation "measure (\<lambda>(iter, r). length (ra_map r))") (auto dest: ra_pass_shrinks)

declare ra_assemble.simps [simp del]

definition ra_finish :: "reassembler \<Rightarrow> reassembler" where
  "ra_finish r =
     (if ra_end_flag r \<and> ra_bytes_writed r = ra_total_write r
      then r\<lparr>ra_output := bs_end_input (ra_output r)\<rparr> else r)"

definition push_substring :: "iteration \<Rightarrow> bytes \<Rightarrow> u64 \<Rightarrow> bool \<Rightarrow> reassembler \<Rightarrow> reassembler result" where
  "push_substring iter data index eof r =
     (let r = (if eof then r\<lparr>ra_end_flag := eof, ra_total_write := index + sz data\<rparr> else r) in
      if data = [] then Inr (ra_finish r)
      else
        let (copy_data, copy_index) =
              (if index < ra_willing r \<and> index + sz data - 1 \<ge> ra_willing r
               then (drop (unat (ra_willing r - index)) data, ra_willing r)
               else (data, index));
            key_set = iter (ra_map r)
        in bindE (ra_merge key_set copy_data copy_index (ra_map r)) (\<lambda>(copy_data, copy_index, m).
             let m = AList.update copy_index copy_data m;
                 m = ra_trim key_set (bs_buffer_size (ra_output r)) (ra_capacity r) m
             in bindE (ra_assemble iter (r\<lparr>ra_map := m\<rparr>)) (\<lambda>r. Inr (ra_finish r))))"

text \<open>
  \<^verbatim>\<open>unassembled_bytes\<close> marks the positions it has counted in a second map; the model keeps
  the marked positions in a list.
\<close>

fun ra_count_positions :: "u64 list \<Rightarrow> u64 \<times> u64 list \<Rightarrow> u64 \<times> u64 list" where
  "ra_count_positions [] acc = acc"
| "ra_count_positions (p # ps) (n, pos) =
     ra_count_positions ps (if p \<in> set pos then (n, pos) else (n + 1, p # pos))"

definition ra_positions :: "u64 \<times> bytes \<Rightarrow> u64 list" where
  "ra_positions item = map (\<lambda>index. of_nat index + fst item) [0..<length (snd item)]"

definition unassembled_bytes :: "reassembler \<Rightarrow> u64" where
  "unassembled_bytes r =
     fst (foldl (\<lambda>acc item. ra_count_positions (ra_positions item) acc) (0, []) (ra_map r))"

definition ra_empty :: "reassembler \<Rightarrow> bool" where
  "ra_empty r \<longleftrightarrow> bs_buffer_size (ra_output r) + sz (ra_map r) = 0"

definition ra_stream_out :: "reassembler \<Rightarrow> byte_stream" where
  "ra_stream_out r = ra_output r"

text \<open>What the lemmas assume of the iteration order of the hash table.\<close>

definition hash_order :: "iteration \<Rightarrow> bool" where
  "hash_order iter \<longleftrightarrow> (\<forall>m. mset (iter m) = mset (map fst m))"

end
