(* ===== verification/Reassembly.thy ===== *)
theory Reassembly
  imports Stream_Reassembler
begin

text \<open>
  Correctness of the stream reassembler. The reference point is a sent stream \<open>S\<close>: every
  substring pushed is an excerpt of \<open>S\<close> at its index. First safety: whatever arrives in
  whatever order, the output is a prefix of \<open>S\<close>, no call fails, and the output ends only when
  all of \<open>S\<close> has been written. Then progress and completeness.
\<close>

definition excerpt :: "bytes \<Rightarrow> u64 \<Rightarrow> bytes \<Rightarrow> bool" where
  "excerpt S i d \<longleftrightarrow> unat i + length d \<le> length S \<and> d = take (length d) (drop (unat i) S)"

definition entry_ok :: "bytes \<Rightarrow> u64 \<times> bytes \<Rightarrow> bool" where
  "entry_ok S kv \<longleftrightarrow> excerpt S (fst kv) (snd kv) \<and> (snd kv = [] \<longrightarrow> fst kv \<noteq> 0)"

definition map_ok :: "bytes \<Rightarrow> substring_map \<Rightarrow> bool" where
  "map_ok S m \<longleftrightarrow> distinct (map fst m) \<and> (\<forall>kv \<in> set m. entry_ok S kv)"

definition ra_sync :: "bytes \<Rightarrow> reassembler \<Rightarrow> bool" where
  "ra_sync S r \<longleftrightarrow>
     bs_tracks S (ra_output r) \<and> ra_willing r = bs_bytes_w (ra_output r) \<and>
     ra_bytes_writed r = ra_willing r \<and> map_ok S (ra_map r) \<and>
     ra_capacity r = bs_capacity (ra_output r)"

definition ra_inv :: "bytes \<Rightarrow> reassembler \<Rightarrow> bool" where
  "ra_inv S r \<longleftrightarrow>
     ra_sync S r \<and> (\<forall>k \<in> fst ` set (ra_map r). ra_willing r < k) \<and>
     (ra_end_flag r \<longrightarrow> ra_total_write r = sz S) \<and>
     (bs_end_flag (ra_output r) \<longrightarrow> ra_end_flag r \<and> ra_willing r = sz S)"

subsection \<open>Excerpts\<close>

lemma excerpt_nth:
  "excerpt S i d \<longleftrightarrow> unat i + length d \<le> length S \<and> (\<forall>j < length d. d ! j = S ! (unat i + j))"
  by (auto simp: excerpt_def list_eq_iff_nth_eq)

lemma excerpt_at: "excerpt S i d \<Longrightarrow> j < length d \<Longrightarrow> d ! j = S ! (unat i + j)"
  by (simp add: excerpt_nth)

lemma excerpt_Nil: "excerpt S i [] \<longleftrightarrow> unat i \<le> length S"
  by (simp add: excerpt_def)

lemma excerpt_drop:
  assumes "excerpt S i d" and "i \<le> w" and "unat w \<le> unat i + length d"
  shows "excerpt S w (drop (unat (w - i)) d)"
proof -
  have "unat (w - i) = unat w - unat i" "unat i \<le> unat w"
    using assms(2) by (simp_all add: unat_diff_nowrap word_le_nat_alt)
  then show ?thesis using assms(1,3) by (auto simp: excerpt_nth algebra_simps)
qed

lemma excerpt_take: "excerpt S i d \<Longrightarrow> excerpt S i (take n d)"
  by (auto simp: excerpt_nth)

lemma excerpt_prefix: "excerpt S i d \<Longrightarrow> d = take (length d) (drop (unat i) S)"
  by (simp add: excerpt_def)

lemma unat_excerpt_end:
  assumes "excerpt S i d" and "length S < 2 ^ 64"
  shows "unat (i + sz d) = unat i + length d"
  using assms by (simp add: excerpt_def unat_sz unat_add_nowrap)

lemma unat_excerpt_last:
  assumes "excerpt S i d" and "length S < 2 ^ 64" and "d = [] \<Longrightarrow> i \<noteq> 0"
  shows "unat (i + sz d - 1) = unat i + length d - 1"
proof -
  have e: "unat (i + sz d) = unat i + length d" by (rule unat_excerpt_end [OF assms(1,2)])
  with assms(3) have "i + sz d \<noteq> 0" by (metis add_is_0 length_0_conv unat_0 unat_eq_zero)
  with e show ?thesis by (simp add: unat_minus_one)
qed

subsection \<open>Merging\<close>

lemma std_copy_spec:
  assumes "unat off + length src \<le> length dst"
  shows "\<exists>res. std_copy src off dst = Inr res \<and> length res = length dst \<and>
    (\<forall>j < length dst. res ! j =
       (if unat off \<le> j \<and> j < unat off + length src then src ! (j - unat off) else dst ! j))"
  using assms by (auto simp: std_copy_def nth_append)

lemma merge_substrings_spec:
  assumes S: "length S < 2 ^ 64"
    and e1: "excerpt S i1 s1" and e2: "excerpt S i2 s2"
    and touch: "unat i1 \<le> unat i2 + length s2" "unat i2 \<le> unat i1 + length s1"
  shows "\<exists>res. merge_substrings s1 i1 s2 i2 = Inr res \<and> excerpt S (min i1 i2) res \<and>
    unat (min i1 i2) + length res = max (unat i1 + length s1) (unat i2 + length s2)"
proof -
  let ?start = "min i1 i2" and ?stop = "max (unat i1 + length s1) (unat i2 + length s2)"
  have start: "unat ?start = min (unat i1) (unat i2)" by (simp add: min_def word_le_nat_alt)
  have "max (i1 + sz s1) (i2 + sz s2) = of_nat ?stop"
    using unat_excerpt_end [OF e1 S] unat_excerpt_end [OF e2 S]
    by (auto simp: max_def word_le_nat_alt simp flip: sz_def)
  moreover have "?stop < 2 ^ 64" using e1 e2 S by (auto simp: excerpt_def)
  ultimately have top: "unat (max (i1 + sz s1) (i2 + sz s2)) = ?stop"
    by (simp add: unat_of_nat take_bit_eq_mod)
  have "?start \<le> max (i1 + sz s1) (i2 + sz s2)" by (simp add: word_le_nat_alt top start)
  then have len: "unat (max (i1 + sz s1) (i2 + sz s2) - ?start) = ?stop - unat ?start"
    by (simp only: unat_diff_nowrap top)
  have off: "unat (i1 - ?start) = unat i1 - unat ?start" "unat (i2 - ?start) = unat i2 - unat ?start"
    by (simp_all add: unat_diff_nowrap)
  let ?z = "replicate (unat (max (i1 + sz s1) (i2 + sz s2) - ?start)) 0 :: bytes"
  have lz: "length ?z = ?stop - unat ?start" by (simp only: length_replicate len)
  have fit1: "unat (i1 - ?start) + length s1 \<le> length ?z"
    unfolding off lz using start by linarith
  obtain res1 where r1: "std_copy s1 (i1 - ?start) ?z = Inr res1" "length res1 = length ?z"
    "\<forall>j < length ?z. res1 ! j = (if unat (i1 - ?start) \<le> j \<and> j < unat (i1 - ?start) + length s1
        then s1 ! (j - unat (i1 - ?start)) else ?z ! j)"
    using std_copy_spec [OF fit1] by blast
  have fit2: "unat (i2 - ?start) + length s2 \<le> length res1"
    unfolding off r1(2) lz using start by linarith
  obtain res where r2: "std_copy s2 (i2 - ?start) res1 = Inr res" "length res = length res1"
    "\<forall>j < length res1. res ! j = (if unat (i2 - ?start) \<le> j \<and> j < unat (i2 - ?start) + length s2
        then s2 ! (j - unat (i2 - ?start)) else res1 ! j)"
    using std_copy_spec [OF fit2] by blast
  have "merge_substrings s1 i1 s2 i2 = Inr res"
    using r1(1) r2(1) by (simp add: merge_substrings_def Let_def)
  moreover have sum: "unat ?start + length res = ?stop"
    using r1(2) r2(2) lz start by linarith
  moreover have "excerpt S ?start res"
    unfolding excerpt_nth
  proof (intro conjI allI impI)
    show "unat ?start + length res \<le> length S"
      using sum e1 e2 by (simp add: excerpt_def)
    fix j
    assume j: "j < length res"
    show "res ! j = S ! (unat ?start + j)"
    proof (cases "unat i2 - unat ?start \<le> j \<and> j < unat i2 - unat ?start + length s2")
      case True
      then have "res ! j = s2 ! (j - (unat i2 - unat ?start))" using r2 j off by simp
      also have "\<dots> = S ! (unat i2 + (j - (unat i2 - unat ?start)))"
        by (rule excerpt_at [OF e2]) (use True in linarith)
      also have "unat i2 + (j - (unat i2 - unat ?start)) = unat ?start + j" using True start by linarith
      finally show ?thesis .
    next
      case False
      have in1: "unat i1 - unat ?start \<le> j \<and> j < unat i1 - unat ?start + length s1"
        using False j sum touch start by linarith
      have "res ! j = res1 ! j" using r2(2,3) j False unfolding off by auto
      also have "\<dots> = s1 ! (j - (unat i1 - unat ?start))" using r1 r2(2) j off in1 by simp
      also have "\<dots> = S ! (unat i1 + (j - (unat i1 - unat ?start)))"
        by (rule excerpt_at [OF e1]) (use in1 in linarith)
      also have "unat i1 + (j - (unat i1 - unat ?start)) = unat ?start + j" using in1 start by linarith
      finally show ?thesis .
    qed
  qed
  ultimately show ?thesis by blast
qed

subsection \<open>The table of pending substrings\<close>

lemma hash_touch_present: "k \<in> fst ` set m \<Longrightarrow> hash_touch k m = m"
  by (auto simp: hash_touch_def split: option.split dest: map_of_eq_None_iff [THEN iffD1])

lemma hash_at_in: "k \<in> fst ` set m \<Longrightarrow> (k, hash_at k m) \<in> set m"
  by (auto simp: hash_at_def split: option.split dest: map_of_SomeD map_of_eq_None_iff [THEN iffD1])

lemma set_alist_update: "set (AList.update k v m) \<subseteq> insert (k, v) (set m)"
  by (induction m) auto

lemma hash_touch_set: "set (hash_touch k m) \<subseteq> insert (k, []) (set m)"
  using set_alist_update [of k "[]" m] by (auto simp: hash_touch_def split: option.splits)

lemma distinct_hash_touch: "distinct (map fst m) \<Longrightarrow> distinct (map fst (hash_touch k m))"
  by (auto simp: hash_touch_def distinct_update split: option.split)

lemma hash_touch_key: "k \<in> fst ` set (hash_touch k m)"
  by (auto simp: hash_touch_def dom_update split: option.split dest: map_of_SomeD intro: rev_image_eqI)

lemma keys_delete: "fst ` set (AList.delete k m) = fst ` set m - {k}"
  by (auto simp: AList.delete_eq)

lemma set_delete_subset: "set (AList.delete k m) \<subseteq> set m"
  by (auto simp: AList.delete_eq)

lemma map_ok_Nil [simp]: "map_ok S []"
  by (simp add: map_ok_def)

lemma map_ok_delete: "map_ok S m \<Longrightarrow> map_ok S (AList.delete k m)"
  using distinct_delete [of m k] set_mp [OF set_delete_subset, of _ k m] by (auto simp: map_ok_def)

lemma map_ok_update: "map_ok S m \<Longrightarrow> entry_ok S (k, v) \<Longrightarrow> map_ok S (AList.update k v m)"
  using set_alist_update [of k v m] by (auto simp: map_ok_def distinct_update)

lemma map_ok_touch: "map_ok S m \<Longrightarrow> entry_ok S (k, []) \<Longrightarrow> map_ok S (hash_touch k m)"
  by (auto simp: hash_touch_def map_ok_update split: option.split)

lemma map_ok_at:
  assumes "map_ok S m" and "k \<in> fst ` set m"
  shows "excerpt S k (hash_at k m)" and "hash_at k m = [] \<Longrightarrow> k \<noteq> 0"
  using assms hash_at_in [of k m] by (auto simp: map_ok_def entry_ok_def)

definition span :: "u64 \<Rightarrow> bytes \<Rightarrow> nat set" where
  "span k s = {unat k ..< unat k + length s}"

definition covers :: "substring_map \<Rightarrow> nat set" where
  "covers m = (\<Union>kv \<in> set m. span (fst kv) (snd kv))"

definition stored :: "substring_map \<Rightarrow> nat" where
  "stored m = sum_list (map (\<lambda>kv. length (snd kv)) m)"

lemma span_Nil [simp]: "span k [] = {}"
  by (simp add: span_def)

lemma covers_Nil [simp]: "covers [] = {}"
  by (simp add: covers_def)

lemma delete_absent: "k \<notin> fst ` set m \<Longrightarrow> AList.delete k m = m"
  by (induction m) auto

lemma split_off_key:
  assumes "distinct (map fst m)" and "k \<in> fst ` set m"
  shows "set m = insert (k, hash_at k m) (set (AList.delete k m))"
    and "covers m = span k (hash_at k m) \<union> covers (AList.delete k m)"
    and "stored m = length (hash_at k m) + stored (AList.delete k m)"
proof -
  have uniq: "snd x = hash_at k m" if "x \<in> set m" "fst x = k" for x
    using map_of_is_SomeI [OF assms(1), of k "snd x"] that by (auto simp: hash_at_def)
  have in_m: "x \<in> set m \<longleftrightarrow> x = (k, hash_at k m) \<or> x \<in> set m \<and> fst x \<noteq> k" for x
  proof (cases "fst x = k")
    case True
    with uniq [of x] hash_at_in [OF assms(2)] show ?thesis by (cases x) fastforce
  qed auto
  have del: "x \<in> set (AList.delete k m) \<longleftrightarrow> x \<in> set m \<and> fst x \<noteq> k" for x
    by (cases x) (auto simp: AList.delete_eq)
  show set: "set m = insert (k, hash_at k m) (set (AList.delete k m))"
    unfolding set_eq_iff insert_iff del by (rule allI) (rule in_m)
  show "covers m = span k (hash_at k m) \<union> covers (AList.delete k m)"
    unfolding covers_def set by simp
  show "stored m = length (hash_at k m) + stored (AList.delete k m)"
    using assms
  proof (induction m)
    case (Cons kv m)
    obtain j v where kv: "kv = (j, v)" by (cases kv)
    show ?case
    proof (cases "j = k")
      case True
      with Cons.prems kv have "AList.delete k m = m" by (simp add: delete_absent)
      with True kv show ?thesis by (simp add: hash_at_def stored_def)
    next
      case False
      with Cons.prems kv have "stored m = length (hash_at k m) + stored (AList.delete k m)"
        by (intro Cons.IH) simp_all
      with False kv show ?thesis by (simp add: hash_at_def stored_def)
    qed
  qed simp
qed

lemma update_split:
  assumes "distinct (map fst m)"
  shows "covers (AList.update k v m) = span k v \<union> covers (AList.delete k m)"
    and "stored (AList.update k v m) = length v + stored (AList.delete k m)"
proof -
  let ?m = "AList.update k v m"
  have at: "hash_at k ?m = v" by (simp add: hash_at_def update_conv')
  have del: "AList.delete k ?m = AList.delete k m" by (induction m) auto
  have "k \<in> fst ` set ?m" by (simp add: dom_update)
  from split_off_key(2,3) [OF distinct_update [OF assms] this]
  show "covers ?m = span k v \<union> covers (AList.delete k m)"
    "stored ?m = length v + stored (AList.delete k m)"
    by (simp_all only: at del)
qed

subsection \<open>The merging loop\<close>

text \<open>
  One iteration either skips a key, whose substring then neither overlaps the new one nor
  starts where it starts (unless it is empty), or replaces the new substring by the union.
\<close>

lemma merge_step_cases:
  assumes S: "length S < 2 ^ 64" and m: "map_ok S m" and k: "k \<in> fst ` set m"
    and d: "excerpt S i d" "d \<noteq> []"
  obtains (skip) "i + sz d - 1 < k \<or> k + sz (hash_at k m) - 1 < i" "k = i \<Longrightarrow> hash_at k m = []"
  | (merge) res where "\<not> (i + sz d - 1 < k \<or> k + sz (hash_at k m) - 1 < i)"
      "merge_substrings d i (hash_at k m) k = Inr res" "excerpt S (min k i) res" "res \<noteq> []"
      "unat i + length d \<le> unat (min k i) + length res"
      "span (min k i) res = span i d \<union> span k (hash_at k m)"
      "length res \<le> length d + length (hash_at k m)"
proof -
  let ?s = "hash_at k m"
  note ks = map_ok_at [OF m k]
  have last_d: "unat (i + sz d - 1) = unat i + length d - 1"
    using unat_excerpt_last [OF d(1) S] d(2) by simp
  have last_s: "unat (k + sz ?s - 1) = unat k + length ?s - 1"
    by (rule unat_excerpt_last [OF ks(1) S ks(2)])
  have d1: "0 < length d" using d(2) by simp
  have s1: "?s = [] \<Longrightarrow> 0 < unat k" using ks(2) by (simp add: unat_gt_0)
  show thesis
  proof (cases "i + sz d - 1 < k \<or> k + sz ?s - 1 < i")
    case True
    moreover have "?s = []" if "k = i"
    proof -
      have "unat k = unat i" using that by simp
      then have "length ?s = 0" using True d1 unfolding word_less_nat_alt last_d last_s by linarith
      then show ?thesis by simp
    qed
    ultimately show thesis by (rule skip)
  next
    case False
    then have le: "unat k \<le> unat i + length d - 1" "unat i \<le> unat k + length ?s - 1"
      unfolding word_less_nat_alt last_d last_s by auto
    then obtain res where res: "merge_substrings d i ?s k = Inr res" "excerpt S (min i k) res"
      "unat (min i k) + length res = max (unat i + length d) (unat k + length ?s)"
      using merge_substrings_spec [OF S d(1) ks(1)] by fastforce
    have start: "unat (min i k) = min (unat i) (unat k)" by (simp add: min_def word_le_nat_alt)
    have "span (min i k) res = span i d \<union> span k ?s"
      unfolding span_def res(3) unfolding start using le d1 s1 by auto
    moreover have "length res \<le> length d + length ?s" "0 < length res"
      "unat i + length d \<le> unat (min i k) + length res"
      using res(3) start le d1 by linarith+
    ultimately show thesis
      using merge [of res] res(1,2) False by (simp add: min.commute)
  qed
qed

lemma ra_merge_spec:
  assumes S: "length S < 2 ^ 64" and "map_ok S m" and "excerpt S i d" and "d \<noteq> []"
    and "distinct ks" and "set ks \<subseteq> fst ` set m"
  shows "\<exists>d' i' m'. ra_merge ks d i m = Inr (d', i', m') \<and> map_ok S m' \<and> excerpt S i' d' \<and>
    d' \<noteq> [] \<and> i' \<le> i \<and> unat i + length d \<le> unat i' + length d' \<and> (i' = i \<or> i' \<in> set ks) \<and>
    set m' \<subseteq> set m \<and> span i' d' \<union> covers m' = span i d \<union> covers m \<and>
    length d' + stored m' \<le> length d + stored m \<and>
    (i' \<in> set ks \<longrightarrow> (\<forall>v. (i', v) \<in> set m' \<longrightarrow> v = []))"
  using assms(2-)
proof (induction ks arbitrary: d i m)
  case Nil
  then show ?case by simp
next
  case (Cons k ks)
  have k: "k \<in> fst ` set m" using Cons.prems by simp
  have dist: "distinct (map fst m)" using Cons.prems(1) by (simp add: map_ok_def)
  note touch = hash_touch_present [OF k]
  note split = split_off_key [OF dist k]
  from S Cons.prems(1) k Cons.prems(2,3) show ?case
  proof (cases rule: merge_step_cases)
    case skip
    then have eq: "ra_merge (k # ks) d i m = ra_merge ks d i m"
      by (simp add: touch Let_def)
    obtain d' i' m' where IH: "ra_merge ks d i m = Inr (d', i', m')" "map_ok S m'" "excerpt S i' d'"
      "d' \<noteq> []" "i' \<le> i" "unat i + length d \<le> unat i' + length d'" "i' = i \<or> i' \<in> set ks"
      "set m' \<subseteq> set m" "span i' d' \<union> covers m' = span i d \<union> covers m"
      "length d' + stored m' \<le> length d + stored m"
      "i' \<in> set ks \<longrightarrow> (\<forall>v. (i', v) \<in> set m' \<longrightarrow> v = [])"
      using Cons.IH [OF Cons.prems(1-3)] Cons.prems(4,5) by auto
    have "v = []" if "i' = k" "(i', v) \<in> set m'" for v
    proof -
      have "v = hash_at k m" using that IH(8) dist by (auto simp: hash_at_def)
      moreover have "k = i" using that IH(7) Cons.prems(4) by auto
      ultimately show ?thesis using skip(2) by simp
    qed
    with IH eq show ?thesis by auto
  next
    case (merge res)
    let ?m = "AList.delete k m"
    have eq: "ra_merge (k # ks) d i m = ra_merge ks res (min k i) ?m"
      using merge(1,2) by (simp add: touch Let_def)
    have ks: "distinct ks" "set ks \<subseteq> fst ` set ?m" using Cons.prems(4,5) by (auto simp: keys_delete)
    obtain d' i' m' where IH: "ra_merge ks res (min k i) ?m = Inr (d', i', m')" "map_ok S m'"
      "excerpt S i' d'" "d' \<noteq> []" "i' \<le> min k i"
      "unat (min k i) + length res \<le> unat i' + length d'" "i' = min k i \<or> i' \<in> set ks"
      "set m' \<subseteq> set ?m" "span i' d' \<union> covers m' = span (min k i) res \<union> covers ?m"
      "length d' + stored m' \<le> length res + stored ?m"
      "i' \<in> set ks \<longrightarrow> (\<forall>v. (i', v) \<in> set m' \<longrightarrow> v = [])"
      using Cons.IH [OF map_ok_delete [OF Cons.prems(1)] merge(3,4) ks] by blast
    have nk: "(k, v) \<notin> set m'" for v using IH(8) by (auto simp: AList.delete_eq)
    have c: "span i' d' \<union> covers m' = span i d \<union> covers m"
      unfolding IH(9) merge(6) split(2) by (simp add: Un_assoc)
    have l: "length d' + stored m' \<le> length d + stored m"
      using IH(10) merge(7) split(3) by linarith
    have sub: "set m' \<subseteq> set m" using IH(8) set_delete_subset [of k m] by blast
    have i': "i' \<le> i" "i' = i \<or> i' \<in> set (k # ks)"
      using IH(5,7) by (auto simp: min_def split: if_splits)
    have e: "unat i + length d \<le> unat i' + length d'" using IH(6) merge(5) by linarith
    have "\<forall>v. (i', v) \<in> set m' \<longrightarrow> v = []" if "i' \<in> set (k # ks)"
      using IH(11) nk that by auto
    then show ?thesis unfolding eq IH(1) using IH(2-4) c l sub i' e by blast
  qed
qed

subsection \<open>The capacity check\<close>

lemma ra_total_size_stored: "ra_total_size m = of_nat (stored m)"
proof -
  have "foldl (\<lambda>total kv. total + sz (snd kv)) a m = a + of_nat (stored m)" for a
    by (induction m arbitrary: a) (simp_all add: stored_def sz_def add.assoc)
  then show ?thesis by (simp add: ra_total_size_def)
qed

lemma ra_trim_fits:
  assumes "unat buffered + stored m \<le> unat cap"
  shows "ra_trim ks buffered cap m = m"
proof -
  have "unat buffered + stored m < 2 ^ 64" using assms unat_lt_pow [of cap] by (simp del: unat_lt_pow)
  then have "unat (buffered + ra_total_size m) = unat buffered + stored m"
    unfolding ra_total_size_stored by (subst unat_add_nowrap) (simp_all add: unat_of_nat take_bit_eq_mod)
  with assms show ?thesis by (simp add: ra_trim_def Let_def word_less_nat_alt)
qed

lemma sort_greater_int_set [simp]: "set (sort_greater_int ks) = set ks"
  by (simp add: sort_greater_int_def)

lemma ra_trim_cases:
  obtains "ra_trim ks buffered cap m = m"
  | k n m1 where "k \<in> set ks" "m1 = hash_touch k m \<or> m1 = hash_touch k (AList.delete k (hash_touch k m))"
      "ra_trim ks buffered cap m = AList.update k (take n (hash_at k m1)) m1"
proof (cases "buffered + ra_total_size m > cap \<and> ks \<noteq> []")
  case False
  then show thesis by (intro that(1)) (auto simp: ra_trim_def Let_def sort_greater_int_def)
next
  case True
  then have over: "cap < buffered + ra_total_size m" and "ks \<noteq> []" by auto
  then obtain k ks' where ks: "sort_greater_int ks = k # ks'"
    by (metis list.exhaust set_empty sort_greater_int_set)
  then have k: "k \<in> set ks" by (metis list.set_intros(1) sort_greater_int_set)
  let ?m = "hash_touch k m"
  have touch: "hash_touch k ?m = ?m" by (rule hash_touch_present [OF hash_touch_key])
  let ?rem = "buffered + ra_total_size m - cap"
  show thesis
  proof (cases "sz (hash_at k ?m) \<le> ?rem")
    case True
    show thesis
      by (rule that(2) [OF k, of "hash_touch k (AList.delete k ?m)"])
        (use over ks True in \<open>simp_all add: ra_trim_def Let_def\<close>)
  next
    case False
    show thesis
      by (rule that(2) [OF k, of ?m])
        (use over ks False touch in \<open>simp_all add: ra_trim_def Let_def\<close>)
  qed
qed

lemma map_ok_trim:
  assumes m: "map_ok S m" and ks: "\<forall>k \<in> set ks. k \<noteq> 0 \<and> unat k \<le> length S"
  shows "map_ok S (ra_trim ks buffered cap m)"
proof (cases rule: ra_trim_cases [of ks buffered cap m])
  case 1
  with m show ?thesis by simp
next
  case (2 k n m1)
  have e: "entry_ok S (k, [])" using 2(1) ks by (simp add: entry_ok_def excerpt_Nil)
  have m1: "map_ok S m1" using 2(2) m e by (auto intro: map_ok_touch map_ok_delete)
  have "k \<in> fst ` set m1" using 2(2) hash_touch_key by blast
  from map_ok_at(1) [OF m1 this] have "entry_ok S (k, take n (hash_at k m1))"
    using 2(1) ks by (simp add: entry_ok_def excerpt_take)
  with m1 2(3) show ?thesis by (simp add: map_ok_update)
qed

lemma ra_trim_keeps:
  assumes "j \<notin> set ks"
  shows "map_of (ra_trim ks buffered cap m) j = map_of m j"
proof (cases rule: ra_trim_cases [of ks buffered cap m])
  case (2 k n m1)
  then have "k \<noteq> j" using assms by auto
  then have "map_of (hash_touch k m') j = map_of m' j" for m'
    by (simp add: hash_touch_def update_conv' split: option.split)
  with 2 \<open>k \<noteq> j\<close> show ?thesis by (auto simp: update_conv' delete_conv')
qed simp

subsection \<open>The assembling loop\<close>

definition ra_frame :: "reassembler \<Rightarrow> reassembler \<Rightarrow> bool" where
  "ra_frame r r' \<longleftrightarrow>
     ra_capacity r' = ra_capacity r \<and> ra_end_flag r' = ra_end_flag r \<and>
     ra_total_write r' = ra_total_write r \<and>
     bs_end_flag (ra_output r') = bs_end_flag (ra_output r) \<and>
     bs_capacity (ra_output r') = bs_capacity (ra_output r) \<and>
     bs_bytes_r (ra_output r') = bs_bytes_r (ra_output r) \<and> bs_err (ra_output r') = bs_err (ra_output r)"

definition ra_roomy :: "reassembler \<Rightarrow> bool" where
  "ra_roomy r \<longleftrightarrow> \<not> bs_end_flag (ra_output r) \<and>
     unat (bs_size (ra_output r)) + stored (ra_map r) \<le> unat (bs_capacity (ra_output r))"

definition ra_covered :: "reassembler \<Rightarrow> nat set" where
  "ra_covered r = {..< unat (ra_willing r)} \<union> covers (ra_map r)"

text \<open>What holds between the states before and after some rounds of the loop.\<close>

definition ra_advance :: "bytes \<Rightarrow> reassembler \<Rightarrow> reassembler \<Rightarrow> bool" where
  "ra_advance S r r' \<longleftrightarrow>
     ra_sync S r' \<and> ra_willing r \<le> ra_willing r' \<and> ra_frame r r' \<and>
     set (ra_map r') \<subseteq> set (ra_map r) \<and>
     (ra_roomy r \<longrightarrow> ra_roomy r' \<and> ra_covered r' = ra_covered r \<and>
        unat (bs_size (ra_output r')) + stored (ra_map r') \<le>
        unat (bs_size (ra_output r)) + stored (ra_map r))"

lemma ra_frame_refl [simp]: "ra_frame r r"
  by (simp add: ra_frame_def)

lemma ra_advance_refl: "ra_sync S r \<Longrightarrow> ra_advance S r r"
  by (simp add: ra_advance_def)

lemma ra_advance_trans: "ra_advance S r1 r2 \<Longrightarrow> ra_advance S r2 r3 \<Longrightarrow> ra_advance S r1 r3"
  unfolding ra_advance_def ra_frame_def by (auto intro: order_trans)

lemma ra_advance_sync: "ra_advance S r r' \<Longrightarrow> ra_sync S r'"
  by (simp add: ra_advance_def)

lemma ra_erase_advance:
  assumes S: "length S < 2 ^ 64" and sync: "ra_sync S r" and k: "k \<in> fst ` set (ra_map r)"
    and last: "k + sz (hash_at k (ra_map r)) - 1 < ra_willing r"
  shows "ra_advance S r (r\<lparr>ra_map := AList.delete k (ra_map r)\<rparr>)"
proof -
  let ?s = "hash_at k (ra_map r)" and ?m = "AList.delete k (ra_map r)"
  have m: "map_ok S (ra_map r)" using sync by (simp add: ra_sync_def)
  then have dist: "distinct (map fst (ra_map r))" by (simp add: map_ok_def)
  note split = split_off_key [OF dist k]
  from last have "unat k + length ?s - 1 < unat (ra_willing r)"
    using unat_excerpt_last [OF map_ok_at(1) [OF m k] S map_ok_at(2) [OF m k]]
    by (simp add: word_less_nat_alt)
  then have "span k ?s \<subseteq> {..< unat (ra_willing r)}" by (auto simp: span_def)
  then have "{..< unat (ra_willing r)} \<union> covers ?m = ra_covered r"
    unfolding ra_covered_def split(2) by blast
  with sync split(3) map_ok_delete [OF m, of k] set_delete_subset [of k "ra_map r"] show ?thesis
    by (simp add: ra_advance_def ra_sync_def ra_frame_def ra_roomy_def ra_covered_def)
qed

lemma ra_write_advance:
  fixes r :: reassembler and k :: u64
  defines "s \<equiv> hash_at k (ra_map r)"
  defines "t \<equiv> drop (unat (ra_willing r - k)) s"
  defines "n \<equiv> fst (bs_write t (ra_output r))"
  assumes S: "length S < 2 ^ 64" and sync: "ra_sync S r" and k: "k \<in> fst ` set (ra_map r)"
    and le: "k \<le> ra_willing r" and last: "\<not> k + sz s - 1 < ra_willing r"
  shows "unat (ra_willing r - k) \<le> length s"
    and "ra_advance S r (r\<lparr>ra_map := AList.delete k (ra_map r),
           ra_output := snd (bs_write t (ra_output r)), ra_willing := ra_willing r + n,
           ra_bytes_writed := ra_bytes_writed r + n\<rparr>)" (is "ra_advance S r ?r")
    and "unat (ra_willing r + n) = unat (ra_willing r) + unat n"
    and "\<not> bs_end_flag (ra_output r) \<Longrightarrow>
           unat n = min (unat k + length s - unat (ra_willing r)) (bs_room (ra_output r))"
proof -
  let ?m = "AList.delete k (ra_map r)" and ?w = "ra_willing r" and ?out = "ra_output r"
  have m: "map_ok S (ra_map r)" and tr: "bs_tracks S ?out" and w: "?w = bs_bytes_w ?out"
    using sync by (simp_all add: ra_sync_def)
  from m have dist: "distinct (map fst (ra_map r))" by (simp add: map_ok_def)
  note split = split_off_key [OF dist k]
  have ex: "excerpt S k s" and nz: "s = [] \<Longrightarrow> k \<noteq> 0"
    using map_ok_at [OF m k] by (simp_all add: s_def)
  have nats: "unat k \<le> unat ?w" "unat ?w \<le> unat k + length s - 1"
    using le last unat_excerpt_last [OF ex S nz] by (auto simp: word_less_nat_alt word_le_nat_alt)
  have diff: "unat (?w - k) = unat ?w - unat k" using le by (rule unat_diff_nowrap)
  show fit: "unat (?w - k) \<le> length s" using nats diff by linarith
  have t: "excerpt S ?w t" using excerpt_drop [OF ex le] nats by (simp add: t_def)
  have len_t: "length t = unat k + length s - unat ?w" using diff nats by (simp add: t_def)
  have t64: "length t < 2 ^ 64" using t S by (simp add: excerpt_def)
  have track: "bs_tracks S (snd (bs_write t ?out))"
    "unat (bs_bytes_w (snd (bs_write t ?out))) = unat (bs_bytes_w ?out) + unat n"
    using bs_tracks_write [OF tr S] excerpt_prefix [OF t] w by (simp_all add: n_def)
  then show sum: "unat (?w + n) = unat ?w + unat n" using w by (simp add: n_def)
  then have mono: "?w \<le> ?w + n" by (simp add: word_le_nat_alt)
  show count: "\<not> bs_end_flag ?out \<Longrightarrow> unat n = min (unat k + length s - unat ?w) (bs_room ?out)"
    using bs_write_count [OF t64] len_t by (simp add: n_def)
  have "ra_sync S ?r"
    using sync track map_ok_delete [OF m] bs_write_frame(5) [of t ?out] w by (simp add: ra_sync_def n_def)
  moreover have "ra_frame r ?r" by (simp add: ra_frame_def)
  moreover have "ra_roomy ?r \<and> ra_covered ?r = ra_covered r \<and>
      unat (bs_size (ra_output ?r)) + stored (ra_map ?r) \<le> unat (bs_size ?out) + stored (ra_map r)"
    if "ra_roomy r"
  proof -
    have open_out: "\<not> bs_end_flag ?out" using that by (simp add: ra_roomy_def)
    have inv: "bs_inv ?out" using tr by (simp add: bs_tracks_def)
    have "unat (bs_size ?out) + (length s + stored ?m) \<le> unat (bs_capacity ?out)"
      using that split(3) by (simp add: ra_roomy_def s_def)
    moreover have "bs_room ?out = unat (bs_capacity ?out) - unat (bs_size ?out)"
      using bs_room_eq [OF inv] bs_inv_length [OF inv] by simp
    ultimately have n: "unat n = unat k + length s - unat ?w"
      and total: "unat (bs_size ?out) + length s + stored ?m \<le> unat (bs_capacity ?out)"
      using count [OF open_out] nats by linarith+
    have "bs_inv (snd (bs_write t ?out))" using track by (simp add: bs_tracks_def)
    then have "unat (bs_size (snd (bs_write t ?out))) = unat (bs_size ?out) + unat n"
      using bs_inv_length bs_write_content [OF t64 open_out] bs_inv_length [OF inv]
        bs_write_count [OF t64 open_out] by (fastforce simp: n_def min.commute)
    then have size: "unat (bs_size (ra_output ?r)) = unat (bs_size ?out) + unat n" by simp
    have "{..< unat ?w + unat n} = {..< unat ?w} \<union> span k s"
      using n nats by (auto simp: span_def)
    then have "ra_covered ?r = ra_covered r"
      using split(2) sum by (simp add: ra_covered_def s_def Un_assoc)
    moreover have "unat n \<le> length s" using n nats by linarith
    then have "unat (bs_size (ra_output ?r)) + stored (ra_map ?r)
        \<le> unat (bs_size ?out) + stored (ra_map r)"
      using split(3) size by (simp add: s_def)
    ultimately show ?thesis using that by (simp add: ra_roomy_def)
  qed
  ultimately show "ra_advance S r ?r"
    using mono set_delete_subset [of k "ra_map r"] by (simp add: ra_advance_def)
qed

lemma ra_pass_step:
  assumes S: "length S < 2 ^ 64" and sync: "ra_sync S r" and k: "k \<in> fst ` set (ra_map r)"
    and le: "k \<le> ra_willing r"
  shows "\<exists>r1. ra_pass (k # ks) r = ra_pass ks r1 \<and> ra_advance S r r1 \<and>
    ra_map r1 = AList.delete k (ra_map r) \<and>
    (k = ra_willing r \<and> \<not> bs_end_flag (ra_output r) \<longrightarrow>
       min (length (hash_at k (ra_map r))) (bs_room (ra_output r)) \<le> unat (ra_willing r1) - unat k)"
proof (cases "k + sz (hash_at k (ra_map r)) - 1 < ra_willing r")
  case True
  let ?s = "hash_at k (ra_map r)"
  have m: "map_ok S (ra_map r)" using sync by (simp add: ra_sync_def)
  have "?s = []" if "k = ra_willing r"
  proof -
    have "unat k + length ?s - 1 < unat k"
      using True that unat_excerpt_last [OF map_ok_at(1) [OF m k] S map_ok_at(2) [OF m k]]
      by (simp add: word_less_nat_alt)
    then show ?thesis by (cases ?s) simp_all
  qed
  with True le ra_erase_advance [OF S sync k True] show ?thesis
    by (intro exI [of _ "r\<lparr>ra_map := AList.delete k (ra_map r)\<rparr>"]) (auto simp: Let_def)
next
  case False
  note adv = ra_write_advance [OF S sync k le False]
  let ?w = "bs_write (drop (unat (ra_willing r - k)) (hash_at k (ra_map r))) (ra_output r)"
  let ?r = "r\<lparr>ra_map := AList.delete k (ra_map r), ra_output := snd ?w,
              ra_willing := ra_willing r + fst ?w, ra_bytes_writed := ra_bytes_writed r + fst ?w\<rparr>"
  have "ra_pass (k # ks) r = ra_pass ks ?r"
    using False leD [OF le] adv(1) by (cases ?w) (simp add: Let_def)
  moreover have "min (length (hash_at k (ra_map r))) (bs_room (ra_output r))
      \<le> unat (ra_willing ?r) - unat k" if "k = ra_willing r" "\<not> bs_end_flag (ra_output r)"
    using adv(3,4) that by simp
  ultimately show ?thesis using adv(2) by (intro exI [of _ ?r]) simp
qed

lemma ra_pass_spec:
  assumes S: "length S < 2 ^ 64" and "ra_sync S r" and "distinct ks" and "set ks \<subseteq> fst ` set (ra_map r)"
  shows "\<exists>r'. ra_pass ks r = Inr r' \<and> ra_advance S r r' \<and>
    (\<forall>k \<in> set ks. k \<le> ra_willing r \<longrightarrow> k \<notin> fst ` set (ra_map r')) \<and>
    (ra_willing r \<in> set ks \<and> (\<forall>k \<in> set ks. ra_willing r \<le> k) \<and> \<not> bs_end_flag (ra_output r) \<longrightarrow>
       min (length (hash_at (ra_willing r) (ra_map r))) (bs_room (ra_output r))
         \<le> unat (ra_willing r') - unat (ra_willing r))"
  using assms(2-)
proof (induction ks arbitrary: r)
  case Nil
  then show ?case by (simp add: ra_advance_refl)
next
  case (Cons k ks)
  show ?case
  proof (cases "k \<le> ra_willing r")
    case False
    then have "ra_willing r < k" by simp
    then have skip: "ra_pass (k # ks) r = ra_pass ks r" by (simp del: not_less)
    have ks: "distinct ks" "set ks \<subseteq> fst ` set (ra_map r)" using Cons.prems by auto
    show ?thesis unfolding skip using Cons.IH [OF Cons.prems(1) ks] False by auto
  next
    case True
    have "k \<in> fst ` set (ra_map r)" using Cons.prems by simp
    from ra_pass_step [OF S Cons.prems(1) this True, of ks] obtain r1 where
      r1: "ra_pass (k # ks) r = ra_pass ks r1" "ra_advance S r r1" "ra_map r1 = AList.delete k (ra_map r)"
        "k = ra_willing r \<and> \<not> bs_end_flag (ra_output r) \<longrightarrow>
          min (length (hash_at k (ra_map r))) (bs_room (ra_output r)) \<le> unat (ra_willing r1) - unat k"
      by blast
    have ks: "distinct ks" "set ks \<subseteq> fst ` set (ra_map r1)"
      using Cons.prems(2,3) r1(3) by (auto simp: keys_delete)
    from Cons.IH [OF ra_advance_sync [OF r1(2)] ks] obtain r' where
      r': "ra_pass ks r1 = Inr r'" "ra_advance S r1 r'"
        "\<forall>k \<in> set ks. k \<le> ra_willing r1 \<longrightarrow> k \<notin> fst ` set (ra_map r')"
      by blast
    have mono: "ra_willing r \<le> ra_willing r1" "ra_willing r1 \<le> ra_willing r'"
      "set (ra_map r') \<subseteq> set (ra_map r1)"
      using r1(2) r'(2) by (simp_all add: ra_advance_def)
    have "k \<notin> fst ` set (ra_map r')"
      using mono(3) r1(3) by (auto simp: AList.delete_eq)
    moreover have "k' \<notin> fst ` set (ra_map r')" if "k' \<in> set ks" "k' \<le> ra_willing r" for k'
      using r'(3) that mono(1) by (meson order_trans)
    ultimately have erased: "\<forall>k' \<in> set (k # ks). k' \<le> ra_willing r \<longrightarrow> k' \<notin> fst ` set (ra_map r')"
      by auto
    have "min (length (hash_at (ra_willing r) (ra_map r))) (bs_room (ra_output r))
        \<le> unat (ra_willing r') - unat (ra_willing r)"
      if "\<forall>k \<in> set (k # ks). ra_willing r \<le> k" "\<not> bs_end_flag (ra_output r)"
    proof -
      have "k = ra_willing r" using that True by auto
      with r1(4) that(2) have "min (length (hash_at (ra_willing r) (ra_map r))) (bs_room (ra_output r))
        \<le> unat (ra_willing r1) - unat (ra_willing r)" by simp
      moreover have "unat (ra_willing r1) \<le> unat (ra_willing r')" using mono(2) by (simp add: word_le_nat_alt)
      ultimately show ?thesis by linarith
    qed
    with erased ra_advance_trans [OF r1(2) r'(2)] show ?thesis unfolding r1(1) r'(1) by blast
  qed
qed

lemma hash_order_keys:
  assumes "hash_order iter" and "distinct (map fst m)"
  shows "distinct (iter m)" and "set (iter m) = fst ` set m"
  using assms mset_eq_imp_distinct_iff [of "iter m" "map fst m"] mset_eq_setD [of "iter m" "map fst m"]
  by (auto simp: hash_order_def)

text \<open>The loop ends with every remaining key beyond the assembled prefix.\<close>

lemma ra_assemble_spec:
  assumes S: "length S < 2 ^ 64" and iter: "hash_order iter" and "ra_sync S r"
  shows "\<exists>r'. ra_assemble iter r = Inr r' \<and> ra_advance S r r' \<and>
    (\<forall>k \<in> fst ` set (ra_map r'). ra_willing r' < k) \<and>
    (ra_willing r \<in> fst ` set (ra_map r) \<and> (\<forall>k \<in> fst ` set (ra_map r). ra_willing r \<le> k) \<and>
     \<not> bs_end_flag (ra_output r) \<longrightarrow>
       min (length (hash_at (ra_willing r) (ra_map r))) (bs_room (ra_output r))
         \<le> unat (ra_willing r') - unat (ra_willing r))"
  using assms(3)
proof (induction "length (ra_map r)" arbitrary: r rule: less_induct)
  case less
  have dist: "distinct (map fst (ra_map r))" using less.prems by (simp add: ra_sync_def map_ok_def)
  note keys = hash_order_keys [OF iter dist]
  have sub: "set (iter (ra_map r)) \<subseteq> fst ` set (ra_map r)" by (simp only: keys(2) subset_refl)
  from ra_pass_spec [OF S less.prems keys(1) sub] obtain r1 where
    r1: "ra_pass (iter (ra_map r)) r = Inr r1" "ra_advance S r r1"
      "\<forall>k \<in> fst ` set (ra_map r). k \<le> ra_willing r \<longrightarrow> k \<notin> fst ` set (ra_map r1)"
      "ra_willing r \<in> fst ` set (ra_map r) \<and> (\<forall>k \<in> fst ` set (ra_map r). ra_willing r \<le> k) \<and>
       \<not> bs_end_flag (ra_output r) \<longrightarrow>
         min (length (hash_at (ra_willing r) (ra_map r))) (bs_room (ra_output r))
           \<le> unat (ra_willing r1) - unat (ra_willing r)"
    unfolding keys(2) by blast
  show ?case
  proof (cases "ra_willing r1 = ra_willing r")
    case True
    have "set (ra_map r1) \<subseteq> set (ra_map r)" using r1(2) by (simp add: ra_advance_def)
    then have "k \<in> fst ` set (ra_map r)" if "k \<in> fst ` set (ra_map r1)" for k using that by blast
    with r1(3) have "\<not> k \<le> ra_willing r" if "k \<in> fst ` set (ra_map r1)" for k using that by blast
    then have "\<forall>k \<in> fst ` set (ra_map r1). ra_willing r1 < k" unfolding True not_le by blast
    moreover have "ra_assemble iter r = Inr r1" using r1(1) True by (simp add: ra_assemble.simps)
    ultimately show ?thesis using r1(2,4) by blast
  next
    case False
    then have "length (ra_map r1) < length (ra_map r)" using ra_pass_shrinks [OF r1(1)] by simp
    from less.hyps [OF this ra_advance_sync [OF r1(2)]] obtain r' where
      r': "ra_assemble iter r1 = Inr r'" "ra_advance S r1 r'"
        "\<forall>k \<in> fst ` set (ra_map r'). ra_willing r' < k" by blast
    have "ra_assemble iter r = Inr r'" using r1(1) r'(1) False by (simp add: ra_assemble.simps [of iter r])
    moreover have "unat (ra_willing r1) - unat (ra_willing r) \<le> unat (ra_willing r') - unat (ra_willing r)"
      using r'(2) by (simp add: ra_advance_def word_le_nat_alt diff_le_mono)
    then have "n \<le> unat (ra_willing r') - unat (ra_willing r)"
      if "n \<le> unat (ra_willing r1) - unat (ra_willing r)" for n using that by linarith
    ultimately show ?thesis using r'(3) r1(4) ra_advance_trans [OF r1(2) r'(2)] by blast
  qed
qed

subsection \<open>One push\<close>

lemma ra_insert_spec:
  assumes S: "length S < 2 ^ 64" and iter: "hash_order iter" and m: "map_ok S m"
    and d: "excerpt S i d" "d \<noteq> []"
  shows "\<exists>d' i' m'. ra_merge (iter m) d i m = Inr (d', i', m') \<and>
    map_ok S (AList.update i' d' m') \<and> fst ` set (AList.update i' d' m') \<subseteq> insert i' (fst ` set m) \<and>
    covers (AList.update i' d' m') = span i d \<union> covers m \<and>
    stored (AList.update i' d' m') \<le> length d + stored m \<and>
    unat i + length d \<le> unat i' + length d' \<and> i' \<le> i \<and> (i' = i \<or> i' \<in> fst ` set m)"
proof -
  have dist: "distinct (map fst m)" using m by (simp add: map_ok_def)
  note keys = hash_order_keys [OF iter dist]
  have sub: "set (iter m) \<subseteq> fst ` set m" by (simp only: keys(2) subset_refl)
  from ra_merge_spec [OF S m d keys(1) sub] obtain d' i' m' where
    r: "ra_merge (iter m) d i m = Inr (d', i', m')" "map_ok S m'" "excerpt S i' d'" "d' \<noteq> []" "i' \<le> i"
      "unat i + length d \<le> unat i' + length d'" "i' = i \<or> i' \<in> fst ` set m" "set m' \<subseteq> set m"
      "span i' d' \<union> covers m' = span i d \<union> covers m" "length d' + stored m' \<le> length d + stored m"
      "i' \<in> fst ` set m \<longrightarrow> (\<forall>v. (i', v) \<in> set m' \<longrightarrow> v = [])"
    unfolding keys(2) by blast
  have dist': "distinct (map fst m')" using r(2) by (simp add: map_ok_def)
  have del: "covers (AList.delete i' m') = covers m' \<and> stored (AList.delete i' m') = stored m'"
  proof (cases "i' \<in> fst ` set m'")
    case True
    then have "i' \<in> fst ` set m" using r(8) by auto
    then have "hash_at i' m' = []" using hash_at_in [OF True] r(11) by blast
    with split_off_key(2,3) [OF dist' True] show ?thesis by simp
  qed (simp add: delete_absent)
  note upd = update_split [OF dist', of i' d', unfolded conjunct1 [OF del] conjunct2 [OF del]]
  have "entry_ok S (i', d')" using r(3,4) by (simp add: entry_ok_def)
  from map_ok_update [OF r(2) this] have "map_ok S (AList.update i' d' m')" .
  moreover have "fst ` set (AList.update i' d' m') \<subseteq> insert i' (fst ` set m)"
    using r(8) by (auto simp: dom_update)
  ultimately show ?thesis using r(1,5-7,9,10) upd by auto
qed

lemma ra_trim_key_set:
  "fst ` set (ra_trim ks buffered cap m) \<subseteq> fst ` set m \<union> set ks"
proof (cases rule: ra_trim_cases [of ks buffered cap m])
  case (2 k n m1)
  have touch: "fst ` set (hash_touch k m') \<subseteq> insert k (fst ` set m')" for m'
    using hash_touch_set [of k m'] by auto
  have "fst ` set (hash_touch k (AList.delete k (hash_touch k m))) \<subseteq> insert k (fst ` set m)"
    using touch [of m] touch [of "AList.delete k (hash_touch k m)"]
    unfolding keys_delete [of k "hash_touch k m"] by blast
  with 2(2) touch [of m] have "fst ` set m1 \<subseteq> insert k (fst ` set m)" by (elim disjE) simp_all
  with 2(1,3) show ?thesis by (auto simp: dom_update)
qed auto

text \<open>Clipping the part of the new substring that has been assembled already.\<close>

definition ra_clip :: "bytes \<Rightarrow> u64 \<Rightarrow> u64 \<Rightarrow> bytes \<times> u64" where
  "ra_clip data index w =
     (if index < w \<and> index + sz data - 1 \<ge> w then (drop (unat (w - index)) data, w) else (data, index))"

lemma ra_clip_spec:
  assumes S: "length S < 2 ^ 64" and d: "excerpt S index data" "data \<noteq> []"
    and clip: "ra_clip data index w = (cd, ci)"
  shows "excerpt S ci cd \<and> cd \<noteq> [] \<and> length cd \<le> length data \<and>
    {..< unat w} \<union> span ci cd = {..< unat w} \<union> span index data \<and>
    (index \<le> w \<longrightarrow> unat w < unat index + length data \<longrightarrow>
       ci = w \<and> unat w + length cd = unat index + length data)"
proof -
  have last: "unat (index + sz data - 1) = unat index + length data - 1"
    using unat_excerpt_last [OF d(1) S] d(2) by simp
  have len: "0 < length data" using d(2) by simp
  show ?thesis
  proof (cases "index < w \<and> index + sz data - 1 \<ge> w")
    case True
    then have le: "index \<le> w" and nats: "unat index < unat w" "unat w \<le> unat index + length data - 1"
      using last by (simp_all add: word_less_nat_alt word_le_nat_alt)
    have c: "cd = drop (unat (w - index)) data" "ci = w" using clip True by (auto simp: ra_clip_def)
    have l: "length cd = unat index + length data - unat w"
      using c(1) nats unat_diff_nowrap [OF le] by simp
    have "excerpt S ci cd" using excerpt_drop [OF d(1) le] nats c by simp
    moreover have "{..< unat w} \<union> span ci cd = {..< unat w} \<union> span index data"
      using nats l c(2) by (auto simp: span_def)
    moreover have "0 < length cd" using l nats len by linarith
    ultimately show ?thesis
      using l nats c(2) by auto
  next
    case False
    then have c: "cd = data" "ci = index" using clip by (auto simp: ra_clip_def)
    have "unat index = unat w" if "index \<le> w" "unat w < unat index + length data"
      using False that last by (auto simp: word_le_nat_alt word_less_nat_alt not_less)
    then have "index = w" if "index \<le> w" "unat w < unat index + length data"
      using that by (metis unsigned_word_eqI)
    then show ?thesis
      using d c by auto
  qed
qed

lemma ra_finish_frame [simp]:
  "ra_willing (ra_finish r) = ra_willing r" "ra_map (ra_finish r) = ra_map r"
  "ra_capacity (ra_finish r) = ra_capacity r" "ra_end_flag (ra_finish r) = ra_end_flag r"
  "ra_total_write (ra_finish r) = ra_total_write r" "ra_bytes_writed (ra_finish r) = ra_bytes_writed r"
  "ra_covered (ra_finish r) = ra_covered r"
  "bs_size (ra_output (ra_finish r)) = bs_size (ra_output r)"
  "bs_bytes_r (ra_output (ra_finish r)) = bs_bytes_r (ra_output r)"
  "bs_bytes_w (ra_output (ra_finish r)) = bs_bytes_w (ra_output r)"
  "bs_content (ra_output (ra_finish r)) = bs_content (ra_output r)"
  "bs_capacity (ra_output (ra_finish r)) = bs_capacity (ra_output r)"
  "bs_tracks S (ra_output (ra_finish r)) = bs_tracks S (ra_output r)"
  by (simp_all add: ra_finish_def ra_covered_def)

lemma ra_finish_inv:
  assumes "ra_inv S r"
  shows "ra_inv S (ra_finish r)"
    and "bs_end_flag (ra_output (ra_finish r)) \<longleftrightarrow> ra_end_flag r \<and> ra_willing r = sz S"
proof -
  have "bs_end_flag (ra_output (ra_finish r)) \<longleftrightarrow>
      bs_end_flag (ra_output r) \<or> ra_end_flag r \<and> ra_bytes_writed r = ra_total_write r"
    by (auto simp: ra_finish_def)
  then show ended: "bs_end_flag (ra_output (ra_finish r)) \<longleftrightarrow> ra_end_flag r \<and> ra_willing r = sz S"
    using assms by (auto simp: ra_inv_def ra_sync_def)
  then show "ra_inv S (ra_finish r)"
    using assms by (auto simp: ra_inv_def ra_sync_def)
qed

text \<open>The last substring announces the length of the stream.\<close>

definition ra_note_eof :: "bytes \<Rightarrow> u64 \<Rightarrow> bool \<Rightarrow> reassembler \<Rightarrow> reassembler" where
  "ra_note_eof data index eof r =
     (if eof then r\<lparr>ra_end_flag := eof, ra_total_write := index + sz data\<rparr> else r)"

lemma ra_note_eof_frame [simp]:
  "ra_willing (ra_note_eof data index eof r) = ra_willing r"
  "ra_map (ra_note_eof data index eof r) = ra_map r"
  "ra_output (ra_note_eof data index eof r) = ra_output r"
  "ra_capacity (ra_note_eof data index eof r) = ra_capacity r"
  "ra_bytes_writed (ra_note_eof data index eof r) = ra_bytes_writed r"
  "ra_end_flag (ra_note_eof data index eof r) \<longleftrightarrow> ra_end_flag r \<or> eof"
  by (auto simp: ra_note_eof_def)

lemma ra_note_eof_inv:
  assumes "ra_inv S r" and "length S < 2 ^ 64" and "eof \<Longrightarrow> unat index + length data = length S"
  shows "ra_inv S (ra_note_eof data index eof r)"
proof -
  have "index + sz data = sz S" if eof
  proof -
    have "of_nat (unat index + length data) = (of_nat (length S) :: u64)" using assms(3) that by simp
    then show ?thesis by (simp add: sz_def)
  qed
  then have "eof \<Longrightarrow> ra_total_write (ra_note_eof data index eof r) = sz S" by (simp add: ra_note_eof_def)
  moreover have "\<not> eof \<Longrightarrow> ra_note_eof data index eof r = r" by (simp add: ra_note_eof_def)
  ultimately show ?thesis
    using assms(1) by (cases eof) (auto simp: ra_inv_def ra_sync_def)
qed

lemma push_substring_eq:
  "push_substring iter data index eof r =
     (let r = ra_note_eof data index eof r in
      if data = [] then Inr (ra_finish r)
      else
        let (copy_data, copy_index) = ra_clip data index (ra_willing r);
            key_set = iter (ra_map r)
        in bindE (ra_merge key_set copy_data copy_index (ra_map r)) (\<lambda>(copy_data, copy_index, m).
             let m = AList.update copy_index copy_data m;
                 m = ra_trim key_set (bs_buffer_size (ra_output r)) (ra_capacity r) m
             in bindE (ra_assemble iter (r\<lparr>ra_map := m\<rparr>)) (\<lambda>r. Inr (ra_finish r))))"
  unfolding push_substring_def ra_note_eof_def ra_clip_def by (rule refl)

text \<open>
  The effect of a push on the state before it is marked as ended: the invariant and the
  frame, the guaranteed advance, and what is kept when the capacity check does not fire.
\<close>

definition ra_progress :: "bytes \<Rightarrow> u64 \<Rightarrow> reassembler \<Rightarrow> reassembler \<Rightarrow> bool" where
  "ra_progress data index r r' \<longleftrightarrow>
     (index \<le> ra_willing r \<and> \<not> bs_end_flag (ra_output r) \<longrightarrow>
        min (unat index + length data) (unat (ra_willing r) + bs_room (ra_output r))
          \<le> unat (ra_willing r'))"

definition ra_fits :: "bytes \<Rightarrow> reassembler \<Rightarrow> bool" where
  "ra_fits data r \<longleftrightarrow> \<not> bs_end_flag (ra_output r) \<and>
     unat (bs_size (ra_output r)) + stored (ra_map r) + length data \<le> unat (ra_capacity r)"

definition ra_lossless :: "bytes \<Rightarrow> u64 \<Rightarrow> reassembler \<Rightarrow> reassembler \<Rightarrow> bool" where
  "ra_lossless data index r r' \<longleftrightarrow>
     (ra_fits data r \<longrightarrow> ra_covered r' = ra_covered r \<union> span index data \<and>
        unat (bs_size (ra_output r')) + stored (ra_map r') \<le>
        unat (bs_size (ra_output r)) + stored (ra_map r) + length data)"

lemma ra_store_spec:
  assumes S: "length S < 2 ^ 64" and iter: "hash_order iter" and inv: "ra_inv S r"
    and d: "excerpt S index data" "data \<noteq> []"
    and clip: "ra_clip data index (ra_willing r) = (cd, ci)"
  shows "\<exists>d' i' m' r'. ra_merge (iter (ra_map r)) cd ci (ra_map r) = Inr (d', i', m') \<and>
    ra_assemble iter (r\<lparr>ra_map := ra_trim (iter (ra_map r)) (bs_buffer_size (ra_output r))
       (ra_capacity r) (AList.update i' d' m')\<rparr>) = Inr r' \<and>
    ra_inv S r' \<and> ra_frame r r' \<and> ra_willing r \<le> ra_willing r' \<and>
    ra_progress data index r r' \<and> ra_lossless data index r r'"
proof -
  let ?w = "ra_willing r" and ?m = "ra_map r" and ?out = "ra_output r"
  have sync: "ra_sync S r" and above: "\<forall>k \<in> fst ` set ?m. ?w < k" using inv by (simp_all add: ra_inv_def)
  have m: "map_ok S ?m" and cap: "ra_capacity r = bs_capacity ?out"
    using sync by (simp_all add: ra_sync_def)
  then have dist: "distinct (map fst ?m)" by (simp add: map_ok_def)
  note keys = hash_order_keys [OF iter dist]
  from ra_clip_spec [OF S d clip] have c: "excerpt S ci cd" "cd \<noteq> []" "length cd \<le> length data"
    "{..< unat ?w} \<union> span ci cd = {..< unat ?w} \<union> span index data"
    "index \<le> ?w \<Longrightarrow> unat ?w < unat index + length data \<Longrightarrow>
       ci = ?w \<and> unat ?w + length cd = unat index + length data" by blast+
  from ra_insert_spec [OF S iter m c(1,2)] obtain d' i' m' where
    ins: "ra_merge (iter ?m) cd ci ?m = Inr (d', i', m')" "map_ok S (AList.update i' d' m')"
      "fst ` set (AList.update i' d' m') \<subseteq> insert i' (fst ` set ?m)"
      "covers (AList.update i' d' m') = span ci cd \<union> covers ?m"
      "stored (AList.update i' d' m') \<le> length cd + stored ?m"
      "unat ci + length cd \<le> unat i' + length d'" "i' \<le> ci" "i' = ci \<or> i' \<in> fst ` set ?m"
    by blast
  define m2 where "m2 = ra_trim (iter ?m) (bs_buffer_size ?out) (ra_capacity r) (AList.update i' d' m')"
  have key_bounds: "\<forall>k \<in> set (iter ?m). k \<noteq> 0 \<and> unat k \<le> length S"
    using above m unfolding keys(2) by (auto simp: map_ok_def entry_ok_def excerpt_def)
  have m2: "map_ok S m2" unfolding m2_def by (rule map_ok_trim [OF ins(2) key_bounds])
  then have sync2: "ra_sync S (r\<lparr>ra_map := m2\<rparr>)" using sync by (simp add: ra_sync_def)
  from ra_assemble_spec [OF S iter sync2] obtain r' where
    asm: "ra_assemble iter (r\<lparr>ra_map := m2\<rparr>) = Inr r'" "ra_advance S (r\<lparr>ra_map := m2\<rparr>) r'"
      "\<forall>k \<in> fst ` set (ra_map r'). ra_willing r' < k"
      "?w \<in> fst ` set m2 \<and> (\<forall>k \<in> fst ` set m2. ?w \<le> k) \<and> \<not> bs_end_flag ?out \<longrightarrow>
         min (length (hash_at ?w m2)) (bs_room ?out) \<le> unat (ra_willing r') - unat ?w"
    by auto
  have frame: "ra_frame r r'" and mono: "?w \<le> ra_willing r'" and sync': "ra_sync S r'"
    using asm(2) by (simp_all add: ra_advance_def ra_frame_def)
  have "unat (ra_willing r') = unat (sz S)" if "?w = sz S"
    using mono sync' that S by (auto simp: ra_sync_def bs_tracks_def word_le_nat_alt unat_sz)
  then have "?w = sz S \<Longrightarrow> ra_willing r' = sz S" by (metis unsigned_word_eqI)
  then have inv': "ra_inv S r'"
    using inv sync' frame asm(3) by (auto simp: ra_inv_def ra_frame_def)
  have prog: "ra_progress data index r r'"
  proof (cases "index \<le> ?w \<and> unat ?w < unat index + length data \<and> \<not> bs_end_flag ?out")
    case True
    then have ci: "ci = ?w" "unat ?w + length cd = unat index + length data" using c(5) by blast+
    then have i': "i' = ?w" using ins(7,8) above by auto
    have keys2: "fst ` set m2 \<subseteq> insert ?w (fst ` set ?m)"
      using ra_trim_key_set [of "iter ?m" "bs_buffer_size ?out" "ra_capacity r" "AList.update i' d' m'"]
        ins(3) i' unfolding m2_def keys(2) by blast
    have "?w \<notin> set (iter ?m)" using above unfolding keys(2) by auto
    then have "map_of m2 ?w = Some d'" unfolding m2_def by (simp add: ra_trim_keeps i' update_conv')
    then have "hash_at ?w m2 = d'" "?w \<in> fst ` set m2"
      by (auto simp: hash_at_def dest: map_of_SomeD intro: rev_image_eqI)
    moreover have "\<forall>k \<in> fst ` set m2. ?w \<le> k"
    proof
      fix k
      assume "k \<in> fst ` set m2"
      then have "k = ?w \<or> k \<in> fst ` set ?m" using keys2 by blast
      then show "?w \<le> k" using above by (metis order.strict_implies_order order_refl)
    qed
    ultimately have "min (length d') (bs_room ?out) \<le> unat (ra_willing r') - unat ?w"
      using asm(4) True by simp
    moreover have "unat index + length data \<le> unat ?w + length d'" using ins(6) ci i' by simp
    moreover have "unat ?w \<le> unat (ra_willing r')" using mono by (simp add: word_le_nat_alt)
    ultimately show ?thesis by (auto simp: ra_progress_def)
  next
    case False
    with mono show ?thesis by (auto simp: ra_progress_def word_le_nat_alt not_less)
  qed
  have loss: "ra_lossless data index r r'"
  proof -
    have "ra_covered r' = ra_covered r \<union> span index data \<and>
        unat (bs_size (ra_output r')) + stored (ra_map r') \<le> unat (bs_size ?out) + stored ?m + length data"
      if fits: "ra_fits data r"
    proof -
      have room: "unat (bs_size ?out) + stored (AList.update i' d' m') \<le> unat (ra_capacity r)"
        using fits ins(5) c(3) by (simp add: ra_fits_def)
      then have m2: "m2 = AList.update i' d' m'"
        unfolding m2_def bs_buffer_size_def by (rule ra_trim_fits)
      then have "ra_roomy (r\<lparr>ra_map := m2\<rparr>)" using fits room cap by (simp add: ra_roomy_def ra_fits_def)
      then have adv: "ra_covered r' = ra_covered (r\<lparr>ra_map := m2\<rparr>)"
        "unat (bs_size (ra_output r')) + stored (ra_map r') \<le> unat (bs_size ?out) + stored m2"
        using asm(2) by (simp_all add: ra_advance_def)
      have "ra_covered (r\<lparr>ra_map := m2\<rparr>) = ra_covered r \<union> span index data"
        unfolding ra_covered_def m2 using ins(4) c(4) by auto
      with adv ins(5) c(3) show ?thesis by (simp add: m2)
    qed
    then show ?thesis unfolding ra_lossless_def by (rule impI)
  qed
  note asm(1) [unfolded m2_def]
  with ins(1) inv' frame mono prog loss show ?thesis by blast
qed

lemma push_substring_spec:
  assumes S: "length S < 2 ^ 64" and iter: "hash_order iter" and inv: "ra_inv S r"
    and d: "excerpt S index data" and eof: "eof \<Longrightarrow> unat index + length data = length S"
  shows "\<exists>r'. push_substring iter data index eof r = Inr r' \<and> ra_inv S r' \<and>
    ra_willing r \<le> ra_willing r' \<and> ra_capacity r' = ra_capacity r \<and>
    bs_bytes_r (ra_output r') = bs_bytes_r (ra_output r) \<and>
    (ra_end_flag r' \<longleftrightarrow> ra_end_flag r \<or> eof) \<and>
    (bs_input_ended (ra_output r') \<longleftrightarrow> ra_end_flag r' \<and> ra_willing r' = sz S) \<and>
    ra_progress data index r r' \<and> ra_lossless data index r r'"
proof (cases "data = []")
  case True
  let ?r = "ra_note_eof data index eof r"
  have inv1: "ra_inv S ?r" by (rule ra_note_eof_inv [OF inv S eof])
  have "push_substring iter data index eof r = Inr (ra_finish ?r)"
    using True by (simp add: push_substring_eq)
  with True ra_finish_inv [OF inv1] show ?thesis
    by (auto simp: bs_input_ended_def ra_progress_def ra_lossless_def ra_covered_def word_le_nat_alt)
next
  case False
  let ?r = "ra_note_eof data index eof r"
  have inv1: "ra_inv S ?r" by (rule ra_note_eof_inv [OF inv S eof])
  obtain cd ci where clip: "ra_clip data index (ra_willing ?r) = (cd, ci)" by fastforce
  from ra_store_spec [OF S iter inv1 d False clip] obtain d' i' m' r' where
    st: "ra_merge (iter (ra_map ?r)) cd ci (ra_map ?r) = Inr (d', i', m')"
      "ra_assemble iter (?r\<lparr>ra_map := ra_trim (iter (ra_map ?r)) (bs_buffer_size (ra_output ?r))
         (ra_capacity ?r) (AList.update i' d' m')\<rparr>) = Inr r'"
      "ra_inv S r'" "ra_frame ?r r'" "ra_willing ?r \<le> ra_willing r'"
      "ra_progress data index ?r r'" "ra_lossless data index ?r r'"
    by blast
  have "push_substring iter data index eof r = Inr (ra_finish r')"
    using False clip st(1,2) by (simp add: push_substring_eq Let_def)
  moreover have "ra_progress data index r (ra_finish r')" "ra_lossless data index r (ra_finish r')"
    using st(6,7) by (simp_all add: ra_progress_def ra_lossless_def ra_fits_def ra_covered_def)
  ultimately show ?thesis
    using ra_finish_inv [OF st(3)] st(4,5) by (auto simp: bs_input_ended_def ra_frame_def)
qed

subsection \<open>Sequences of pushes and reads\<close>

datatype ra_op = Push bytes u64 bool | Read u64

fun ra_step :: "iteration \<Rightarrow> ra_op \<Rightarrow> bytes \<times> reassembler \<Rightarrow> (bytes \<times> reassembler) result" where
  "ra_step iter (Push data index eof) (out, r) =
     bindE (push_substring iter data index eof r) (\<lambda>r'. Inr (out, r'))"
| "ra_step iter (Read len) (out, r) =
     bindE (bs_read len (ra_stream_out r)) (\<lambda>(d, s). Inr (out @ d, r\<lparr>ra_output := s\<rparr>))"

fun ra_run :: "iteration \<Rightarrow> ra_op list \<Rightarrow> bytes \<times> reassembler \<Rightarrow> (bytes \<times> reassembler) result" where
  "ra_run iter [] st = Inr st"
| "ra_run iter (x # xs) st = bindE (ra_step iter x st) (ra_run iter xs)"

fun op_from :: "bytes \<Rightarrow> ra_op \<Rightarrow> bool" where
  "op_from S (Push data index eof) \<longleftrightarrow>
     excerpt S index data \<and> (eof \<longrightarrow> unat index + length data = length S)"
| "op_from S (Read len) \<longleftrightarrow> True"

definition ra_delivers :: "bytes \<Rightarrow> bytes \<times> reassembler \<Rightarrow> bool" where
  "ra_delivers S st \<longleftrightarrow> (case st of (out, r) \<Rightarrow>
     ra_inv S r \<and> out = take (unat (bs_bytes_r (ra_output r))) S)"

lemma ra_read_spec:
  assumes inv: "ra_inv S r"
  shows "\<exists>d s. bs_read len (ra_output r) = Inr (d, s) \<and> ra_inv S (r\<lparr>ra_output := s\<rparr>) \<and>
    d = take (unat (bs_bytes_r s) - unat (bs_bytes_r (ra_output r))) (drop (unat (bs_bytes_r (ra_output r))) S) \<and>
    bs_bytes_r (ra_output r) \<le> bs_bytes_r s \<and> bs_end_flag s = bs_end_flag (ra_output r) \<and>
    bs_size s \<le> bs_size (ra_output r) \<and> bs_capacity s = bs_capacity (ra_output r)"
proof -
  let ?out = "ra_output r"
  have tr: "bs_tracks S ?out" using inv by (simp add: ra_inv_def ra_sync_def)
  then have wf: "bs_inv ?out" by (simp add: bs_tracks_def)
  from bs_read_spec [OF wf, of len] obtain s where
    s: "bs_read len ?out = Inr (take (unat len) (bs_content ?out), s)" "bs_inv s"
      "bs_content s = drop (unat len) (bs_content ?out)"
      "bs_size s = bs_size ?out - (if bs_size ?out \<le> len then bs_size ?out else len)"
      "bs_bytes_w s = bs_bytes_w ?out" "bs_end_flag s = bs_end_flag ?out" "bs_capacity s = bs_capacity ?out"
    by blast
  have tr': "bs_tracks S s" using bs_tracks_read [OF tr s(1)] by simp
  have len: "length (bs_content t) = unat (bs_bytes_w t) - unat (bs_bytes_r t)" if "bs_tracks S t" for t
    using that by (simp add: bs_tracks_def)
  have w: "unat (bs_bytes_w ?out) \<le> length S" "unat (bs_bytes_r ?out) \<le> unat (bs_bytes_w ?out)"
      "unat (bs_bytes_r s) \<le> unat (bs_bytes_w ?out)"
    using tr tr' s(5) by (auto simp: bs_tracks_def word_le_nat_alt)
  have n: "unat (bs_bytes_w ?out) - unat (bs_bytes_r s)
      = unat (bs_bytes_w ?out) - unat (bs_bytes_r ?out) - unat len"
    using len [OF tr'] len [OF tr] s(3,5) by simp
  have "take (unat len) (bs_content ?out)
      = take (unat (bs_bytes_r s) - unat (bs_bytes_r ?out)) (drop (unat (bs_bytes_r ?out)) S)"
  proof -
    have c: "bs_content ?out = take (unat (bs_bytes_w ?out) - unat (bs_bytes_r ?out)) (drop (unat (bs_bytes_r ?out)) S)"
      using tr by (simp add: bs_tracks_def drop_take)
    have "min (unat len) (unat (bs_bytes_w ?out) - unat (bs_bytes_r ?out)) = unat (bs_bytes_r s) - unat (bs_bytes_r ?out)"
      using n w by linarith
    then show ?thesis by (simp add: c)
  qed
  moreover have "bs_bytes_r ?out \<le> bs_bytes_r s" using n w by (simp add: word_le_nat_alt)
  moreover have "bs_size s \<le> bs_size ?out" using s(4) by (auto simp: word_le_nat_alt unat_diff_nowrap)
  ultimately show ?thesis
    using s(1,5-) tr' inv by (auto simp: ra_inv_def ra_sync_def)
qed

fun op_span :: "ra_op \<Rightarrow> nat set" where
  "op_span (Push data index eof) = span index data"
| "op_span (Read len) = {}"

fun op_bytes :: "ra_op \<Rightarrow> nat" where
  "op_bytes (Push data index eof) = length data"
| "op_bytes (Read len) = 0"

fun op_eof :: "ra_op \<Rightarrow> bool" where
  "op_eof (Push data index eof) \<longleftrightarrow> eof"
| "op_eof (Read len) \<longleftrightarrow> False"

definition ra_used :: "reassembler \<Rightarrow> nat" where
  "ra_used r = unat (bs_size (ra_output r)) + stored (ra_map r)"

definition ra_state_ok :: "bytes \<Rightarrow> bytes \<times> reassembler \<Rightarrow> bool" where
  "ra_state_ok S st \<longleftrightarrow> (case st of (out, r) \<Rightarrow>
     ra_inv S r \<and> out = take (unat (bs_bytes_r (ra_output r))) S \<and>
     (bs_end_flag (ra_output r) \<longleftrightarrow> ra_end_flag r \<and> ra_willing r = sz S))"

lemma ra_state_ok_init: "ra_state_ok S ([], ra_init cap)"
  by (simp add: ra_state_ok_def ra_inv_def ra_sync_def ra_init_def) (simp add: bs_init_def)

lemma ra_ended_covers:
  assumes "ra_inv S r" and "length S < 2 ^ 64" and "bs_end_flag (ra_output r)"
  shows "{..< length S} \<subseteq> ra_covered r"
  using assms by (auto simp: ra_inv_def ra_covered_def unat_sz)

lemma excerpt_span: "excerpt S i d \<Longrightarrow> span i d \<subseteq> {..< length S}"
  by (auto simp: span_def excerpt_def)

lemma ra_covered_bound:
  assumes "ra_inv S r"
  shows "ra_covered r \<subseteq> {..< length S}"
proof -
  have "\<forall>kv \<in> set (ra_map r). excerpt S (fst kv) (snd kv)"
    using assms by (simp add: ra_inv_def ra_sync_def map_ok_def entry_ok_def)
  then have "covers (ra_map r) \<subseteq> {..< length S}" unfolding covers_def using excerpt_span by blast
  moreover have "unat (ra_willing r) \<le> length S"
    using assms by (simp add: ra_inv_def ra_sync_def bs_tracks_def)
  ultimately show ?thesis by (simp add: ra_covered_def)
qed

lemma ra_step_ok:
  assumes S: "length S < 2 ^ 64" and iter: "hash_order iter"
    and ok: "ra_state_ok S (out, r)" and x: "op_from S x"
  shows "\<exists>out' r'. ra_step iter x (out, r) = Inr (out', r') \<and> ra_state_ok S (out', r') \<and>
    ra_capacity r' = ra_capacity r \<and> (ra_end_flag r' \<longleftrightarrow> ra_end_flag r \<or> op_eof x) \<and>
    (bs_end_flag (ra_output r) \<longrightarrow> bs_end_flag (ra_output r')) \<and>
    (bs_end_flag (ra_output r) \<or> ra_used r + op_bytes x \<le> unat (ra_capacity r) \<longrightarrow>
       ra_covered r \<union> op_span x \<subseteq> ra_covered r' \<and>
       (bs_end_flag (ra_output r') \<or> ra_used r' \<le> ra_used r + op_bytes x))"
proof (cases x)
  case (Push data index eof)
  have inv: "ra_inv S r" and ends: "bs_end_flag (ra_output r) \<longleftrightarrow> ra_end_flag r \<and> ra_willing r = sz S"
    and out: "out = take (unat (bs_bytes_r (ra_output r))) S"
    using ok by (simp_all add: ra_state_ok_def)
  have d: "excerpt S index data" "eof \<Longrightarrow> unat index + length data = length S" using x Push by simp_all
  from push_substring_spec [OF S iter inv d(1), of eof] d(2) obtain r' where
    r': "push_substring iter data index eof r = Inr r'" "ra_inv S r'" "ra_willing r \<le> ra_willing r'"
      "ra_capacity r' = ra_capacity r" "bs_bytes_r (ra_output r') = bs_bytes_r (ra_output r)"
      "ra_end_flag r' \<longleftrightarrow> ra_end_flag r \<or> eof"
      "bs_input_ended (ra_output r') \<longleftrightarrow> ra_end_flag r' \<and> ra_willing r' = sz S"
      "ra_lossless data index r r'"
    by blast
  have ok': "ra_state_ok S (out, r')" using out r'(2,5,7) by (simp add: ra_state_ok_def bs_input_ended_def)
  have stays: "bs_end_flag (ra_output r')" if ended: "bs_end_flag (ra_output r)"
  proof -
    have "unat (ra_willing r') = unat (sz S)"
      using ended ends r'(2,3) S by (auto simp: ra_inv_def ra_sync_def bs_tracks_def word_le_nat_alt unat_sz)
    then show ?thesis using ended ends r'(6,7) by (simp add: bs_input_ended_def unsigned_word_eqI)
  qed
  have "ra_covered r \<union> span index data \<subseteq> ra_covered r' \<and>
      (bs_end_flag (ra_output r') \<or> ra_used r' \<le> ra_used r + length data)"
    if budget: "bs_end_flag (ra_output r) \<or> ra_used r + length data \<le> unat (ra_capacity r)"
  proof (cases "bs_end_flag (ra_output r)")
    case False
    with budget r'(8) show ?thesis by (simp add: ra_lossless_def ra_fits_def ra_used_def)
  next
    case True
    from ra_ended_covers [OF r'(2) S stays [OF True]] ra_covered_bound [OF inv] excerpt_span [OF d(1)]
    show ?thesis using stays [OF True] by blast
  qed
  with Push r'(1,4,6) ok' stays show ?thesis by simp
next
  case (Read len)
  from ok have inv: "ra_inv S r" by (simp add: ra_state_ok_def)
  from ra_read_spec [OF inv, of len] obtain d s where
    s: "bs_read len (ra_output r) = Inr (d, s)" "ra_inv S (r\<lparr>ra_output := s\<rparr>)"
      "d = take (unat (bs_bytes_r s) - unat (bs_bytes_r (ra_output r))) (drop (unat (bs_bytes_r (ra_output r))) S)"
      "bs_bytes_r (ra_output r) \<le> bs_bytes_r s" "bs_end_flag s = bs_end_flag (ra_output r)"
      "bs_size s \<le> bs_size (ra_output r)"
    by blast
  have "take (unat (bs_bytes_r (ra_output r))) S @ d = take (unat (bs_bytes_r s)) S"
    using s(3,4) by (simp add: take_take_drop word_le_nat_alt)
  with ok s have "ra_state_ok S (out @ d, r\<lparr>ra_output := s\<rparr>)" by (simp add: ra_state_ok_def)
  with Read s show ?thesis by (simp add: ra_stream_out_def ra_covered_def ra_used_def word_le_nat_alt)
qed

lemma ra_run_ok:
  assumes S: "length S < 2 ^ 64" and iter: "hash_order iter"
    and "ra_state_ok S (out, r)" and "list_all (op_from S) ops"
  shows "\<exists>out' r'. ra_run iter ops (out, r) = Inr (out', r') \<and> ra_state_ok S (out', r') \<and>
    (ra_end_flag r' \<longleftrightarrow> ra_end_flag r \<or> (\<exists>x \<in> set ops. op_eof x)) \<and>
    (bs_end_flag (ra_output r) \<or> ra_used r + sum_list (map op_bytes ops) \<le> unat (ra_capacity r) \<longrightarrow>
       ra_covered r \<union> (\<Union>x \<in> set ops. op_span x) \<subseteq> ra_covered r')"
  using assms(3,4)
proof (induction ops arbitrary: out r)
  case Nil
  then show ?case by simp
next
  case (Cons x ops)
  from Cons.prems(2) have x: "op_from S x" and ops: "list_all (op_from S) ops" by simp_all
  from ra_step_ok [OF S iter Cons.prems(1) x] obtain out1 r1 where
    1: "ra_step iter x (out, r) = Inr (out1, r1)" "ra_state_ok S (out1, r1)"
      "ra_capacity r1 = ra_capacity r" "ra_end_flag r1 \<longleftrightarrow> ra_end_flag r \<or> op_eof x"
      "bs_end_flag (ra_output r) \<Longrightarrow> bs_end_flag (ra_output r1)"
      "bs_end_flag (ra_output r) \<or> ra_used r + op_bytes x \<le> unat (ra_capacity r) \<Longrightarrow>
         ra_covered r \<union> op_span x \<subseteq> ra_covered r1 \<and>
         (bs_end_flag (ra_output r1) \<or> ra_used r1 \<le> ra_used r + op_bytes x)"
    by blast
  from Cons.IH [OF 1(2) ops] obtain out' r' where
    2: "ra_run iter ops (out1, r1) = Inr (out', r')" "ra_state_ok S (out', r')"
      "ra_end_flag r' \<longleftrightarrow> ra_end_flag r1 \<or> (\<exists>x \<in> set ops. op_eof x)"
      "bs_end_flag (ra_output r1) \<or> ra_used r1 + sum_list (map op_bytes ops) \<le> unat (ra_capacity r1) \<Longrightarrow>
         ra_covered r1 \<union> (\<Union>x \<in> set ops. op_span x) \<subseteq> ra_covered r'"
    by blast
  have "ra_covered r \<union> (\<Union>x \<in> set (x # ops). op_span x) \<subseteq> ra_covered r'"
    if budget: "bs_end_flag (ra_output r) \<or> ra_used r + sum_list (map op_bytes (x # ops)) \<le> unat (ra_capacity r)"
  proof -
    have c1: "ra_covered r \<union> op_span x \<subseteq> ra_covered r1 \<and>
        (bs_end_flag (ra_output r1) \<or> ra_used r1 \<le> ra_used r + op_bytes x)"
      using budget by (intro 1(6)) auto
    moreover have "ra_covered r1 \<union> (\<Union>x \<in> set ops. op_span x) \<subseteq> ra_covered r'"
    proof (rule 2(4))
      show "bs_end_flag (ra_output r1) \<or> ra_used r1 + sum_list (map op_bytes ops) \<le> unat (ra_capacity r1)"
      proof (cases "bs_end_flag (ra_output r)")
        case True
        with 1(5) show ?thesis by blast
      next
        case False
        with c1 budget 1(3) show ?thesis by auto
      qed
    qed
    ultimately show ?thesis by auto
  qed
  moreover have "ra_run iter (x # ops) (out, r) = Inr (out', r')" using 1(1) 2(1) by simp
  moreover have "ra_end_flag r' \<longleftrightarrow> ra_end_flag r \<or> (\<exists>x \<in> set (x # ops). op_eof x)" using 1(4) 2(3) by auto
  ultimately show ?case using 2(2) by blast
qed

subsection \<open>Counting what is pending\<close>

lemma ra_count_positions_spec:
  assumes "ra_count_positions ps (n, pos) = (n', pos')" and "distinct pos" and "n = sz pos"
  shows "distinct pos' \<and> n' = sz pos' \<and> set pos' = set pos \<union> set ps"
  using assms
proof (induction ps arbitrary: n pos)
  case (Cons p ps)
  show ?case
  proof (cases "p \<in> set pos")
    case True
    with Cons.prems have "ra_count_positions ps (n, pos) = (n', pos')" by simp
    from Cons.IH [OF this Cons.prems(2,3)] True show ?thesis by auto
  next
    case False
    with Cons.prems have "ra_count_positions ps (n + 1, p # pos) = (n', pos')" by simp
    from Cons.IH [OF this] False Cons.prems show ?thesis by (simp add: sz_def)
  qed
qed simp

lemma ra_count_all_spec:
  assumes "foldl (\<lambda>acc item. ra_count_positions (ra_positions item) acc) (n, pos) m = (n', pos')"
    and "distinct pos" and "n = sz pos"
  shows "distinct pos' \<and> n' = sz pos' \<and> set pos' = set pos \<union> (\<Union>kv \<in> set m. set (ra_positions kv))"
  using assms
proof (induction m arbitrary: n pos)
  case (Cons kv m)
  obtain n1 pos1 where 1: "ra_count_positions (ra_positions kv) (n, pos) = (n1, pos1)" by fastforce
  from ra_count_positions_spec [OF 1 Cons.prems(2,3)] have
    2: "distinct pos1" "n1 = sz pos1" "set pos1 = set pos \<union> set (ra_positions kv)" by auto
  from Cons.prems(1) 1 have "foldl (\<lambda>acc item. ra_count_positions (ra_positions item) acc) (n1, pos1) m = (n', pos')"
    by simp
  from Cons.IH [OF this 2(1,2)] 2(3) show ?case by auto
qed simp

lemma ra_positions_span:
  assumes "excerpt S k v" and "length S < 2 ^ 64"
  shows "unat ` set (ra_positions (k, v)) = span k v"
proof -
  have "unat (of_nat j + k) = unat k + j" if "j < length v" for j
  proof -
    have "unat (of_nat j :: u64) = j"
      using that assms by (simp add: excerpt_def unat_of_nat take_bit_eq_mod)
    then show ?thesis using that assms by (simp add: excerpt_def unat_add_nowrap)
  qed
  then have "unat ` set (ra_positions (k, v)) = (\<lambda>j. unat k + j) ` {..< length v}"
    by (auto simp: ra_positions_def image_image atLeast0LessThan)
  also have "\<dots> = span k v"
    by (simp add: span_def lessThan_atLeast0 add.commute)
  finally show ?thesis .
qed

lemma unassembled_covers:
  assumes S: "length S < 2 ^ 64" and m: "map_ok S (ra_map r)"
  shows "unat (unassembled_bytes r) = card (covers (ra_map r))"
proof -
  obtain n pos where fold: "foldl (\<lambda>acc item. ra_count_positions (ra_positions item) acc) (0, []) (ra_map r) = (n, pos)"
    by fastforce
  from ra_count_all_spec [OF this] have pos: "distinct pos" "n = sz pos"
    "set pos = (\<Union>kv \<in> set (ra_map r). set (ra_positions kv))" by simp_all
  have span: "unat ` set (ra_positions kv) = span (fst kv) (snd kv)" if "kv \<in> set (ra_map r)" for kv
    using ra_positions_span [OF _ S, of "fst kv" "snd kv"] that m by (simp add: map_ok_def entry_ok_def)
  then have img: "unat ` set pos = covers (ra_map r)" by (simp add: pos(3) covers_def image_UN)
  have "inj_on (unat :: u64 \<Rightarrow> nat) (set pos)" by (rule inj_onI) (metis unsigned_word_eqI)
  then have "card (covers (ra_map r)) = length pos"
    using card_image [of unat "set pos"] distinct_card [OF pos(1)] img by simp
  moreover have "covers (ra_map r) \<subseteq> {..< length S}"
    using m by (force simp: covers_def map_ok_def entry_ok_def dest: excerpt_span)
  then have "card (covers (ra_map r)) \<le> length S"
    using card_mono [of "{..< length S}"] by fastforce
  ultimately show ?thesis
    using S fold pos(2) by (simp add: unassembled_bytes_def unat_sz)
qed

subsection \<open>Single pushes\<close>

lemma hash_order_single: "hash_order iter \<Longrightarrow> iter [kv] = [fst kv]"
  by (auto simp: hash_order_def dest: spec [of _ "[kv]"])

lemma hash_order_pair: "hash_order iter \<Longrightarrow> iter [kv, kv'] = [fst kv, fst kv'] \<or> iter [kv, kv'] = [fst kv', fst kv]"
proof -
  assume "hash_order iter"
  then have m: "mset (iter [kv, kv']) = {#fst kv, fst kv'#}" by (auto simp: hash_order_def dest: spec [of _ "[kv, kv']"])
  then have "length (iter [kv, kv']) = 2" by (metis size_mset size_add_mset size_empty numeral_2_eq_2)
  then obtain a b where "iter [kv, kv'] = [a, b]" by (auto simp: length_Suc_conv numeral_2_eq_2)
  with m show ?thesis by (auto simp: add_eq_conv_ex)
qed

text \<open>The capacity check on one pending substring, when another has just been stored.\<close>

lemma ra_trim_single:
  assumes "i \<noteq> k" and "unat b + length p + length d < 2 ^ 64"
  shows "ra_trim [k] b cap [(k, p), (i, d)] =
    [(k, take (length p - (unat b + length p + length d - unat cap)) p), (i, d)] \<or>
   ra_trim [k] b cap [(k, p), (i, d)] =
    [(i, d), (k, take (length p - (unat b + length p + length d - unat cap)) p)]"
proof -
  have sz: "unat (sz p) = length p" "unat (sz d) = length d" using assms(2) by (simp_all add: unat_sz)
  let ?t = "b + (sz p + sz d)"
  have t: "unat ?t = unat b + length p + length d"
    using assms(2) sz by (simp add: unat_add_nowrap)
  have r: "cap < ?t \<Longrightarrow> unat (?t - cap) = unat b + length p + length d - unat cap"
    using t by (simp add: unat_diff_nowrap word_le_nat_alt word_less_nat_alt)
  have total: "b + ra_total_size [(k, p), (i, d)] = ?t" by (simp add: ra_total_size_def)
  have lists: "sort_greater_int [k] = [k]" by (simp add: sort_greater_int_def)
  have maps: "hash_touch k [(k, p), (i, d)] = [(k, p), (i, d)]" "hash_at k [(k, p), (i, d)] = p"
    "hash_touch k [(i, d)] = [(i, d), (k, [])]" "hash_at k [(i, d), (k, [])] = []"
    "AList.delete k [(k, p), (i, d)] = [(i, d)]"
    using assms(1) by (simp_all add: hash_touch_def hash_at_def AList.delete_eq)
  consider "\<not> cap < ?t" | "cap < ?t" "sz p \<le> ?t - cap" | "cap < ?t" "\<not> sz p \<le> ?t - cap" by blast
  then show ?thesis
  proof cases
    case 1
    then have "unat b + length p + length d - unat cap = 0" using t by (simp add: word_less_nat_alt)
    with 1 total show ?thesis by (simp add: ra_trim_def Let_def)
  next
    case 2
    then have "length p - (unat b + length p + length d - unat cap) = 0" using r sz by (simp add: word_le_nat_alt)
    with 2 total lists maps assms(1) show ?thesis by (simp add: ra_trim_def Let_def)
  next
    case 3
    have "?t - cap \<le> sz p" using 3(2) by simp
    from unat_diff_nowrap [OF this]
    have "unat (sz p - (?t - cap)) = length p - (unat b + length p + length d - unat cap)"
      by (simp only: r [OF 3(1)] sz)
    with 3 total lists maps show ?thesis by (simp add: ra_trim_def Let_def)
  qed
qed

lemma last_byte_before:
  assumes "d \<noteq> []" and "unat i + length d \<le> unat (w :: u64)"
  shows "i + sz d - 1 < w"
proof -
  have len: "length d < 2 ^ 64" using assms(2) unat_u64_lt [of w] by simp
  then have e: "unat (i + sz d) = unat i + length d"
    using assms(2) unat_u64_lt [of w] by (simp add: unat_add_nowrap unat_sz)
  have pos: "0 < length d" using assms(1) by simp
  then have "i + sz d \<noteq> 0" using e by auto
  then have "unat (i + sz d - 1) = unat i + length d - 1" by (simp add: unat_minus_one e)
  with pos assms(2) show ?thesis by (simp add: word_less_nat_alt del: length_greater_0_conv)
qed

text \<open>A stale substring beside one pending substring: it is dropped, the other is not reached.\<close>

lemma ra_assemble_stale:
  assumes "hash_order iter" and m: "ra_map r = [(k, p), (i, d)] \<or> ra_map r = [(i, d), (k, p)]" and k: "ra_willing r < k"
    and d: "d \<noteq> []" and stale: "unat i + length d \<le> unat (ra_willing r)"
  shows "ra_assemble iter r = Inr (r\<lparr>ra_map := [(k, p)]\<rparr>)"
proof -
  have last: "i + sz d - 1 < ra_willing r" by (rule last_byte_before [OF d stale])
  have i: "\<not> ra_willing r < i" using stale by (simp add: word_less_nat_alt)
  then have ne: "i \<noteq> k" using k by auto
  have at: "hash_at i (ra_map r) = d" "AList.delete i (ra_map r) = [(k, p)]"
    using m ne by (auto simp: hash_at_def AList.delete_eq)
  have "iter (ra_map r) = [k, i] \<or> iter (ra_map r) = [i, k]"
    using m hash_order_pair [OF assms(1), of "(k, p)" "(i, d)"] hash_order_pair [OF assms(1), of "(i, d)" "(k, p)"] by auto
  then have "ra_pass (iter (ra_map r)) r = Inr (r\<lparr>ra_map := [(k, p)]\<rparr>)"
    using k i at last by (auto simp: Let_def)
  then show ?thesis by (simp add: ra_assemble.simps)
qed

lemma push_beyond:
  assumes "hash_order iter" and "ra_map r = []" and "data \<noteq> []" and "ra_willing r < index"
  shows "\<exists>r'. push_substring iter data index eof r = Inr r' \<and> ra_map r' = [(index, data)] \<and>
    ra_willing r' = ra_willing r \<and> bs_bytes_w (ra_output r') = bs_bytes_w (ra_output r)"
proof -
  let ?r = "(ra_note_eof data index eof r)\<lparr>ra_map := [(index, data)]\<rparr>"
  have iter: "iter [] = []" "iter [(index, data)] = [index]"
    using assms(1) hash_order_single [OF assms(1)] by (auto simp: hash_order_def dest: spec [of _ "[]"])
  have "ra_assemble iter ?r = Inr ?r" using assms(4) by (simp add: ra_assemble.simps iter)
  moreover have "ra_clip data index (ra_willing r) = (data, index)" using assms(4) by (auto simp: ra_clip_def)
  moreover have "ra_trim [] b c m = m" for b c m by (simp add: ra_trim_def sort_greater_int_def Let_def)
  ultimately show ?thesis using assms(2,3) by (simp add: push_substring_eq Let_def iter)
qed

lemma unassembled_single:
  assumes "ra_map r = [(k, d)]" and "length d \<le> 2 ^ 64"
  shows "unassembled_bytes r = sz d"
proof -
  obtain n pos where c: "ra_count_positions (ra_positions (k, d)) (0, []) = (n, pos)" by fastforce
  from ra_count_positions_spec [OF c] have pos: "distinct pos" "n = sz pos" "set pos = set (ra_positions (k, d))" by simp_all
  have "inj_on (\<lambda>j. of_nat j :: u64) {..< length d}"
    using assms(2) by (intro inj_onI) (auto simp: word_of_nat_eq_iff take_bit_nat_eq_self)
  then have "distinct (ra_positions (k, d))"
    by (auto simp: ra_positions_def distinct_map inj_on_def atLeast0LessThan)
  then have "length pos = length d"
    using distinct_card [OF pos(1)] distinct_card [of "ra_positions (k, d)"] pos(3) by (simp add: ra_positions_def)
  with pos(2) c assms(1) show ?thesis by (simp add: unassembled_bytes_def sz_def)
qed

subsection \<open>Properties\<close>

lemma hash_order_insertion: "hash_order (map fst)"
  by (simp add: hash_order_def)

text \<open>
  C4. Reassembly is safe. Whatever excerpts of a stream S arrive, in whatever order, with
  whatever overlaps and duplicates, interleaved with reads, for every capacity and every
  iteration order of the hash table: no call throws or reaches undefined behaviour, the bytes
  read followed by the bytes readable are the first \<^const>\<open>bs_bytes_written\<close> bytes of S, and
  if the output has ended they are all of S.
\<close>

theorem reassembly_safe:
  assumes "length S < 2 ^ 64" and "hash_order iter" and "list_all (op_from S) ops"
  shows "\<exists>out r. ra_run iter ops ([], ra_init cap) = Inr (out, r) \<and>
    out @ bs_content (ra_stream_out r) = take (unat (bs_bytes_written (ra_stream_out r))) S \<and>
    unat (bs_bytes_written (ra_stream_out r)) \<le> length S \<and>
    (bs_input_ended (ra_stream_out r) \<longrightarrow> out @ bs_content (ra_stream_out r) = S)"
proof -
  from ra_run_ok [OF assms(1,2) ra_state_ok_init assms(3)] obtain out r where
    r: "ra_run iter ops ([], ra_init cap) = Inr (out, r)" "ra_state_ok S (out, r)" by blast
  then have tr: "bs_tracks S (ra_output r)" and out: "out = take (unat (bs_bytes_r (ra_output r))) S"
    by (simp_all add: ra_state_ok_def ra_inv_def ra_sync_def)
  then have "out @ bs_content (ra_output r) = take (unat (bs_bytes_w (ra_output r))) S"
    by (simp add: bs_tracks_def word_le_nat_alt) (metis append_take_drop_id min.absorb1 take_take)
  moreover have "unat (bs_bytes_w (ra_output r)) = length S" if "bs_input_ended (ra_output r)"
    using r(2) that assms(1)
    by (simp add: ra_state_ok_def ra_inv_def ra_sync_def bs_input_ended_def unat_sz)
  moreover have "unat (bs_bytes_w (ra_output r)) \<le> length S" using tr by (simp add: bs_tracks_def)
  ultimately show ?thesis
    using r(1) by (simp add: ra_stream_out_def bs_bytes_written_def)
qed

theorem reassembly_safe_witness:
  "\<exists>out r. ra_run (map fst) [Push [3, 4] 2 True, Read 9, Push [1, 2, 3] 0 False, Push [2] 1 False, Read 1]
      ([], ra_init 3) = Inr (out, r) \<and>
    out @ bs_content (ra_stream_out r) = take (unat (bs_bytes_written (ra_stream_out r))) [1, 2, 3, 4] \<and>
    unat (bs_bytes_written (ra_stream_out r)) \<le> length [1, 2, 3, 4 :: u8] \<and>
    (bs_input_ended (ra_stream_out r) \<longrightarrow> out @ bs_content (ra_stream_out r) = [1, 2, 3, 4])"
  by (rule reassembly_safe) (simp_all add: hash_order_insertion excerpt_def)

text \<open>
  C12. Reassembly is complete. If the pushed excerpts together cover the stream S, one of them
  carries the end-of-stream mark, and the capacity is at least the total length of what is
  pushed, then, in whatever order they arrive and whatever is read in between, at the end all
  of S has been delivered or is readable, and the output has ended.
\<close>

theorem reassembly_complete:
  assumes "length S < 2 ^ 64" and "hash_order iter" and "list_all (op_from S) ops"
    and "{..< length S} \<subseteq> (\<Union>x \<in> set ops. op_span x)" and "\<exists>x \<in> set ops. op_eof x"
    and "sum_list (map op_bytes ops) \<le> unat cap"
  shows "\<exists>out r. ra_run iter ops ([], ra_init cap) = Inr (out, r) \<and>
    out @ bs_content (ra_stream_out r) = S \<and> bs_input_ended (ra_stream_out r)"
proof -
  have "ra_used (ra_init cap) = 0" "ra_capacity (ra_init cap) = cap"
    by (simp_all add: ra_used_def ra_init_def bs_init_def stored_def)
  with ra_run_ok [OF assms(1,2) ra_state_ok_init [of S cap] assms(3)] assms(5,6) obtain out r where
    r: "ra_run iter ops ([], ra_init cap) = Inr (out, r)" "ra_state_ok S (out, r)" "ra_end_flag r"
      "(\<Union>x \<in> set ops. op_span x) \<subseteq> ra_covered r"
    by fastforce
  have inv: "ra_inv S r" and ends: "bs_end_flag (ra_output r) \<longleftrightarrow> ra_willing r = sz S"
    and out: "out = take (unat (bs_bytes_r (ra_output r))) S"
    using r(2,3) by (simp_all add: ra_state_ok_def)
  have le: "unat (ra_willing r) \<le> length S" using inv by (simp add: ra_inv_def ra_sync_def bs_tracks_def)
  have "\<not> unat (ra_willing r) < length S"
  proof
    assume "unat (ra_willing r) < length S"
    then have "unat (ra_willing r) \<in> covers (ra_map r)" using assms(4) r(4) by (auto simp: ra_covered_def)
    then obtain kv where "kv \<in> set (ra_map r)" "unat (fst kv) \<le> unat (ra_willing r)"
      by (auto simp: covers_def span_def)
    then show False using inv by (auto simp: ra_inv_def word_less_nat_alt)
  qed
  with le have w: "unat (ra_willing r) = length S" by simp
  with assms(1) have "ra_willing r = sz S" by (metis unat_sz unsigned_word_eqI)
  with ends have "bs_input_ended (ra_stream_out r)" by (simp add: bs_input_ended_def ra_stream_out_def)
  moreover have "out @ bs_content (ra_stream_out r) = S"
    using inv out w by (simp add: ra_inv_def ra_sync_def bs_tracks_def ra_stream_out_def)
  ultimately show ?thesis using r(1) by blast
qed

theorem reassembly_complete_witness:
  "\<exists>out r. ra_run (map fst) [Push [3, 4] 2 True, Read 9, Push [1, 2, 3] 0 False, Push [2] 1 False, Read 1]
      ([], ra_init 6) = Inr (out, r) \<and>
    out @ bs_content (ra_stream_out r) = [1, 2, 3, 4] \<and> bs_input_ended (ra_stream_out r)"
  by (rule reassembly_complete)
    (auto simp: hash_order_insertion excerpt_def span_def)

text \<open>
  Pushing the next expected bytes always advances the output. After any history, a push
  whose excerpt starts at or before the first missing byte makes the output grow up to the
  end of the excerpt, or up to the room left in the output stream, whichever comes first.
\<close>

theorem push_advances:
  assumes "length S < 2 ^ 64" and "hash_order iter" and "list_all (op_from S) ops"
    and "excerpt S index data"
  shows "\<exists>out r r'. ra_run iter ops ([], ra_init cap) = Inr (out, r) \<and>
    push_substring iter data index False r = Inr r' \<and>
    bs_bytes_written (ra_stream_out r) \<le> bs_bytes_written (ra_stream_out r') \<and>
    (index \<le> bs_bytes_written (ra_stream_out r) \<and> \<not> bs_input_ended (ra_stream_out r) \<longrightarrow>
       min (unat index + length data) (unat (bs_bytes_written (ra_stream_out r)) + bs_room (ra_stream_out r))
         \<le> unat (bs_bytes_written (ra_stream_out r')))"
proof -
  from ra_run_ok [OF assms(1,2) ra_state_ok_init assms(3)] obtain out r where
    r: "ra_run iter ops ([], ra_init cap) = Inr (out, r)" and ok: "ra_state_ok S (out, r)" by blast
  from ok have inv: "ra_inv S r" by (simp add: ra_state_ok_def)
  from push_substring_spec [OF assms(1,2) inv assms(4), of False] obtain r' where
    r': "push_substring iter data index False r = Inr r'" "ra_inv S r'" "ra_willing r \<le> ra_willing r'"
      "ra_progress data index r r'" by blast
  have "ra_willing r = bs_bytes_written (ra_stream_out r)" "ra_willing r' = bs_bytes_written (ra_stream_out r')"
    using inv r'(2) by (simp_all add: ra_inv_def ra_sync_def ra_stream_out_def bs_bytes_written_def)
  with r r' show ?thesis by (auto simp: ra_progress_def bs_input_ended_def ra_stream_out_def)
qed

theorem push_advances_witness:
  "\<exists>out r r'. ra_run (map fst) [Push [3, 4] 2 True] ([], ra_init 3) = Inr (out, r) \<and>
    push_substring (map fst) [1, 2, 3] 0 False r = Inr r' \<and>
    bs_bytes_written (ra_stream_out r) \<le> bs_bytes_written (ra_stream_out r') \<and>
    (0 \<le> bs_bytes_written (ra_stream_out r) \<and> \<not> bs_input_ended (ra_stream_out r) \<longrightarrow>
       min (unat (0 :: u64) + length [1, 2, 3 :: u8])
           (unat (bs_bytes_written (ra_stream_out r)) + bs_room (ra_stream_out r))
         \<le> unat (bs_bytes_written (ra_stream_out r')))"
  by (rule push_advances [of "[1, 2, 3, 4]"]) (simp_all add: hash_order_insertion excerpt_def)

text \<open>
  \<^const>\<open>unassembled_bytes\<close> is the number of distinct stream positions held in pending
  substrings, after any history of pushes and reads.
\<close>

theorem unassembled_bytes_counts:
  assumes "length S < 2 ^ 64" and "hash_order iter" and "list_all (op_from S) ops"
  shows "\<exists>out r. ra_run iter ops ([], ra_init cap) = Inr (out, r) \<and>
    unat (unassembled_bytes r) = card (covers (ra_map r)) \<and>
    (unassembled_bytes r = 0 \<longleftrightarrow> covers (ra_map r) = {}) \<and>
    (\<forall>p \<in> covers (ra_map r). unat (bs_bytes_written (ra_stream_out r)) < p \<and> p < length S)"
proof -
  from ra_run_ok [OF assms(1,2) ra_state_ok_init assms(3)] obtain out r where
    r: "ra_run iter ops ([], ra_init cap) = Inr (out, r)" and ok: "ra_state_ok S (out, r)" by blast
  from ok have inv: "ra_inv S r" by (simp add: ra_state_ok_def)
  then have m: "map_ok S (ra_map r)" and w: "ra_willing r = bs_bytes_written (ra_stream_out r)"
    by (simp_all add: ra_inv_def ra_sync_def ra_stream_out_def bs_bytes_written_def)
  have above: "ra_willing r < fst kv" if "kv \<in> set (ra_map r)" for kv
    using inv that unfolding ra_inv_def by blast
  note count = unassembled_covers [OF assms(1) m]
  have bound: "covers (ra_map r) \<subseteq> {..< length S}"
    using ra_covered_bound [OF inv] by (simp add: ra_covered_def)
  then have "finite (covers (ra_map r))" by (rule finite_subset) simp
  with count have "unassembled_bytes r = 0 \<longleftrightarrow> covers (ra_map r) = {}" by (metis card_eq_0_iff unat_eq_zero)
  moreover have "unat (ra_willing r) < p" if "p \<in> covers (ra_map r)" for p
    using that above by (fastforce simp: covers_def span_def word_less_nat_alt)
  ultimately show ?thesis using r count bound unfolding w by blast
qed

theorem unassembled_bytes_counts_witness:
  "\<exists>out r. ra_run (map fst) [Push [3, 4] 2 True, Push [4] 3 False] ([], ra_init 3) = Inr (out, r) \<and>
    unat (unassembled_bytes r) = card (covers (ra_map r)) \<and>
    (unassembled_bytes r = 0 \<longleftrightarrow> covers (ra_map r) = {}) \<and>
    (\<forall>p \<in> covers (ra_map r). unat (bs_bytes_written (ra_stream_out r)) < p \<and> p < length [1, 2, 3, 4 :: u8])"
  by (rule unassembled_bytes_counts) (simp_all add: hash_order_insertion excerpt_def)

text \<open>
  C19. The capacity does not bound what is pending: a new reassembler stores the whole of its
  first out-of-order substring whatever its capacity is, because the list of keys the
  capacity check works on was collected before the substring was inserted.
\<close>

theorem first_push_ignores_capacity:
  assumes "hash_order iter" and "data \<noteq> []" and "index \<noteq> 0" and "unat index + length data < 2 ^ 64"
  shows "\<exists>r. push_substring iter data index False (ra_init cap) = Inr r \<and> unassembled_bytes r = sz data"
proof -
  let ?r = "(ra_init cap)\<lparr>ra_map := [(index, data)]\<rparr>"
  have k0: "iter [] = []" and k1: "iter [(index, data)] = [index]"
    using assms(1) mset_eq_setD [of "iter [(index, data)]" "[index]"]
    by (auto simp: hash_order_def dest: spec [of _ "[]"] spec [of _ "[(index, data)]"])
  have init: "ra_map (ra_init cap) = []" "ra_willing (ra_init cap) = 0" "\<not> ra_end_flag (ra_init cap)"
    by (simp_all add: ra_init_def)
  have trim: "ra_trim [] b c m = m" for b c m by (simp add: ra_trim_def sort_greater_int_def Let_def)
  have "ra_assemble iter ?r = Inr ?r"
    using assms(3) by (simp add: ra_assemble.simps k1 init word_neq_0_conv)
  then have "push_substring iter data index False (ra_init cap) = Inr ?r"
    using assms(2) by (simp add: push_substring_def init k0 trim ra_finish_def)
  moreover have "unassembled_bytes ?r = sz data"
  proof -
    let ?S = "replicate (unat index) 0 @ data"
    have S: "length ?S < 2 ^ 64" using assms(4) by simp
    have "map_ok ?S (ra_map ?r)" using assms(2) by (simp add: map_ok_def entry_ok_def excerpt_def)
    from unassembled_covers [OF S this] have "unat (unassembled_bytes ?r) = length data"
      by (simp add: covers_def span_def)
    moreover have "unat (sz data) = length data" using assms(4) by (intro unat_sz) linarith
    ultimately show ?thesis by (metis unsigned_word_eqI)
  qed
  ultimately show ?thesis by blast
qed

theorem first_push_ignores_capacity_witness:
  "\<exists>r. push_substring (map fst) [1, 2, 3, 4] 5 False (ra_init 2) = Inr r \<and>
    unassembled_bytes r = sz [1, 2, 3, 4 :: u8]"
  by (rule first_push_ignores_capacity) (simp_all add: hash_order_insertion)

text \<open>
  C20. A retransmitted substring that has been assembled already costs pending bytes. When one
  substring is pending beyond the next expected byte and a substring is pushed of which every
  byte has been assembled, the old bytes count against the capacity before they are dropped:
  the pending substring loses as many of its last bytes as the two together exceed it, up to all of them.
\<close>

theorem stale_push_evicts_pending:
  assumes "hash_order iter" and "ra_map r = [(k, pending)]" and "ra_willing r < k"
    and "data \<noteq> []" and "unat index + length data \<le> unat (ra_willing r)"
    and "unat (bs_buffer_size (ra_output r)) + length pending + length data < 2 ^ 64"
  shows "\<exists>r'. push_substring iter data index False r = Inr r' \<and> ra_willing r' = ra_willing r \<and>
    ra_map r' = [(k, take (length pending - (unat (bs_buffer_size (ra_output r)) + length pending + length data
      - unat (ra_capacity r))) pending)]"
proof -
  have last: "index + sz data - 1 < ra_willing r" by (rule last_byte_before [OF assms(4,5)])
  from this assms(3) have apart: "index + sz data - 1 < k" by (rule order.strict_trans)
  have ne: "index \<noteq> k" using assms(3,5) by (auto simp: word_less_nat_alt)
  have merge: "ra_merge [k] data index [(k, pending)] = Inr (data, index, [(k, pending)])"
    using apart by (simp add: hash_touch_def)
  let ?m = "ra_trim [k] (bs_buffer_size (ra_output r)) (ra_capacity r) [(k, pending), (index, data)]"
  from ra_assemble_stale [OF assms(1), where r = "r\<lparr>ra_map := ?m\<rparr>"] ra_trim_single [OF ne assms(6)] assms(3,4,5)
  have "ra_assemble iter (r\<lparr>ra_map := ?m\<rparr>) = Inr (r\<lparr>ra_map := [(k, take (length pending -
      (unat (bs_buffer_size (ra_output r)) + length pending + length data - unat (ra_capacity r))) pending)]\<rparr>)"
    by fastforce
  moreover have "\<not> ra_willing r \<le> index + sz data - 1" using last by simp
  ultimately show ?thesis using assms(2,4) merge ne hash_order_single [OF assms(1), of "(k, pending)"]
    by (simp add: push_substring_def del: ra_merge.simps)
qed

theorem stale_push_evicts_pending_witness:
  "\<exists>r r'. ra_run (map fst) [Push [1] 0 False, Push [3] 2 False] ([], ra_init 2) = Inr ([], r) \<and> unassembled_bytes r = 1 \<and>
    push_substring (map fst) [1] 0 False r = Inr r' \<and> ra_map r' = [(2, [])]"
proof -
  have "case ra_run (map fst) [Push [1] 0 False, Push [3] 2 False] ([], ra_init 2) of Inl _ \<Rightarrow> False
    | Inr (o1, r) \<Rightarrow> o1 = [] \<and> ra_map r = [(2, [3])] \<and> ra_willing r = 1 \<and> bs_buffer_size (ra_output r) = 1 \<and> ra_capacity r = 2 \<and> unassembled_bytes r = 1"
    by code_simp
  then obtain r where r: "ra_run (map fst) [Push [1] 0 False, Push [3] 2 False] ([], ra_init 2) = Inr ([], r)"
    "ra_map r = [(2, [3])]" "ra_willing r = 1" "bs_buffer_size (ra_output r) = 1" "ra_capacity r = 2" "unassembled_bytes r = 1"
    by (auto split: sum.splits prod.splits)
  from stale_push_evicts_pending [OF hash_order_insertion r(2), of "[1]" 0] r show ?thesis
    by (auto simp del: ra_run.simps)
qed

end
