(* ===== verification/TCP_Receiver.thy ===== *)
theory TCP_Receiver
  imports Reassembly TCP_Segment
begin

text \<open>
  The TCP receiver of \<^verbatim>\<open>libsponge/tcp_receiver.{hh,cc}\<close>: it turns the sequence numbers of
  incoming segments into stream indices and hands the payload to the reassembler.
\<close>

record tcp_receiver =
  rcv_reassembler :: reassembler
  rcv_capacity :: u64
  rcv_isn :: "wrapping_int32 option"

definition rcv_init :: "u64 \<Rightarrow> tcp_receiver" where
  "rcv_init capacity = \<lparr>rcv_reassembler = ra_init capacity, rcv_capacity = capacity, rcv_isn = None\<rparr>"

definition rcv_segment_received :: "iteration \<Rightarrow> tcp_segment \<Rightarrow> tcp_receiver \<Rightarrow> tcp_receiver result" where
  "rcv_segment_received iter seg r =
     (let header = seg_header seg;
          payload = seg_payload seg;
          r = (if th_syn header then r\<lparr>rcv_isn := Some (th_seqno header)\<rparr> else r);
          end_flag = (th_fin header \<and> rcv_isn r \<noteq> None)
      in case rcv_isn r of
           None \<Rightarrow> Inr r
         | Some isn \<Rightarrow>
             let str_index = (if \<not> th_syn header then unwrap (th_seqno header) isn 0 - 1 else 0)
             in bindE (push_substring iter (buffer_copy payload) str_index end_flag (rcv_reassembler r))
                  (\<lambda>ra. Inr (r\<lparr>rcv_reassembler := ra\<rparr>)))"

definition rcv_stream_out :: "tcp_receiver \<Rightarrow> byte_stream" where
  "rcv_stream_out r = ra_stream_out (rcv_reassembler r)"

definition rcv_ackno :: "tcp_receiver \<Rightarrow> wrapping_int32 option" where
  "rcv_ackno r =
     (case rcv_isn r of
        None \<Rightarrow> None
      | Some isn \<Rightarrow>
          let end_flag = bs_input_ended (rcv_stream_out r)
          in Some (wrap (bs_bytes_written (rcv_stream_out r) + 1 + (if end_flag then 1 else 0)) isn))"

definition rcv_window_size :: "tcp_receiver \<Rightarrow> u64" where
  "rcv_window_size r = rcv_capacity r - bs_buffer_size (rcv_stream_out r)"

definition rcv_unassembled_bytes :: "tcp_receiver \<Rightarrow> u64" where
  "rcv_unassembled_bytes r = unassembled_bytes (rcv_reassembler r)"

subsection \<open>Histories\<close>

datatype rcv_op = Rcv_segment tcp_segment | Rcv_read u64

fun rcv_step :: "iteration \<Rightarrow> rcv_op \<Rightarrow> bytes \<times> tcp_receiver \<Rightarrow> (bytes \<times> tcp_receiver) result" where
  "rcv_step iter (Rcv_segment seg) (out, r) =
     bindE (rcv_segment_received iter seg r) (\<lambda>r'. Inr (out, r'))"
| "rcv_step iter (Rcv_read len) (out, r) =
     bindE (bs_read len (rcv_stream_out r)) (\<lambda>(d, s).
       Inr (out @ d, r\<lparr>rcv_reassembler := (rcv_reassembler r)\<lparr>ra_output := s\<rparr>\<rparr>))"

fun rcv_run :: "iteration \<Rightarrow> rcv_op list \<Rightarrow> bytes \<times> tcp_receiver \<Rightarrow> (bytes \<times> tcp_receiver) result" where
  "rcv_run iter [] st = Inr st"
| "rcv_run iter (x # xs) st = bindE (rcv_step iter x st) (rcv_run iter xs)"

fun rcv_op_from :: "bytes \<Rightarrow> wrapping_int32 \<Rightarrow> rcv_op \<Rightarrow> bool" where
  "rcv_op_from S isn (Rcv_segment seg) \<longleftrightarrow> seg_from S isn seg"
| "rcv_op_from S isn (Rcv_read len) \<longleftrightarrow> True"

fun rcv_op_syn :: "rcv_op \<Rightarrow> bool" where
  "rcv_op_syn (Rcv_segment seg) \<longleftrightarrow> th_syn (seg_header seg)"
| "rcv_op_syn (Rcv_read len) \<longleftrightarrow> False"

text \<open>
  What is true after any history: nothing happens before the SYN, and after it the receiver
  is a reassembler of \<open>S\<close>.
\<close>

definition rcv_ok :: "u64 \<Rightarrow> bytes \<Rightarrow> wrapping_int32 \<Rightarrow> bytes \<times> tcp_receiver \<Rightarrow> bool" where
  "rcv_ok cap S isn st \<longleftrightarrow> (case st of (out, r) \<Rightarrow>
     ra_state_ok S (out, rcv_reassembler r) \<and> rcv_capacity r = cap \<and>
     ra_capacity (rcv_reassembler r) = cap \<and>
     (case rcv_isn r of None \<Rightarrow> True | Some i \<Rightarrow> i = isn))"

lemma seg_from_index:
  assumes "seg_from S isn seg" and "\<not> seg_bare seg" and "length S + 1 < 2 ^ 32"
  defines "i \<equiv> (if \<not> th_syn (seg_header seg) then unwrap (th_seqno (seg_header seg)) isn 0 - 1 else 0)"
  shows "excerpt S i (buffer_str (seg_payload seg))"
    and "th_fin (seg_header seg) \<Longrightarrow> unat i + length (buffer_str (seg_payload seg)) = length S"
    and "th_syn (seg_header seg) \<Longrightarrow> th_seqno (seg_header seg) = isn"
proof -
  let ?d = "buffer_str (seg_payload seg)"
  from assms(1,2) obtain n where n: "n \<le> length S + 1" "th_seqno (seg_header seg) = wrap (of_nat n) isn"
    "th_syn (seg_header seg) \<longleftrightarrow> n = 0" "n - 1 + length ?d \<le> length S"
    "?d = take (length ?d) (drop (n - 1) S)" "th_fin (seg_header seg) \<longrightarrow> n - 1 + length ?d = length S"
    by (auto simp: seg_from_def Let_def)
  have n32: "n < 4294967296" using n(1) assms(3) by simp
  then have un: "unat (of_nat n :: u64) = n" by (simp add: unat_of_nat take_bit_eq_mod)
  have "rel_seq (th_seqno (seg_header seg)) isn = n"
    unfolding n(2) wrap_rel_seq un using n32 by simp
  then have uw: "unat (unwrap (th_seqno (seg_header seg)) isn 0) = n" by (simp only: unwrap_checkpoint_0)
  have i: "unat i = n - 1"
  proof (cases "n = 0")
    case True
    with n(3) show ?thesis by (simp add: i_def)
  next
    case False
    with uw have "unwrap (th_seqno (seg_header seg)) isn 0 \<noteq> 0" by auto
    with uw False n(3) show ?thesis by (simp add: i_def unat_minus_one)
  qed
  with n show "excerpt S i ?d" "th_fin (seg_header seg) \<Longrightarrow> unat i + length ?d = length S"
    by (simp_all add: excerpt_def)
  show "th_syn (seg_header seg) \<Longrightarrow> th_seqno (seg_header seg) = isn"
    using n(2,3) by (simp add: wrap_eq_iff rel_seq_def)
qed

lemma rcv_bare_segment:
  assumes "seg_bare seg"
  shows "rcv_segment_received iter seg r =
    Inr (case rcv_isn r of None \<Rightarrow> r | Some isn \<Rightarrow> r\<lparr>rcv_reassembler := ra_finish (rcv_reassembler r)\<rparr>)"
  using assms
  by (simp add: rcv_segment_received_def seg_bare_def push_substring_def Let_def split: option.split)

lemma ra_finish_state_ok:
  assumes "ra_state_ok S (out, r)"
  shows "ra_state_ok S (out, ra_finish r)"
  using assms ra_finish_inv [of S r] by (simp add: ra_state_ok_def)

lemma rcv_full_segment:
  assumes S: "length S + 1 < 2 ^ 32" and iter: "hash_order iter"
    and ok: "rcv_ok cap S isn (out, r)" and seg: "seg_from S isn seg" and bare: "\<not> seg_bare seg"
  shows "\<exists>r'. rcv_segment_received iter seg r = Inr r' \<and> rcv_ok cap S isn (out, r') \<and>
    (rcv_isn r' \<noteq> None \<longleftrightarrow> rcv_isn r \<noteq> None \<or> th_syn (seg_header seg))"
proof -
  have S64: "length S < 2 ^ 64" using S by simp
  have st: "ra_state_ok S (out, rcv_reassembler r)" using ok by (simp add: rcv_ok_def)
  note idx = seg_from_index [OF seg bare S]
  let ?i = "if \<not> th_syn (seg_header seg) then unwrap (th_seqno (seg_header seg)) isn 0 - 1 else 0"
  let ?push = "Push (buffer_str (seg_payload seg)) ?i (th_fin (seg_header seg))"
  from ra_step_ok [OF S64 iter st, of ?push] idx(1,2) obtain ra where
    ra: "push_substring iter (buffer_str (seg_payload seg)) ?i (th_fin (seg_header seg)) (rcv_reassembler r) = Inr ra"
      "ra_state_ok S (out, ra)" "ra_capacity ra = ra_capacity (rcv_reassembler r)"
    by (auto simp: bindE_eq_Inr_iff)
  show ?thesis
  proof (cases "rcv_isn r = None \<and> \<not> th_syn (seg_header seg)")
    case True
    with ok show ?thesis by (simp add: rcv_segment_received_def Let_def)
  next
    case False
    then have isn: "rcv_isn (if th_syn (seg_header seg) then r\<lparr>rcv_isn := Some (th_seqno (seg_header seg))\<rparr> else r) = Some isn"
      using ok idx(3) by (auto simp: rcv_ok_def split: option.splits)
    let ?r = "(if th_syn (seg_header seg) then r\<lparr>rcv_isn := Some (th_seqno (seg_header seg))\<rparr> else r)\<lparr>rcv_reassembler := ra\<rparr>"
    have "rcv_segment_received iter seg r = Inr ?r"
      unfolding rcv_segment_received_def Let_def isn using ra(1) by (simp split: if_splits)
    moreover have "rcv_ok cap S isn (out, ?r)"
      using ok ra(2,3) isn by (auto simp: rcv_ok_def split: if_splits)
    ultimately show ?thesis using isn False by auto
  qed
qed

lemma rcv_step_ok:
  assumes S: "length S + 1 < 2 ^ 32" and iter: "hash_order iter"
    and ok: "rcv_ok cap S isn (out, r)" and x: "rcv_op_from S isn x"
  shows "\<exists>out' r'. rcv_step iter x (out, r) = Inr (out', r') \<and> rcv_ok cap S isn (out', r') \<and>
    (rcv_isn r' \<noteq> None \<longleftrightarrow> rcv_isn r \<noteq> None \<or> rcv_op_syn x)"
proof -
  have S64: "length S < 2 ^ 64" using S by simp
  have st: "ra_state_ok S (out, rcv_reassembler r)" using ok by (simp add: rcv_ok_def)
  show ?thesis
  proof (cases x)
    case (Rcv_segment seg)
    then have seg: "seg_from S isn seg" using x by simp
    show ?thesis
    proof (cases "seg_bare seg")
      case True
      then have "\<not> th_syn (seg_header seg)" by (simp add: seg_bare_def)
      with Rcv_segment ok ra_finish_state_ok [OF st] rcv_bare_segment [OF True, of iter r] show ?thesis
        by (auto simp: rcv_ok_def split: option.split)
    next
      case False
      from rcv_full_segment [OF S iter ok seg False] Rcv_segment show ?thesis by auto
    qed
  next
    case (Rcv_read len)
    from ra_step_ok [OF S64 iter st, of "Read len"] obtain d s where
      s: "bs_read len (ra_output (rcv_reassembler r)) = Inr (d, s)"
        "ra_state_ok S (out @ d, (rcv_reassembler r)\<lparr>ra_output := s\<rparr>)"
      by (auto simp: bindE_eq_Inr_iff ra_stream_out_def)
    with Rcv_read ok show ?thesis by (simp add: rcv_stream_out_def ra_stream_out_def rcv_ok_def)
  qed
qed

lemma rcv_run_ok:
  assumes S: "length S + 1 < 2 ^ 32" and iter: "hash_order iter"
    and "rcv_ok cap S isn (out, r)" and "list_all (rcv_op_from S isn) ops"
  shows "\<exists>out' r'. rcv_run iter ops (out, r) = Inr (out', r') \<and> rcv_ok cap S isn (out', r') \<and>
    (rcv_isn r' \<noteq> None \<longleftrightarrow> rcv_isn r \<noteq> None \<or> (\<exists>x \<in> set ops. rcv_op_syn x))"
  using assms(3,4)
proof (induction ops arbitrary: out r)
  case (Cons x ops)
  from Cons.prems(2) have x: "rcv_op_from S isn x" and ops: "list_all (rcv_op_from S isn) ops" by simp_all
  from rcv_step_ok [OF S iter Cons.prems(1) x] obtain out1 r1 where
    1: "rcv_step iter x (out, r) = Inr (out1, r1)" "rcv_ok cap S isn (out1, r1)"
      "rcv_isn r1 \<noteq> None \<longleftrightarrow> rcv_isn r \<noteq> None \<or> rcv_op_syn x"
    by blast
  from Cons.IH [OF 1(2) ops] 1(1,3) show ?case by auto
qed simp

lemma rcv_ok_init: "rcv_ok cap S isn ([], rcv_init cap)"
  using ra_state_ok_init [of S cap] by (simp add: rcv_ok_def rcv_init_def ra_init_def)

text \<open>What has been delivered or can be read is a prefix of the stream, all of it at the end.\<close>

lemma rcv_ok_got:
  assumes ok: "rcv_ok cap S isn (out, r)" and S: "length S + 1 < 2 ^ 32"
  shows "length (out @ bs_content (rcv_stream_out r)) = unat (bs_bytes_w (rcv_stream_out r))"
    and "out @ bs_content (rcv_stream_out r) = take (unat (bs_bytes_w (rcv_stream_out r))) S"
    and "bs_input_ended (rcv_stream_out r) \<Longrightarrow> out @ bs_content (rcv_stream_out r) = S"
proof -
  let ?s = "rcv_stream_out r"
  have st: "ra_state_ok S (out, rcv_reassembler r)" using ok by (simp add: rcv_ok_def)
  then have tr: "bs_tracks S ?s" and out: "out = take (unat (bs_bytes_r ?s)) S"
    and w: "ra_willing (rcv_reassembler r) = bs_bytes_w ?s"
    by (simp_all add: ra_state_ok_def ra_inv_def ra_sync_def rcv_stream_out_def ra_stream_out_def)
  have le: "unat (bs_bytes_w ?s) \<le> length S" "unat (bs_bytes_r ?s) \<le> unat (bs_bytes_w ?s)"
    and c: "bs_content ?s = drop (unat (bs_bytes_r ?s)) (take (unat (bs_bytes_w ?s)) S)"
    using tr by (simp_all add: bs_tracks_def word_le_nat_alt)
  show got: "out @ bs_content ?s = take (unat (bs_bytes_w ?s)) S"
    unfolding out c using le by (metis append_take_drop_id min.absorb1 take_take)
  then show "length (out @ bs_content ?s) = unat (bs_bytes_w ?s)" using le by simp
  show "bs_input_ended ?s \<Longrightarrow> out @ bs_content ?s = S"
    using st w got S
    by (simp add: ra_state_ok_def rcv_stream_out_def ra_stream_out_def bs_input_ended_def unat_sz)
qed

subsection \<open>Properties\<close>

text \<open>
  C5. The receiver delivers the peer's stream. Whatever segments of a stream S (shorter than
  2^32 - 1 bytes) with initial sequence number isn arrive, in whatever order, duplicated or
  overlapping, before or after the SYN, interleaved with reads: no call fails; the bytes read
  followed by the bytes readable are a prefix of S, all of S once the stream has ended; the
  acknowledgment number is that of the first byte still missing, counting the SYN and the FIN,
  and there is none before the SYN; the window is the capacity minus what waits to be read.
\<close>

theorem receiver_delivers:
  assumes "length S + 1 < 2 ^ 32" and "hash_order iter" and "list_all (rcv_op_from S isn) ops"
  shows "\<exists>out r. rcv_run iter ops ([], rcv_init cap) = Inr (out, r) \<and>
    (let got = out @ bs_content (rcv_stream_out r); ended = bs_input_ended (rcv_stream_out r) in
     got = take (length got) S \<and> (ended \<longrightarrow> got = S) \<and>
     rcv_ackno r = (if \<exists>x \<in> set ops. rcv_op_syn x
                    then Some (wrap (of_nat (1 + length got + (if ended then 1 else 0))) isn) else None) \<and>
     unat (rcv_window_size r) = unat cap - length (bs_content (rcv_stream_out r)))"
proof -
  have "rcv_isn (rcv_init cap) = None" by (simp add: rcv_init_def)
  with rcv_run_ok [OF assms(1,2) rcv_ok_init [of cap] assms(3)] obtain out r where
    r: "rcv_run iter ops ([], rcv_init cap) = Inr (out, r)" "rcv_ok cap S isn (out, r)"
      "rcv_isn r \<noteq> None \<longleftrightarrow> (\<exists>x \<in> set ops. rcv_op_syn x)"
    by blast
  let ?s = "rcv_stream_out r"
  have tr: "bs_tracks S ?s" and cap: "bs_capacity ?s = cap"
    using r(2)
    by (auto simp: rcv_ok_def ra_state_ok_def ra_inv_def ra_sync_def rcv_stream_out_def ra_stream_out_def)
  have inv: "bs_inv ?s" using tr by (simp add: bs_tracks_def)
  note got = rcv_ok_got [OF r(2) assms(1)]
  have len: "length (out @ bs_content ?s) = unat (bs_bytes_w ?s)" by (rule got(1))
  have "bs_input_ended ?s \<Longrightarrow> out @ bs_content ?s = S" by (rule got(3))
  moreover have "rcv_ackno r = (if \<exists>x \<in> set ops. rcv_op_syn x
      then Some (wrap (of_nat (1 + length (out @ bs_content ?s) + (if bs_input_ended ?s then 1 else 0))) isn) else None)"
    using r(2,3) unfolding len rcv_ackno_def rcv_ok_def bs_bytes_written_def Let_def
    by (auto simp: add.commute split: option.splits)
  moreover have "unat (rcv_window_size r) = unat cap - length (bs_content ?s)"
    using inv cap r(2) bs_room_eq [OF inv]
    by (simp add: rcv_window_size_def rcv_ok_def bs_buffer_size_def bs_room_def bs_remaining_capacity_def)
  moreover have "out @ bs_content ?s = take (length (out @ bs_content ?s)) S" unfolding len by (rule got(2))
  ultimately show ?thesis using r(1) unfolding Let_def by blast
qed

theorem receiver_delivers_witness:
  "\<exists>out r. rcv_run (map fst)
      [Rcv_segment \<lparr>seg_header = th_default\<lparr>th_seqno := WrappingInt32 2, th_fin := True\<rparr>, seg_payload = buffer_of [8, 9]\<rparr>,
       Rcv_segment \<lparr>seg_header = th_default\<lparr>th_seqno := WrappingInt32 0, th_syn := True\<rparr>, seg_payload = buffer_of [7]\<rparr>,
       Rcv_read 1] ([], rcv_init 4) = Inr (out, r) \<and>
    (let got = out @ bs_content (rcv_stream_out r); ended = bs_input_ended (rcv_stream_out r) in
     got = take (length got) [7, 8, 9] \<and> (ended \<longrightarrow> got = [7, 8, 9]) \<and>
     rcv_ackno r = (if \<exists>x \<in> set [Rcv_segment \<lparr>seg_header = th_default\<lparr>th_seqno := WrappingInt32 2, th_fin := True\<rparr>, seg_payload = buffer_of [8, 9]\<rparr>,
       Rcv_segment \<lparr>seg_header = th_default\<lparr>th_seqno := WrappingInt32 0, th_syn := True\<rparr>, seg_payload = buffer_of [7]\<rparr>,
       Rcv_read 1]. rcv_op_syn x
                    then Some (wrap (of_nat (1 + length got + (if ended then 1 else 0))) (WrappingInt32 0)) else None) \<and>
     unat (rcv_window_size r) = unat (4 :: u64) - length (bs_content (rcv_stream_out r)))"
proof (rule receiver_delivers)
  show "list_all (rcv_op_from [7, 8, 9] (WrappingInt32 0))
      [Rcv_segment \<lparr>seg_header = th_default\<lparr>th_seqno := WrappingInt32 2, th_fin := True\<rparr>, seg_payload = buffer_of [8, 9]\<rparr>,
       Rcv_segment \<lparr>seg_header = th_default\<lparr>th_seqno := WrappingInt32 0, th_syn := True\<rparr>, seg_payload = buffer_of [7]\<rparr>,
       Rcv_read 1]"
    by (auto simp: seg_from_def Let_def th_default_def wrap_def wi_add_def intro: exI [of _ 2] exI [of _ 0])
qed (simp_all add: hash_order_insertion)

text \<open>
  C23. A segment that carries data but starts at the initial sequence number without the SYN
  flag, which is the number of the SYN and of no byte, is not discarded. A receiver that knows
  the initial sequence number and has nothing pending stores its payload under the stream index
  2^64 - 1 and counts it as unassembled, although no byte of it belongs to the stream.
\<close>

theorem isn_data_is_stored:
  assumes "hash_order iter" and "rcv_isn r = Some isn" and "ra_map (rcv_reassembler r) = []"
    and "ra_willing (rcv_reassembler r) \<noteq> 2 ^ 64 - 1"
    and "\<not> th_syn (seg_header seg)" and "th_seqno (seg_header seg) = isn"
    and "buffer_str (seg_payload seg) \<noteq> []" and "length (buffer_str (seg_payload seg)) < 2 ^ 64"
  shows "\<exists>r'. rcv_segment_received iter seg r = Inr r' \<and>
    ra_map (rcv_reassembler r') = [(2 ^ 64 - 1, buffer_str (seg_payload seg))] \<and>
    rcv_unassembled_bytes r' = sz (buffer_str (seg_payload seg)) \<and>
    bs_bytes_written (rcv_stream_out r') = bs_bytes_written (rcv_stream_out r)"
proof -
  let ?d = "buffer_str (seg_payload seg)" and ?ra = "rcv_reassembler r"
  have index: "unwrap (th_seqno (seg_header seg)) isn 0 - 1 = (2 ^ 64 - 1 :: u64)"
    using assms(6) unwrap_checkpoint_0 [of isn isn] by (simp add: rel_seq_def unat_eq_zero)
  have "ra_willing ?ra < 2 ^ 64 - 1"
    using assms(4) unat_u64_lt [of "ra_willing ?ra"] by (simp add: order.strict_iff_order word_le_nat_alt)
  from push_beyond [OF assms(1,3,7) this] obtain ra where
    ra: "push_substring iter ?d (2 ^ 64 - 1) (th_fin (seg_header seg)) ?ra = Inr ra" "ra_map ra = [(2 ^ 64 - 1, ?d)]"
      "bs_bytes_w (ra_output ra) = bs_bytes_w (ra_output ?ra)" by blast
  from ra(1) index assms(2,5) have "rcv_segment_received iter seg r = Inr (r\<lparr>rcv_reassembler := ra\<rparr>)"
    by (simp add: rcv_segment_received_def Let_def buffer_copy_def)
  moreover have "unassembled_bytes ra = sz ?d" by (rule unassembled_single [OF ra(2)]) (use assms(8) in simp)
  ultimately show ?thesis using ra(2,3)
    by (simp add: rcv_unassembled_bytes_def rcv_stream_out_def ra_stream_out_def bs_bytes_written_def)
qed

theorem isn_data_is_stored_witness:
  "\<exists>r r'. rcv_segment_received (map fst) \<lparr>seg_header = th_default\<lparr>th_syn := True\<rparr>, seg_payload = buffer_of []\<rparr> (rcv_init 10) = Inr r \<and>
    rcv_segment_received (map fst) \<lparr>seg_header = th_default, seg_payload = buffer_of [65]\<rparr> r = Inr r' \<and>
    ra_map (rcv_reassembler r') = [(2 ^ 64 - 1, [65])] \<and> rcv_unassembled_bytes r' = 1"
proof -
  have "case rcv_segment_received (map fst) \<lparr>seg_header = th_default\<lparr>th_syn := True\<rparr>, seg_payload = buffer_of []\<rparr> (rcv_init 10) of
      Inl _ \<Rightarrow> False | Inr r \<Rightarrow> rcv_isn r = Some (WrappingInt32 0) \<and> ra_map (rcv_reassembler r) = [] \<and> ra_willing (rcv_reassembler r) = 0"
    by code_simp
  then obtain r where r: "rcv_segment_received (map fst) \<lparr>seg_header = th_default\<lparr>th_syn := True\<rparr>, seg_payload = buffer_of []\<rparr> (rcv_init 10) = Inr r"
    "rcv_isn r = Some (WrappingInt32 0)" "ra_map (rcv_reassembler r) = []" "ra_willing (rcv_reassembler r) = 0"
    by (auto split: sum.splits)
  from isn_data_is_stored [OF hash_order_insertion r(2,3), of "\<lparr>seg_header = th_default, seg_payload = buffer_of [65]\<rparr>"] r
  show ?thesis by (auto simp: th_default_def sz_def)
qed

end
