(* ===== verification/TCP_Sender.thy ===== *)
theory TCP_Sender
  imports Byte_Stream TCP_Segment
begin

text \<open>
  The TCP sender of \<^verbatim>\<open>libsponge/tcp_sender.{hh,cc}\<close> with its retransmission timer, and the
  constants of \<^verbatim>\<open>libsponge/tcp_helpers/tcp_config.hh\<close>. Every counter has the width it has in
  the code: the window is a 16-bit word, timeouts and retransmission counts are 32-bit words,
  sequence numbers and sizes 64-bit words, and the subtraction \<^verbatim>\<open>_window_size -
  bytes_in_flight()\<close> wraps. A random initial sequence number is an argument of the constructor.
\<close>

definition DEFAULT_CAPACITY :: u64 where "DEFAULT_CAPACITY = 64000"
definition MAX_PAYLOAD_SIZE :: u64 where "MAX_PAYLOAD_SIZE = 1000"
definition TIMEOUT_DFLT :: u16 where "TIMEOUT_DFLT = 1000"
definition MAX_RETX_ATTEMPTS :: u32 where "MAX_RETX_ATTEMPTS = 8"

record tcp_config =
  cfg_rt_timeout :: u16
  cfg_recv_capacity :: u64
  cfg_send_capacity :: u64
  cfg_fixed_isn :: "wrapping_int32 option"

definition cfg_default :: tcp_config where
  "cfg_default =
     \<lparr>cfg_rt_timeout = TIMEOUT_DFLT, cfg_recv_capacity = DEFAULT_CAPACITY,
      cfg_send_capacity = DEFAULT_CAPACITY, cfg_fixed_isn = None\<rparr>"

subsection \<open>The timer\<close>

record retransmission_timer =
  tm_rto :: u64
  tm_running :: bool

definition tm_start :: "u64 \<Rightarrow> retransmission_timer \<Rightarrow> retransmission_timer" where
  "tm_start timeout t = t\<lparr>tm_rto := timeout, tm_running := True\<rparr>"

definition tm_is_running :: "retransmission_timer \<Rightarrow> bool" where
  "tm_is_running t = tm_running t"

definition tm_stop :: "retransmission_timer \<Rightarrow> retransmission_timer" where
  "tm_stop t = t\<lparr>tm_running := False\<rparr>"

text \<open>The callback of \<^verbatim>\<open>time_passed\<close> runs on the owner of the timer: whether to call it is returned.\<close>

definition tm_time_passed :: "u64 \<Rightarrow> retransmission_timer \<Rightarrow> bool \<times> retransmission_timer" where
  "tm_time_passed ms_since_last_tick t =
     (if \<not> tm_is_running t then (False, t)
      else if tm_rto t > ms_since_last_tick
      then (False, t\<lparr>tm_rto := tm_rto t - ms_since_last_tick\<rparr>)
      else (True, t))"

subsection \<open>The sender\<close>

datatype snd_state = INIT | SYN_SENT | FIN_SENT

record tcp_sender =
  snd_isn :: wrapping_int32
  snd_segments_out :: "tcp_segment list"
  snd_initial_rto :: u32
  snd_stream :: byte_stream
  snd_next_seqno :: u64
  snd_last_retrans_seqno :: "wrapping_int32 option"
  snd_retransmission_queue :: "tcp_segment list"
  snd_outstanding_bytes :: u64
  snd_consecutive_retran :: u32
  snd_rto :: u32
  snd_window_size :: u16
  snd_ack :: wrapping_int32
  snd_window_probe :: bool
  snd_st :: snd_state
  snd_timer :: retransmission_timer

definition snd_init :: "u32 \<Rightarrow> u64 \<Rightarrow> u16 \<Rightarrow> wrapping_int32 option \<Rightarrow> tcp_sender" where
  "snd_init random capacity retx_timeout fixed_isn =
     (let isn = (case fixed_isn of Some w \<Rightarrow> w | None \<Rightarrow> WrappingInt32 random) in
      \<lparr>snd_isn = isn, snd_segments_out = [], snd_initial_rto = ucast retx_timeout,
       snd_stream = bs_init capacity, snd_next_seqno = 0,
       snd_last_retrans_seqno = Some (WrappingInt32 0), snd_retransmission_queue = [],
       snd_outstanding_bytes = 0, snd_consecutive_retran = 0, snd_rto = ucast retx_timeout,
       snd_window_size = 1, snd_ack = isn, snd_window_probe = False, snd_st = INIT,
       snd_timer = \<lparr>tm_rto = 0, tm_running = False\<rparr>\<rparr>)"

definition snd_next_seqno_absolute :: "tcp_sender \<Rightarrow> u64" where
  "snd_next_seqno_absolute s = snd_next_seqno s"

definition snd_next_seqno_relative :: "tcp_sender \<Rightarrow> wrapping_int32" where
  "snd_next_seqno_relative s = wrap (snd_next_seqno s) (snd_isn s)"

definition snd_bytes_in_flight :: "tcp_sender \<Rightarrow> u64" where
  "snd_bytes_in_flight s = snd_next_seqno s - unwrap (snd_ack s) (snd_isn s) 0"

definition snd_retransmit :: "tcp_sender \<Rightarrow> tcp_sender result" where
  "snd_retransmit s =
     (case snd_retransmission_queue s of
        [] \<Rightarrow> Inl (Undefined_behaviour ''front() of an empty queue'')
      | segment # _ \<Rightarrow>
          let s = s\<lparr>snd_segments_out := snd_segments_out s @ [segment]\<rparr>;
              s = (if snd_window_size s \<noteq> 0 then
                     let s = (if (case snd_last_retrans_seqno s of None \<Rightarrow> False
                                  | Some w \<Rightarrow> wi_eq w (th_seqno (seg_header segment)))
                              then s\<lparr>snd_consecutive_retran := snd_consecutive_retran s + 1\<rparr>
                              else s\<lparr>snd_consecutive_retran := 1,
                                     snd_last_retrans_seqno := Some (th_seqno (seg_header segment))\<rparr>)
                     in if \<not> snd_window_probe s then s\<lparr>snd_rto := snd_rto s * 2\<rparr> else s
                   else s)
          in Inr (s\<lparr>snd_timer := tm_start (ucast (snd_rto s)) (snd_timer s)\<rparr>))"

text \<open>
  One round of the loop of \<^verbatim>\<open>fill_window\<close>: the segment is built, then \<^verbatim>\<open>snd_push\<close> sends it.  The
  result is the new state, and whether the loop goes on (it stops when the segment built is empty).
\<close>

definition snd_window_left :: "tcp_sender \<Rightarrow> u64" where
  "snd_window_left s = ucast (snd_window_size s) - snd_bytes_in_flight s"

definition snd_push :: "tcp_segment \<Rightarrow> tcp_sender \<Rightarrow> bool \<times> tcp_sender" where
  "snd_push segment s =
     (if length_in_sequence_space segment = 0 then (False, s)
      else
        let s = s\<lparr>snd_next_seqno := snd_next_seqno s + length_in_sequence_space segment\<rparr>;
            s = s\<lparr>snd_segments_out := snd_segments_out s @ [segment],
                  snd_retransmission_queue := snd_retransmission_queue s @ [segment]\<rparr>;
            s = (if \<not> tm_is_running (snd_timer s) \<and> length_in_sequence_space segment > 0
                 then s\<lparr>snd_timer := tm_start (ucast (snd_rto s)) (snd_timer s)\<rparr> else s)
        in (True, s))"

definition snd_fill_round :: "tcp_sender \<Rightarrow> (bool \<times> tcp_sender) result" where
  "snd_fill_round s =
     (let segment = seg_default\<lparr>seg_header := th_default\<lparr>th_seqno := snd_next_seqno_relative s\<rparr>\<rparr>;
          bytes2read = snd_window_left s;
          (segment, bytes2read, s) =
            (if bs_bytes_read (snd_stream s) = 0 \<and> snd_st s = INIT
             then (segment\<lparr>seg_header := (seg_header segment)\<lparr>th_syn := True\<rparr>\<rparr>, bytes2read - 1,
                   s\<lparr>snd_st := SYN_SENT\<rparr>)
             else (segment, bytes2read, s));
          bytes2read = (if bytes2read \<ge> MAX_PAYLOAD_SIZE then MAX_PAYLOAD_SIZE else bytes2read)
      in bindE (bs_read bytes2read (snd_stream s)) (\<lambda>(str, stream).
         let s = s\<lparr>snd_stream := stream\<rparr>;
             segment = segment\<lparr>seg_payload := buffer_of str\<rparr>;
             (segment, s) =
               (if bs_eof (snd_stream s) \<and> snd_st s = SYN_SENT \<and>
                   length_in_sequence_space segment + 1 \<le> snd_window_left s
                then (segment\<lparr>seg_header := (seg_header segment)\<lparr>th_fin := True\<rparr>\<rparr>, s\<lparr>snd_st := FIN_SENT\<rparr>)
                else (segment, s))
         in Inr (snd_push segment s)))"

text \<open>The loop ends because every round sends the SYN, the FIN, or bytes of the stream.\<close>

definition snd_todo :: "tcp_sender \<Rightarrow> nat" where
  "snd_todo s = length (bs_content (snd_stream s)) +
     (case snd_st s of INIT \<Rightarrow> 2 | SYN_SENT \<Rightarrow> 1 | FIN_SENT \<Rightarrow> 0)"

lemma bs_read_shrinks:
  assumes "bs_read n s = Inr (d, s')"
  shows "length (bs_content s') + length d \<le> length (bs_content s)"
proof -
  let ?k = "if bs_size s \<le> n then bs_size s else n"
  from assms have d: "d = take (unat ?k) (bs_content s)"
    and pop: "bs_pop_output ?k s = Inr s'"
    by (auto simp: bs_read_def Let_def bs_peek_output_def bs_content_def bindE_eq_Inr_iff bs_buffer_size_def
        split: if_splits)
  from pop obtain st where st: "buffer_list_remove_prefix (unat ?k) (bs_stream s) = Inr st"
    "bs_stream s' = st" by (auto simp: bs_pop_output_def bindE_eq_Inr_iff)
  then have "unat ?k \<le> length (bs_content s)" "bs_content s' = drop (unat ?k) (bs_content s)"
    using bufs.remove_prefix_content [OF st(1)] by (simp_all add: bs_content_def)
  then show ?thesis using d by simp
qed

text \<open>The round in closed form.\<close>

definition snd_wants_syn :: "tcp_sender \<Rightarrow> bool" where
  "snd_wants_syn s \<longleftrightarrow> bs_bytes_read (snd_stream s) = 0 \<and> snd_st s = INIT"

definition snd_quota :: "tcp_sender \<Rightarrow> u64" where
  "snd_quota s = (let b = (if snd_wants_syn s then snd_window_left s - 1 else snd_window_left s) in
     if b \<ge> MAX_PAYLOAD_SIZE then MAX_PAYLOAD_SIZE else b)"

definition snd_seg :: "tcp_sender \<Rightarrow> bytes \<Rightarrow> bool \<Rightarrow> tcp_segment" where
  "snd_seg s str fin =
     \<lparr>seg_header = th_default\<lparr>th_seqno := snd_next_seqno_relative s, th_syn := snd_wants_syn s, th_fin := fin\<rparr>,
      seg_payload = buffer_of str\<rparr>"

definition snd_wants_fin :: "tcp_sender \<Rightarrow> bytes \<Rightarrow> byte_stream \<Rightarrow> bool" where
  "snd_wants_fin s str stream \<longleftrightarrow> bs_eof stream \<and> (snd_wants_syn s \<or> snd_st s = SYN_SENT) \<and>
     length_in_sequence_space (snd_seg s str False) + 1 \<le> snd_window_left s"

definition snd_st_after :: "tcp_sender \<Rightarrow> bool \<Rightarrow> snd_state" where
  "snd_st_after s fin = (if fin then FIN_SENT else if snd_wants_syn s then SYN_SENT else snd_st s)"

definition snd_after :: "tcp_sender \<Rightarrow> bytes \<Rightarrow> byte_stream \<Rightarrow> tcp_sender" where
  "snd_after s str stream =
     s\<lparr>snd_st := snd_st_after s (snd_wants_fin s str stream), snd_stream := stream\<rparr>"

definition snd_sent :: "tcp_sender \<Rightarrow> tcp_segment \<Rightarrow> tcp_sender" where
  "snd_sent s segment =
     s\<lparr>snd_next_seqno := snd_next_seqno s + length_in_sequence_space segment,
       snd_segments_out := snd_segments_out s @ [segment],
       snd_retransmission_queue := snd_retransmission_queue s @ [segment],
       snd_timer := (if tm_is_running (snd_timer s) then snd_timer s
                     else tm_start (ucast (snd_rto s)) (snd_timer s))\<rparr>"

lemma snd_window_left_frame [simp]:
  "snd_window_left (s\<lparr>snd_st := st\<rparr>) = snd_window_left s"
  "snd_window_left (s\<lparr>snd_stream := stream\<rparr>) = snd_window_left s"
  "snd_window_left (s\<lparr>snd_st := st, snd_stream := stream\<rparr>) = snd_window_left s"
  by (simp_all add: snd_window_left_def snd_bytes_in_flight_def)

lemma snd_seg_eqs:
  "snd_wants_syn s \<Longrightarrow>
   seg_default\<lparr>seg_header := th_default\<lparr>th_seqno := snd_next_seqno_relative s, th_syn := True\<rparr>, seg_payload := buffer_of str\<rparr>
     = snd_seg s str False"
  "\<not> snd_wants_syn s \<Longrightarrow>
   seg_default\<lparr>seg_header := th_default\<lparr>th_seqno := snd_next_seqno_relative s\<rparr>, seg_payload := buffer_of str\<rparr>
     = snd_seg s str False"
  by (simp_all add: snd_seg_def seg_default_def th_default_def)

lemma snd_push_eq:
  "snd_push segment s =
     (if length_in_sequence_space segment = 0 then (False, s) else (True, snd_sent s segment))"
proof (cases "length_in_sequence_space segment = 0")
  case False
  then have "0 < length_in_sequence_space segment" using word_neq_0_conv by blast
  then show ?thesis by (simp add: snd_push_def snd_sent_def False)
qed (simp add: snd_push_def)

lemma snd_fill_round_eq:
  "snd_fill_round s =
     bindE (bs_read (snd_quota s) (snd_stream s)) (\<lambda>(str, stream).
       let segment = snd_seg s str (snd_wants_fin s str stream) in
       if length_in_sequence_space segment = 0 then Inr (False, snd_after s str stream)
       else Inr (True, snd_sent (snd_after s str stream) segment))"
proof -
  have push: "Inr (snd_push seg x) = (if length_in_sequence_space seg = 0 then Inr (False, x) else Inr (True, snd_sent x seg))"
    for seg x by (simp add: snd_push_eq)
  have swap: "s\<lparr>snd_stream := x, snd_st := y\<rparr> = s\<lparr>snd_st := y, snd_stream := x\<rparr>" for x y
    by simp
  show ?thesis
  proof (cases "snd_wants_syn s")
    case True
    then have syn: "bs_bytes_read (snd_stream s) = 0" "snd_st s = INIT"
      by (simp_all add: snd_wants_syn_def)
    show ?thesis
      unfolding snd_fill_round_def Let_def snd_quota_def
      by (simp add: syn True snd_seg_eqs(1) [OF True] push [symmetric] snd_after_def
          snd_st_after_def snd_wants_fin_def cong: if_cong)
        (intro conjI impI arg_cong [where f = "bindE _"] ext; auto simp: snd_seg_def True swap split: prod.splits)
  next
    case False
    then have syn: "\<not> (bs_bytes_read (snd_stream s) = 0 \<and> snd_st s = INIT)"
      by (simp add: snd_wants_syn_def)
    show ?thesis
      unfolding snd_fill_round_def Let_def if_not_P [OF syn] snd_quota_def
      by (simp add: False snd_seg_eqs(2) [OF False] push [symmetric] snd_after_def
          snd_st_after_def snd_wants_fin_def cong: if_cong)
        (intro conjI impI arg_cong [where f = "bindE _"] ext; auto simp: snd_seg_def False swap th_default_def split: prod.splits)
  qed
qed

lemma snd_fill_round_shrinks:
  assumes "snd_fill_round s = Inr (True, s')" and "snd_st s \<noteq> FIN_SENT"
  shows "snd_todo s' < snd_todo s"
proof -
  from assms(1) obtain str stream where rd: "bs_read (snd_quota s) (snd_stream s) = Inr (str, stream)"
    and len: "length_in_sequence_space (snd_seg s str (snd_wants_fin s str stream)) \<noteq> 0"
    and s': "s' = snd_sent (snd_after s str stream) (snd_seg s str (snd_wants_fin s str stream))"
    by (auto simp: snd_fill_round_eq bindE_eq_Inr_iff Let_def split: if_splits)
  have shrink: "length (bs_content stream) + length str \<le> length (bs_content (snd_stream s))"
    by (rule bs_read_shrinks [OF rd])
  have eqs: "snd_stream s' = stream" "snd_st s' = snd_st_after s (snd_wants_fin s str stream)"
    by (simp_all add: s' snd_sent_def snd_after_def)
  have "0 < length str \<or> snd_wants_syn s \<or> snd_wants_fin s str stream"
    using len by (auto simp: length_in_sequence_space_def snd_seg_def split: if_splits)
  then have "length (bs_content stream) < length (bs_content (snd_stream s)) \<or> snd_wants_syn s \<or> snd_wants_fin s str stream"
    "length (bs_content stream) \<le> length (bs_content (snd_stream s))"
    using shrink by linarith+
  with assms(2) show ?thesis
    unfolding snd_todo_def eqs snd_st_after_def
    by (cases "snd_st s"; cases "snd_wants_syn s"; cases "snd_wants_fin s str stream")
      (auto simp: snd_wants_fin_def snd_wants_syn_def)
qed

function snd_fill_window :: "tcp_sender \<Rightarrow> tcp_sender result" where
  "snd_fill_window s =
     (if snd_window_left s \<noteq> 0 \<and> snd_st s \<noteq> FIN_SENT then
        case snd_fill_round s of
          Inl e \<Rightarrow> Inl e
        | Inr (go_on, s') \<Rightarrow> if go_on then snd_fill_window s' else Inr s'
      else Inr s)"
  by pat_completeness auto
termination
  by (relation "measure snd_todo") (auto dest: snd_fill_round_shrinks)

declare snd_fill_window.simps [simp del]

fun snd_drop_acked :: "wrapping_int32 \<Rightarrow> wrapping_int32 \<Rightarrow> tcp_segment list \<Rightarrow> tcp_segment list" where
  "snd_drop_acked isn ackno [] = []"
| "snd_drop_acked isn ackno (element # queue) =
     (if unwrap (th_seqno (seg_header element)) isn 0 + length_in_sequence_space element > unwrap ackno isn 0
      then element # queue
      else snd_drop_acked isn ackno queue)"

definition snd_ack_received :: "wrapping_int32 \<Rightarrow> u16 \<Rightarrow> tcp_sender \<Rightarrow> tcp_sender" where
  "snd_ack_received ackno window_size s =
     (let s = s\<lparr>snd_window_size := window_size, snd_window_probe := False\<rparr>;
          s = (if snd_window_size s = 0 then s\<lparr>snd_window_size := 1, snd_window_probe := True\<rparr> else s)
      in if unwrap ackno (snd_isn s) 0 > snd_next_seqno_absolute s \<or>
            unwrap ackno (snd_isn s) 0 \<le> unwrap (snd_ack s) (snd_isn s) 0
         then s
         else
           let s = s\<lparr>snd_ack := ackno\<rparr>;
               s = s\<lparr>snd_rto := snd_initial_rto s\<rparr>;
               s = s\<lparr>snd_retransmission_queue :=
                       snd_drop_acked (snd_isn s) ackno (snd_retransmission_queue s)\<rparr>;
               s = (if snd_retransmission_queue s \<noteq> []
                    then s\<lparr>snd_timer := tm_start (ucast (snd_rto s)) (snd_timer s)\<rparr>
                    else s\<lparr>snd_timer := tm_stop (snd_timer s)\<rparr>)
           in s\<lparr>snd_consecutive_retran := 0\<rparr>)"

definition snd_tick :: "u64 \<Rightarrow> tcp_sender \<Rightarrow> tcp_sender result" where
  "snd_tick ms_since_last_tick s =
     (let (expired, timer) = tm_time_passed ms_since_last_tick (snd_timer s);
          s = s\<lparr>snd_timer := timer\<rparr>
      in if expired then snd_retransmit s else Inr s)"

definition snd_consecutive_retransmissions :: "tcp_sender \<Rightarrow> u32" where
  "snd_consecutive_retransmissions s = snd_consecutive_retran s"

definition snd_send_empty_segment :: "tcp_sender \<Rightarrow> tcp_sender" where
  "snd_send_empty_segment s =
     (let segment = seg_default\<lparr>seg_header := th_default\<lparr>th_seqno := snd_next_seqno_relative s\<rparr>\<rparr>
      in s\<lparr>snd_segments_out := snd_segments_out s @ [segment]\<rparr>)"

end
