(* ===== verification/TCP_State.thy ===== *)
theory TCP_State
  imports TCP_Receiver TCP_Sender
begin

text \<open>
  The summaries of \<^verbatim>\<open>libsponge/tcp_helpers/tcp_state.{hh,cc}\<close>: the strings that describe the
  state of a sender and of a receiver, and the official states of the TCP specification as
  pairs of such strings with the two flags of a connection.
\<close>

definition Receiver_ERROR :: string where
  "Receiver_ERROR = ''error (connection was reset)''"
definition Receiver_LISTEN :: string where
  "Receiver_LISTEN = ''waiting for SYN: ackno is empty''"
definition Receiver_SYN_RECV :: string where
  "Receiver_SYN_RECV = ''SYN received (ackno exists), and input to stream hasn't ended''"
definition Receiver_FIN_RECV :: string where
  "Receiver_FIN_RECV = ''input to stream has ended''"

definition Sender_ERROR :: string where
  "Sender_ERROR = ''error (connection was reset)''"
definition Sender_CLOSED :: string where
  "Sender_CLOSED = ''waiting for stream to begin (no SYN sent)''"
definition Sender_SYN_SENT :: string where
  "Sender_SYN_SENT = ''stream started but nothing acknowledged''"
definition Sender_SYN_ACKED :: string where
  "Sender_SYN_ACKED = ''stream ongoing''"
definition Sender_FIN_SENT :: string where
  "Sender_FIN_SENT = ''stream finished (FIN sent) but not fully acknowledged''"
definition Sender_FIN_ACKED :: string where
  "Sender_FIN_ACKED = ''stream finished and fully acknowledged''"

lemmas summary_defs =
  Receiver_ERROR_def Receiver_LISTEN_def Receiver_SYN_RECV_def Receiver_FIN_RECV_def
  Sender_ERROR_def Sender_CLOSED_def Sender_SYN_SENT_def Sender_SYN_ACKED_def Sender_FIN_SENT_def Sender_FIN_ACKED_def

record tcp_state =
  st_sender :: string
  st_receiver :: string
  st_active :: bool
  st_linger_after_streams_finish :: bool

definition st_eq :: "tcp_state \<Rightarrow> tcp_state \<Rightarrow> bool" where
  "st_eq a b \<longleftrightarrow> st_active a = st_active b \<and>
     st_linger_after_streams_finish a = st_linger_after_streams_finish b \<and>
     st_sender a = st_sender b \<and> st_receiver a = st_receiver b"

definition st_neq :: "tcp_state \<Rightarrow> tcp_state \<Rightarrow> bool" where
  "st_neq a b \<longleftrightarrow> \<not> st_eq a b"

definition bool_to_string :: "bool \<Rightarrow> string" where
  "bool_to_string b = (if b then ''1'' else ''0'')"

definition st_name :: "tcp_state \<Rightarrow> string" where
  "st_name s =
     ''sender=`'' @ st_sender s @ ''`, receiver=`'' @ st_receiver s @ ''`, active='' @ bool_to_string (st_active s) @
     '', linger_after_streams_finish='' @ bool_to_string (st_linger_after_streams_finish s)"

datatype official_state =
    LISTEN | SYN_RCVD | State_SYN_SENT | ESTABLISHED | CLOSE_WAIT | LAST_ACK
  | FIN_WAIT_1 | FIN_WAIT_2 | CLOSING | TIME_WAIT | CLOSED | RESET

definition st_of_official :: "official_state \<Rightarrow> tcp_state" where
  "st_of_official state =
     (let s = \<lparr>st_sender = [], st_receiver = [], st_active = True, st_linger_after_streams_finish = True\<rparr> in
      case state of
        LISTEN \<Rightarrow> s\<lparr>st_receiver := Receiver_LISTEN, st_sender := Sender_CLOSED\<rparr>
      | SYN_RCVD \<Rightarrow> s\<lparr>st_receiver := Receiver_SYN_RECV, st_sender := Sender_SYN_SENT\<rparr>
      | State_SYN_SENT \<Rightarrow> s\<lparr>st_receiver := Receiver_LISTEN, st_sender := Sender_SYN_SENT\<rparr>
      | ESTABLISHED \<Rightarrow> s\<lparr>st_receiver := Receiver_SYN_RECV, st_sender := Sender_SYN_ACKED\<rparr>
      | CLOSE_WAIT \<Rightarrow> s\<lparr>st_receiver := Receiver_FIN_RECV, st_sender := Sender_SYN_ACKED,
                        st_linger_after_streams_finish := False\<rparr>
      | LAST_ACK \<Rightarrow> s\<lparr>st_receiver := Receiver_FIN_RECV, st_sender := Sender_FIN_SENT,
                      st_linger_after_streams_finish := False\<rparr>
      | CLOSING \<Rightarrow> s\<lparr>st_receiver := Receiver_FIN_RECV, st_sender := Sender_FIN_SENT\<rparr>
      | FIN_WAIT_1 \<Rightarrow> s\<lparr>st_receiver := Receiver_SYN_RECV, st_sender := Sender_FIN_SENT\<rparr>
      | FIN_WAIT_2 \<Rightarrow> s\<lparr>st_receiver := Receiver_SYN_RECV, st_sender := Sender_FIN_ACKED\<rparr>
      | TIME_WAIT \<Rightarrow> s\<lparr>st_receiver := Receiver_FIN_RECV, st_sender := Sender_FIN_ACKED\<rparr>
      | RESET \<Rightarrow> s\<lparr>st_receiver := Receiver_ERROR, st_sender := Sender_ERROR,
                   st_linger_after_streams_finish := False, st_active := False\<rparr>
      | CLOSED \<Rightarrow> s\<lparr>st_receiver := Receiver_FIN_RECV, st_sender := Sender_FIN_ACKED,
                    st_linger_after_streams_finish := False, st_active := False\<rparr>)"

definition receiver_summary :: "tcp_receiver \<Rightarrow> string" where
  "receiver_summary receiver =
     (if bs_error (rcv_stream_out receiver) then Receiver_ERROR
      else if rcv_ackno receiver = None then Receiver_LISTEN
      else if bs_input_ended (rcv_stream_out receiver) then Receiver_FIN_RECV
      else Receiver_SYN_RECV)"

definition sender_summary :: "tcp_sender \<Rightarrow> string" where
  "sender_summary sender =
     (if bs_error (snd_stream sender) then Sender_ERROR
      else if snd_next_seqno_absolute sender = 0 then Sender_CLOSED
      else if snd_next_seqno_absolute sender = snd_bytes_in_flight sender then Sender_SYN_SENT
      else if \<not> bs_eof (snd_stream sender) then Sender_SYN_ACKED
      else if snd_next_seqno_absolute sender < bs_bytes_written (snd_stream sender) + 2 then Sender_SYN_ACKED
      else if snd_bytes_in_flight sender \<noteq> 0 then Sender_FIN_SENT
      else Sender_FIN_ACKED)"

definition st_of :: "tcp_sender \<Rightarrow> tcp_receiver \<Rightarrow> bool \<Rightarrow> bool \<Rightarrow> tcp_state" where
  "st_of sender receiver active linger =
     \<lparr>st_sender = sender_summary sender, st_receiver = receiver_summary receiver, st_active = active,
      st_linger_after_streams_finish = (if active then linger else False)\<rparr>"

lemma st_eq_iff [simp]: "st_eq a b \<longleftrightarrow> a = b"
  by (cases a; cases b) (auto simp: st_eq_def)

text \<open>
  The twelve official states are told apart by the summaries: two of them are described
  by equal summaries only if they are the same state, and the printed names differ too.
\<close>

theorem official_states_distinct:
  "(st_eq (st_of_official a) (st_of_official b) \<longleftrightarrow> a = b) \<and>
   (st_name (st_of_official a) = st_name (st_of_official b) \<longleftrightarrow> a = b)"
  by (cases a; cases b) (simp_all add: st_of_official_def summary_defs st_name_def bool_to_string_def)

end
