(* ===== verification/TCP_Connection.thy ===== *)
theory TCP_Connection
  imports TCP_State
begin

text \<open>
  The TCP connection of \<^verbatim>\<open>libsponge/tcp_connection.{hh,cc}\<close>: a sender and a receiver glued
  together. The draw of a random initial sequence number is an argument of the constructor,
  the iteration order of the reassembler's hash table an argument of every operation that
  reaches it. The member \<^verbatim>\<open>_end_intput\<close> is never read.
\<close>

record tcp_connection =
  tc_cfg :: tcp_config
  tc_receiver :: tcp_receiver
  tc_sender :: tcp_sender
  tc_segments_out :: "tcp_segment list"
  tc_linger_after_streams_finish :: bool
  tc_close :: bool
  tc_ticks :: u64
  tc_rece_tick :: u64
  tc_isn_receiver :: "wrapping_int32 option"

definition tc_init :: "u32 \<Rightarrow> tcp_config \<Rightarrow> tcp_connection" where
  "tc_init random cfg =
     \<lparr>tc_cfg = cfg, tc_receiver = rcv_init (cfg_recv_capacity cfg),
      tc_sender = snd_init random (cfg_send_capacity cfg) (cfg_rt_timeout cfg) (cfg_fixed_isn cfg),
      tc_segments_out = [], tc_linger_after_streams_finish = True, tc_close = False,
      tc_ticks = 0, tc_rece_tick = 0, tc_isn_receiver = None\<rparr>"

text \<open>Every segment the sender wants sent gets the receiver's acknowledgment number and window.\<close>

definition tc_stamp :: "tcp_receiver \<Rightarrow> tcp_segment \<Rightarrow> tcp_segment" where
  "tc_stamp receiver seg =
     (case rcv_ackno receiver of
        None \<Rightarrow> seg
      | Some ackno \<Rightarrow> seg\<lparr>seg_header := (seg_header seg)\<lparr>th_ack := True, th_ackno := ackno,
                          th_win := ucast (rcv_window_size receiver)\<rparr>\<rparr>)"

definition tc_send_segment :: "tcp_connection \<Rightarrow> tcp_connection" where
  "tc_send_segment c =
     c\<lparr>tc_segments_out := tc_segments_out c @ map (tc_stamp (tc_receiver c)) (snd_segments_out (tc_sender c)),
       tc_sender := (tc_sender c)\<lparr>snd_segments_out := []\<rparr>\<rparr>"

definition tc_check_segment_in_window :: "tcp_segment \<Rightarrow> tcp_connection \<Rightarrow> bool" where
  "tc_check_segment_in_window seg c =
     (case (tc_isn_receiver c, rcv_ackno (tc_receiver c)) of
        (Some isn, Some ackno) \<Rightarrow>
          let seg_start = unwrap (th_seqno (seg_header seg)) isn 0;
              seg_end = seg_start + (if length_in_sequence_space seg = 0 then 0 else length_in_sequence_space seg - 1);
              window_start = unwrap ackno isn 0;
              window_end = window_start + rcv_window_size (tc_receiver c)
          in if seg_end < window_start then False
             else if seg_start \<ge> window_end then False
             else True
      | _ \<Rightarrow> True)"

text \<open>
  The front segment of the sender's queue is moved out of it but not popped: what stays is its
  header with an empty payload.
\<close>

definition seg_moved_from :: "tcp_segment \<Rightarrow> tcp_segment" where
  "seg_moved_from seg = seg\<lparr>seg_payload := (seg_payload seg)\<lparr>storage := None\<rparr>\<rparr>"

definition tc_set_errors :: "tcp_connection \<Rightarrow> tcp_connection" where
  "tc_set_errors c =
     c\<lparr>tc_sender := (tc_sender c)\<lparr>snd_stream := bs_set_error (snd_stream (tc_sender c))\<rparr>,
       tc_receiver := (tc_receiver c)\<lparr>rcv_reassembler :=
         (rcv_reassembler (tc_receiver c))\<lparr>ra_output := bs_set_error (ra_output (rcv_reassembler (tc_receiver c)))\<rparr>\<rparr>\<rparr>"

definition tc_send_rst :: "tcp_connection \<Rightarrow> tcp_connection" where
  "tc_send_rst c =
     (let s = snd_send_empty_segment (tc_sender c);
          front = hd (snd_segments_out s);
          s = s\<lparr>snd_segments_out := seg_moved_from front # tl (snd_segments_out s)\<rparr>;
          seg = front\<lparr>seg_header := (seg_header front)\<lparr>th_rst := True\<rparr>\<rparr>;
          c = c\<lparr>tc_sender := s, tc_segments_out := [seg]\<rparr>;
          c = tc_set_errors c
      in c\<lparr>tc_close := True\<rparr>)"

definition tc_remaining_outbound_capacity :: "tcp_connection \<Rightarrow> u64" where
  "tc_remaining_outbound_capacity c = bs_remaining_capacity (snd_stream (tc_sender c))"

definition tc_bytes_in_flight :: "tcp_connection \<Rightarrow> u64" where
  "tc_bytes_in_flight c = snd_bytes_in_flight (tc_sender c)"

definition tc_unassembled_bytes :: "tcp_connection \<Rightarrow> u64" where
  "tc_unassembled_bytes c = rcv_unassembled_bytes (tc_receiver c)"

definition tc_time_since_last_segment_received :: "tcp_connection \<Rightarrow> u64" where
  "tc_time_since_last_segment_received c = tc_ticks c - tc_rece_tick c"

definition tc_active :: "tcp_connection \<Rightarrow> bool" where
  "tc_active c \<longleftrightarrow> \<not> tc_close c"

definition tc_state :: "tcp_connection \<Rightarrow> tcp_state" where
  "tc_state c = st_of (tc_sender c) (tc_receiver c) (tc_active c) (tc_linger_after_streams_finish c)"

text \<open>\<^verbatim>\<open>segment_received\<close>, up to the reply: flags, then the receiver, then the sender.\<close>

definition tc_note_flags :: "tcp_segment \<Rightarrow> tcp_connection \<Rightarrow> tcp_connection" where
  "tc_note_flags seg c =
     (let c = c\<lparr>tc_rece_tick := tc_ticks c\<rparr>;
          c = (if th_rst (seg_header seg) then (tc_set_errors c)\<lparr>tc_close := True\<rparr> else c);
          c = (if th_syn (seg_header seg) then c\<lparr>tc_isn_receiver := Some (th_seqno (seg_header seg))\<rparr> else c)
      in if th_fin (seg_header seg) \<and> sender_summary (tc_sender c) \<noteq> Sender_FIN_SENT \<and>
            sender_summary (tc_sender c) \<noteq> Sender_FIN_ACKED
         then c\<lparr>tc_linger_after_streams_finish := False\<rparr> else c)"

definition tc_reply :: "tcp_segment \<Rightarrow> tcp_connection \<Rightarrow> tcp_connection result" where
  "tc_reply seg c =
     bindE (if length_in_sequence_space seg \<noteq> 0 then
              bindE (snd_fill_window (tc_sender c)) (\<lambda>s.
                Inr (c\<lparr>tc_sender := if snd_segments_out s = [] then snd_send_empty_segment s else s\<rparr>))
            else Inr c) (\<lambda>c.
     let c = (case rcv_ackno (tc_receiver c) of
                None \<Rightarrow> c
              | Some ackno \<Rightarrow>
                  if length_in_sequence_space seg = 0 \<and> wi_eq (th_seqno (seg_header seg)) (wi_minus ackno 1)
                  then c\<lparr>tc_sender := snd_send_empty_segment (tc_sender c)\<rparr> else c)
     in Inr (tc_send_segment c))"

definition tc_segment_received :: "iteration \<Rightarrow> tcp_segment \<Rightarrow> tcp_connection \<Rightarrow> tcp_connection result" where
  "tc_segment_received iter seg c =
     (let c = tc_note_flags seg c in
      bindE (if tc_check_segment_in_window seg c then
               bindE (rcv_segment_received iter seg (tc_receiver c)) (\<lambda>r. Inr (c\<lparr>tc_receiver := r\<rparr>))
             else Inr c) (\<lambda>c.
      let c = (if th_ack (seg_header seg)
               then c\<lparr>tc_sender := snd_ack_received (th_ackno (seg_header seg)) (th_win (seg_header seg)) (tc_sender c)\<rparr>
               else c)
      in tc_reply seg c))"

definition tc_fill_and_send :: "tcp_connection \<Rightarrow> tcp_connection result" where
  "tc_fill_and_send c =
     bindE (snd_fill_window (tc_sender c)) (\<lambda>s. Inr (tc_send_segment (c\<lparr>tc_sender := s\<rparr>)))"

definition tc_write :: "bytes \<Rightarrow> tcp_connection \<Rightarrow> (u64 \<times> tcp_connection) result" where
  "tc_write data c =
     (let (size, stream) = bs_write data (snd_stream (tc_sender c));
          c = c\<lparr>tc_sender := (tc_sender c)\<lparr>snd_stream := stream\<rparr>\<rparr>
      in bindE (tc_fill_and_send c) (\<lambda>c. Inr (size, c)))"

text \<open>The end of \<^verbatim>\<open>tick\<close>: whether the connection is done.\<close>

definition tc_try_close :: "tcp_connection \<Rightarrow> tcp_connection" where
  "tc_try_close c =
     (if tc_unassembled_bytes c \<noteq> 0 \<or> \<not> bs_eof (rcv_stream_out (tc_receiver c)) then c
      else if \<not> bs_eof (snd_stream (tc_sender c)) then c
      else if tc_bytes_in_flight c \<noteq> 0 then c
      else
        let c = (if tc_time_since_last_segment_received c \<ge> 10 * ucast (cfg_rt_timeout (tc_cfg c))
                 then c\<lparr>tc_linger_after_streams_finish := False, tc_close := True\<rparr> else c)
        in if tc_linger_after_streams_finish c then c else c\<lparr>tc_close := True\<rparr>)"

definition tc_tick :: "u64 \<Rightarrow> tcp_connection \<Rightarrow> tcp_connection result" where
  "tc_tick ms_since_last_tick c =
     (let c = c\<lparr>tc_ticks := tc_ticks c + ms_since_last_tick\<rparr> in
      bindE (if \<not> bs_buffer_empty (snd_stream (tc_sender c)) \<or> bs_eof (snd_stream (tc_sender c))
             then tc_fill_and_send c else Inr c) (\<lambda>c.
      bindE (snd_tick ms_since_last_tick (tc_sender c)) (\<lambda>s.
      let c = c\<lparr>tc_sender := s\<rparr>;
          c = (if snd_segments_out (tc_sender c) \<noteq> [] then tc_send_segment c else c);
          c = (if snd_consecutive_retransmissions (tc_sender c) > MAX_RETX_ATTEMPTS then tc_send_rst c else c)
      in Inr (tc_try_close c))))"

definition tc_end_input_stream :: "tcp_connection \<Rightarrow> tcp_connection result" where
  "tc_end_input_stream c =
     tc_fill_and_send (c\<lparr>tc_sender := (tc_sender c)\<lparr>snd_stream := bs_end_input (snd_stream (tc_sender c))\<rparr>\<rparr>)"

definition tc_connect :: "tcp_connection \<Rightarrow> tcp_connection result" where
  "tc_connect c = tc_fill_and_send c"

definition tc_destroy :: "tcp_connection \<Rightarrow> tcp_connection" where
  "tc_destroy c = (if tc_active c then tc_send_rst c else c)"

end
