(* ===== verification/Sponge_Socket.thy ===== *)
theory Sponge_Socket
  imports Event_Loop Adapters TCP_Connection
begin

text \<open>
  \<^verbatim>\<open>TCPSpongeSocket\<close> (\<^verbatim>\<open>libsponge/tcp_helpers/tcp_sponge_socket.{hh,cc}\<close>): a connection, an adapter and
  an event loop with four rules, in a thread of its own, that talks to the application over a pair
  of local stream sockets. The template parameter is the record \<open>adapter_calls\<close> of the operations
  of the adapter on its device; the records for the five adapters of the sources follow. The clock
  and the flag that the owner's thread raises are functions of the kernel state. Of the messages on
  the standard error stream only the calls that can throw are kept.
\<close>

subsection \<open>Adapters on their devices\<close>

record ('a, 'w) adapter_calls =
  ac_read :: "'a \<Rightarrow> fd_wrapper \<Rightarrow> 'w \<Rightarrow> (tcp_segment option \<times> 'a \<times> fd_wrapper \<times> 'w) result"
  ac_write :: "tcp_segment \<Rightarrow> 'a \<Rightarrow> fd_wrapper \<Rightarrow> 'w \<Rightarrow> ('a \<times> fd_wrapper \<times> 'w) result"
  ac_tick :: "u64 \<Rightarrow> 'a \<Rightarrow> fd_wrapper \<Rightarrow> 'w \<Rightarrow> ('a \<times> fd_wrapper \<times> 'w) result"
  ac_config :: "'a \<Rightarrow> fd_adapter_config"
  ac_set_config :: "fd_adapter_config \<Rightarrow> 'a \<Rightarrow> 'a"
  ac_set_listening :: "bool \<Rightarrow> 'a \<Rightarrow> 'a"

fun send_all :: "('o \<Rightarrow> fd_wrapper \<Rightarrow> 'w \<Rightarrow> (fd_wrapper \<times> 'w) result) \<Rightarrow> 'o list \<Rightarrow> fd_wrapper \<Rightarrow> 'w \<Rightarrow> (fd_wrapper \<times> 'w) result" where
  "send_all send [] f w = Inr (f, w)"
| "send_all send (x # xs) f w = bindE (send x f w) (\<lambda>(f, w). send_all send xs f w)"

definition dev_read ::
  "(fd_wrapper \<Rightarrow> 'w \<Rightarrow> ('i \<times> fd_wrapper \<times> 'w) result) \<Rightarrow> ('o \<Rightarrow> fd_wrapper \<Rightarrow> 'w \<Rightarrow> (fd_wrapper \<times> 'w) result) \<Rightarrow>
   ('i \<Rightarrow> 'a \<Rightarrow> (tcp_segment option \<times> 'o list \<times> 'a) result) \<Rightarrow> 'a \<Rightarrow> fd_wrapper \<Rightarrow> 'w \<Rightarrow>
   (tcp_segment option \<times> 'a \<times> fd_wrapper \<times> 'w) result" where
  "dev_read recv send rd a f w =
     bindE (recv f w) (\<lambda>(input, f, w).
     bindE (rd input a) (\<lambda>(seg, out, a).
     bindE (send_all send out f w) (\<lambda>(f, w). Inr (seg, a, f, w))))"

definition dev_write ::
  "('o \<Rightarrow> fd_wrapper \<Rightarrow> 'w \<Rightarrow> (fd_wrapper \<times> 'w) result) \<Rightarrow> (tcp_segment \<Rightarrow> 'a \<Rightarrow> ('o list \<times> tcp_segment \<times> 'a) result) \<Rightarrow>
   tcp_segment \<Rightarrow> 'a \<Rightarrow> fd_wrapper \<Rightarrow> 'w \<Rightarrow> ('a \<times> fd_wrapper \<times> 'w) result" where
  "dev_write send wr seg a f w =
     bindE (wr seg a) (\<lambda>(out, _, a).
     bindE (send_all send out f w) (\<lambda>(f, w). Inr (a, f, w)))"

definition dev_tick ::
  "('o \<Rightarrow> fd_wrapper \<Rightarrow> 'w \<Rightarrow> (fd_wrapper \<times> 'w) result) \<Rightarrow> (u64 \<Rightarrow> 'a \<Rightarrow> 'o list \<times> 'a) \<Rightarrow>
   u64 \<Rightarrow> 'a \<Rightarrow> fd_wrapper \<Rightarrow> 'w \<Rightarrow> ('a \<times> fd_wrapper \<times> 'w) result" where
  "dev_tick send tick ms a f w =
     (let (out, a) = tick ms a in bindE (send_all send out f w) (\<lambda>(f, w). Inr (a, f, w)))"

text \<open>A TUN or TAP device is read and written as a file, a UDP socket by datagrams.\<close>

definition file_recv :: "'w posix \<Rightarrow> fd_wrapper \<Rightarrow> 'w \<Rightarrow> (bytes \<times> fd_wrapper \<times> 'w) result" where
  "file_recv sys f w = fd_read sys (-1) f w"

definition file_send :: "'w posix \<Rightarrow> buffer_list \<Rightarrow> fd_wrapper \<Rightarrow> 'w \<Rightarrow> (fd_wrapper \<times> 'w) result" where
  "file_send sys bl f w = bindE (fd_write sys (view_list_of_buffers bl) True f w) (\<lambda>(_, f, w). Inr (f, w))"

definition udp_dev_recv :: "'w posix \<Rightarrow> 'w socket_calls \<Rightarrow> fd_wrapper \<Rightarrow> 'w \<Rightarrow> (received_datagram \<times> fd_wrapper \<times> 'w) result" where
  "udp_dev_recv sys net f w = udp_recv sys net 65536 f w"

definition udp_dev_send :: "'w posix \<Rightarrow> 'w socket_calls \<Rightarrow> address \<times> buffer_list \<Rightarrow> fd_wrapper \<Rightarrow> 'w \<Rightarrow> (fd_wrapper \<times> 'w) result" where
  "udp_dev_send sys net = (\<lambda>(destination, payload). udp_sendto sys net destination (view_list_of_buffers payload))"

definition tun_calls :: "'w posix \<Rightarrow> getaddrinfo \<Rightarrow> getnameinfo \<Rightarrow> (fd_adapter_base, 'w) adapter_calls" where
  "tun_calls sys gai gni =
     \<lparr>ac_read = dev_read (file_recv sys) (file_send sys) (tun_read gai gni),
      ac_write = dev_write (file_send sys) (tun_write gni), ac_tick = dev_tick (file_send sys) base_tick,
      ac_config = ad_config, ac_set_config = ad_set_config, ac_set_listening = ad_set_listening\<rparr>"

definition eth_calls :: "'w posix \<Rightarrow> getaddrinfo \<Rightarrow> getnameinfo \<Rightarrow> (eth_adapter, 'w) adapter_calls" where
  "eth_calls sys gai gni =
     \<lparr>ac_read = dev_read (file_recv sys) (file_send sys) (ea_read gai gni),
      ac_write = dev_write (file_send sys) (ea_write gni), ac_tick = dev_tick (file_send sys) ea_tick,
      ac_config = ea_config, ac_set_config = ea_set_config, ac_set_listening = ea_set_listening\<rparr>"

definition udp_calls :: "'w posix \<Rightarrow> 'w socket_calls \<Rightarrow> getnameinfo \<Rightarrow> (fd_adapter_base, 'w) adapter_calls" where
  "udp_calls sys net gni =
     \<lparr>ac_read = dev_read (udp_dev_recv sys net) (udp_dev_send sys net) udp_read,
      ac_write = dev_write (udp_dev_send sys net) (udp_write gni), ac_tick = dev_tick (udp_dev_send sys net) base_tick,
      ac_config = ad_config, ac_set_config = ad_set_config, ac_set_listening = ad_set_listening\<rparr>"

definition lossy_tun_calls ::
  "('g \<Rightarrow> u32 \<times> 'g) \<Rightarrow> 'w posix \<Rightarrow> getaddrinfo \<Rightarrow> getnameinfo \<Rightarrow> ((fd_adapter_base, 'g) lossy_fd_adapter, 'w) adapter_calls" where
  "lossy_tun_calls rand sys gai gni =
     \<lparr>ac_read = dev_read (file_recv sys) (file_send sys) (lo_read rand ad_config (tun_read gai gni)),
      ac_write = dev_write (file_send sys) (lo_write rand ad_config (tun_write gni)),
      ac_tick = dev_tick (file_send sys) (lo_tick base_tick),
      ac_config = lo_config ad_config, ac_set_config = lo_set_config ad_set_config, ac_set_listening = lo_set_listening ad_set_listening\<rparr>"

definition lossy_udp_calls ::
  "('g \<Rightarrow> u32 \<times> 'g) \<Rightarrow> 'w posix \<Rightarrow> 'w socket_calls \<Rightarrow> getnameinfo \<Rightarrow> ((fd_adapter_base, 'g) lossy_fd_adapter, 'w) adapter_calls" where
  "lossy_udp_calls rand sys net gni =
     \<lparr>ac_read = dev_read (udp_dev_recv sys net) (udp_dev_send sys net) (lo_read rand ad_config udp_read),
      ac_write = dev_write (udp_dev_send sys net) (lo_write rand ad_config (udp_write gni)),
      ac_tick = dev_tick (udp_dev_send sys net) (lo_tick base_tick),
      ac_config = lo_config ad_config, ac_set_config = lo_set_config ad_set_config, ac_set_listening = lo_set_listening ad_set_listening\<rparr>"

subsection \<open>The socket\<close>

definition TCP_TICK_MS :: int where "TCP_TICK_MS = 10"

record ('a, 'w) sponge_socket =
  ss_owner :: fd_wrapper
  ss_thread_data :: fd_wrapper
  ss_adapter :: 'a
  ss_device :: fd_wrapper
  ss_tcp :: "tcp_connection option"
  ss_inbound_shutdown :: bool
  ss_outbound_shutdown :: bool
  ss_fully_acked :: bool
  ss_world :: 'w

text \<open>\<^verbatim>\<open>_tcp->\<close> on an empty optional is undefined, \<^verbatim>\<open>_tcp.value()\<close> throws.\<close>

definition ss_conn :: "('a, 'w) sponge_socket \<Rightarrow> tcp_connection result" where
  "ss_conn s = (case ss_tcp s of None \<Rightarrow> Inl (Undefined_behaviour ''operator-> of an empty optional'') | Some c \<Rightarrow> Inr c)"

definition ss_value :: "('a, 'w) sponge_socket \<Rightarrow> tcp_connection result" where
  "ss_value s = (case ss_tcp s of None \<Rightarrow> Inl Bad_optional_access | Some c \<Rightarrow> Inr c)"

text \<open>The name of the peer, for a message.\<close>

definition ss_peer :: "('a, 'w) adapter_calls \<Rightarrow> getnameinfo \<Rightarrow> ('a, 'w) sponge_socket \<Rightarrow> string result" where
  "ss_peer ac gni s = addr_to_string gni (cfg_destination (ac_config ac (ss_adapter s)))"

subsection \<open>The rules\<close>

text \<open>Rule 1: incoming datagrams.\<close>

definition ss_note_acked ::
  "('a, 'w) adapter_calls \<Rightarrow> getnameinfo \<Rightarrow> ('a, 'w) sponge_socket \<Rightarrow> ('a, 'w) sponge_socket result" where
  "ss_note_acked ac gni s =
     (if fd_eof (ss_thread_data s) then
        bindE (ss_value s) (\<lambda>c.
          if tc_bytes_in_flight c = 0 \<and> \<not> ss_fully_acked s
          then bindE (ss_peer ac gni s) (\<lambda>_. Inr (s\<lparr>ss_fully_acked := True\<rparr>)) else Inr s)
      else Inr s)"

definition ss_read_datagram ::
  "('a, 'w) adapter_calls \<Rightarrow> getnameinfo \<Rightarrow> iteration \<Rightarrow> ('a, 'w) sponge_socket \<Rightarrow> ('a, 'w) sponge_socket result" where
  "ss_read_datagram ac gni iter s =
     bindE (ac_read ac (ss_adapter s) (ss_device s) (ss_world s)) (\<lambda>(seg, a, f, w).
     let s = s\<lparr>ss_adapter := a, ss_device := f, ss_world := w\<rparr> in
     bindE (case seg of
              None \<Rightarrow> Inr s
            | Some seg \<Rightarrow> bindE (ss_conn s) (\<lambda>c. bindE (tc_segment_received iter seg c) (\<lambda>c. Inr (s\<lparr>ss_tcp := Some c\<rparr>))))
       (ss_note_acked ac gni))"

definition ss_wants_datagram :: "('a, 'w) sponge_socket \<Rightarrow> bool result" where
  "ss_wants_datagram s = bindE (ss_conn s) (\<lambda>c. Inr (tc_active c))"

text \<open>Rule 2: outbound bytes of the application.\<close>

definition ss_end_outbound :: "('a, 'w) sponge_socket \<Rightarrow> ('a, 'w) sponge_socket result" where
  "ss_end_outbound s =
     bindE (ss_conn s) (\<lambda>c.
     bindE (tc_end_input_stream c) (\<lambda>c. Inr (s\<lparr>ss_tcp := Some c, ss_outbound_shutdown := True\<rparr>)))"

definition ss_read_owner ::
  "'w posix \<Rightarrow> ('a, 'w) adapter_calls \<Rightarrow> getnameinfo \<Rightarrow> ('a, 'w) sponge_socket \<Rightarrow> ('a, 'w) sponge_socket result" where
  "ss_read_owner sys ac gni s =
     bindE (ss_conn s) (\<lambda>c.
     bindE (fd_read sys (tc_remaining_outbound_capacity c) (ss_thread_data s) (ss_world s)) (\<lambda>(data, f, w).
     bindE (tc_write data c) (\<lambda>(amount_written, c).
     let s = s\<lparr>ss_thread_data := f, ss_world := w, ss_tcp := Some c\<rparr> in
     if amount_written \<noteq> sz data then Inl (Runtime_error ''TCPConnection::write() accepted less than advertised length'')
     else if fd_eof (ss_thread_data s) then bindE (ss_end_outbound s) (\<lambda>s. bindE (ss_peer ac gni s) (\<lambda>_. Inr s))
     else Inr s)))"

definition ss_wants_owner :: "('a, 'w) sponge_socket \<Rightarrow> bool result" where
  "ss_wants_owner s =
     bindE (ss_conn s) (\<lambda>c. Inr (tc_active c \<and> \<not> ss_outbound_shutdown s \<and> tc_remaining_outbound_capacity c > 0))"

text \<open>Rule 3: inbound bytes for the application.\<close>

definition ss_set_inbound :: "byte_stream \<Rightarrow> tcp_connection \<Rightarrow> tcp_connection" where
  "ss_set_inbound st c =
     c\<lparr>tc_receiver := (tc_receiver c)\<lparr>rcv_reassembler := (rcv_reassembler (tc_receiver c))\<lparr>ra_output := st\<rparr>\<rparr>\<rparr>"

definition ss_write_owner ::
  "'w posix \<Rightarrow> ('a, 'w) adapter_calls \<Rightarrow> getnameinfo \<Rightarrow> ('a, 'w) sponge_socket \<Rightarrow> ('a, 'w) sponge_socket result" where
  "ss_write_owner sys ac gni s =
     bindE (ss_conn s) (\<lambda>c.
     let inbound = rcv_stream_out (tc_receiver c);
         amount_to_write = min 65536 (bs_buffer_size inbound)
     in bindE (fd_write sys (view_list_of_string (bs_peek_output amount_to_write inbound)) False (ss_thread_data s) (ss_world s))
          (\<lambda>(bytes_written, f, w).
        bindE (bs_pop_output bytes_written inbound) (\<lambda>inbound.
        let s = s\<lparr>ss_thread_data := f, ss_world := w, ss_tcp := Some (ss_set_inbound inbound c)\<rparr> in
        if bs_eof inbound \<or> bs_error inbound then
          bindE (sock_shutdown sys SHUT_WR (ss_thread_data s) (ss_world s)) (\<lambda>(f, w).
            let s = s\<lparr>ss_thread_data := f, ss_world := w, ss_inbound_shutdown := True\<rparr>
            in bindE (ss_peer ac gni s) (\<lambda>_. Inr s))
        else Inr s)))"

definition ss_wants_owner_out :: "('a, 'w) sponge_socket \<Rightarrow> bool result" where
  "ss_wants_owner_out s =
     bindE (ss_conn s) (\<lambda>c. let inbound = rcv_stream_out (tc_receiver c) in
       Inr (\<not> bs_buffer_empty inbound \<or> (bs_eof inbound \<or> bs_error inbound) \<and> \<not> ss_inbound_shutdown s))"

text \<open>Rule 4: outbound segments. A segment is written, then popped.\<close>

fun ss_write_segments ::
  "('a, 'w) adapter_calls \<Rightarrow> tcp_segment list \<Rightarrow> tcp_connection \<Rightarrow> 'a \<Rightarrow> fd_wrapper \<Rightarrow> 'w \<Rightarrow>
   (tcp_connection \<times> 'a \<times> fd_wrapper \<times> 'w) result" where
  "ss_write_segments ac [] c a f w = Inr (c, a, f, w)"
| "ss_write_segments ac (seg # segs) c a f w =
     bindE (ac_write ac seg a f w) (\<lambda>(a, f, w). ss_write_segments ac segs (c\<lparr>tc_segments_out := segs\<rparr>) a f w)"

definition ss_write_datagrams :: "('a, 'w) adapter_calls \<Rightarrow> ('a, 'w) sponge_socket \<Rightarrow> ('a, 'w) sponge_socket result" where
  "ss_write_datagrams ac s =
     bindE (ss_conn s) (\<lambda>c.
     bindE (ss_write_segments ac (tc_segments_out c) c (ss_adapter s) (ss_device s) (ss_world s)) (\<lambda>(c, a, f, w).
       Inr (s\<lparr>ss_tcp := Some c, ss_adapter := a, ss_device := f, ss_world := w\<rparr>)))"

definition ss_wants_datagram_out :: "('a, 'w) sponge_socket \<Rightarrow> bool result" where
  "ss_wants_datagram_out s = bindE (ss_conn s) (\<lambda>c. Inr (tc_segments_out c \<noteq> []))"

definition ss_add_rules ::
  "'w posix \<Rightarrow> ('a, 'w) adapter_calls \<Rightarrow> getnameinfo \<Rightarrow> iteration \<Rightarrow> ('a, 'w) sponge_socket rule list \<Rightarrow> ('a, 'w) sponge_socket rule list" where
  "ss_add_rules sys ac gni iter rules =
     el_add_rule ss_device Out (ss_write_datagrams ac) ss_wants_datagram_out Inr
    (el_add_rule ss_thread_data Out (ss_write_owner sys ac gni) ss_wants_owner_out Inr
    (el_add_rule ss_thread_data In (ss_read_owner sys ac gni) ss_wants_owner ss_end_outbound
    (el_add_rule ss_device In (ss_read_datagram ac gni iter) ss_wants_datagram Inr rules)))"

definition ss_initialize_TCP ::
  "'w posix \<Rightarrow> ('a, 'w) adapter_calls \<Rightarrow> getnameinfo \<Rightarrow> iteration \<Rightarrow> u32 \<Rightarrow> tcp_config \<Rightarrow>
   ('a, 'w) sponge_socket rule list \<Rightarrow> ('a, 'w) sponge_socket \<Rightarrow> ('a, 'w) sponge_socket rule list \<times> ('a, 'w) sponge_socket" where
  "ss_initialize_TCP sys ac gni iter random config rules s =
     (ss_add_rules sys ac gni iter rules, s\<lparr>ss_tcp := Some (tc_init random config)\<rparr>)"

subsection \<open>The loop\<close>

definition ss_poll :: "'w posix \<Rightarrow> pollfd list \<Rightarrow> int \<Rightarrow> ('a, 'w) sponge_socket \<Rightarrow> int \<times> u16 list \<times> ('a, 'w) sponge_socket" where
  "ss_poll sys fds ms s = (let (ret, revents, w) = px_poll sys fds ms (ss_world s) in (ret, revents, s\<lparr>ss_world := w\<rparr>))"

definition ss_wait ::
  "'w posix \<Rightarrow> ('a, 'w) sponge_socket rule list \<Rightarrow> ('a, 'w) sponge_socket \<Rightarrow>
   (el_result \<times> ('a, 'w) sponge_socket rule list \<times> ('a, 'w) sponge_socket) result" where
  "ss_wait sys rules s = wait_next_event (ss_poll sys) (\<lambda>s. px_errno sys (ss_world s)) TCP_TICK_MS rules s"

definition ss_tick ::
  "('a, 'w) adapter_calls \<Rightarrow> ('w \<Rightarrow> u64 \<times> 'w) \<Rightarrow> u64 \<Rightarrow> ('a, 'w) sponge_socket \<Rightarrow> (u64 \<times> ('a, 'w) sponge_socket) result" where
  "ss_tick ac clock base_time s =
     bindE (ss_value s) (\<lambda>c.
     if tc_active c then
       let (next_time, w) = clock (ss_world s) in
       bindE (tc_tick (next_time - base_time) c) (\<lambda>c.
       bindE (ac_tick ac (next_time - base_time) (ss_adapter s) (ss_device s) w) (\<lambda>(a, f, w).
         Inr (next_time, s\<lparr>ss_tcp := Some c, ss_adapter := a, ss_device := f, ss_world := w\<rparr>)))
     else Inr (base_time, s))"

text \<open>The body of the loop: whether to go on, and the new state.\<close>

definition ss_turn ::
  "'w posix \<Rightarrow> ('a, 'w) adapter_calls \<Rightarrow> ('w \<Rightarrow> u64 \<times> 'w) \<Rightarrow> ('w \<Rightarrow> bool) \<Rightarrow> u64 \<Rightarrow>
   ('a, 'w) sponge_socket rule list \<Rightarrow> ('a, 'w) sponge_socket \<Rightarrow>
   (bool \<times> u64 \<times> ('a, 'w) sponge_socket rule list \<times> ('a, 'w) sponge_socket) result" where
  "ss_turn sys ac clock abort base_time rules s =
     bindE (ss_wait sys rules s) (\<lambda>(ret, rules, s).
       if ret = Exit \<or> abort (ss_world s) then Inr (False, base_time, rules, s)
       else bindE (ss_tick ac clock base_time s) (\<lambda>(base_time, s). Inr (True, base_time, rules, s)))"

partial_function (option) ss_tcp_loop ::
  "'w posix \<Rightarrow> ('a, 'w) adapter_calls \<Rightarrow> ('w \<Rightarrow> u64 \<times> 'w) \<Rightarrow> ('w \<Rightarrow> bool) \<Rightarrow> (('a, 'w) sponge_socket \<Rightarrow> bool result) \<Rightarrow> u64 \<Rightarrow>
   ('a, 'w) sponge_socket rule list \<Rightarrow> ('a, 'w) sponge_socket \<Rightarrow>
   (('a, 'w) sponge_socket rule list \<times> ('a, 'w) sponge_socket) result option" where
  "ss_tcp_loop sys ac clock abort condition base_time rules s =
     (case condition s of
        Inl e \<Rightarrow> Some (Inl e)
      | Inr going_on \<Rightarrow>
          if \<not> going_on then Some (Inr (rules, s))
          else case ss_turn sys ac clock abort base_time rules s of
                 Inl e \<Rightarrow> Some (Inl e)
               | Inr (going_on, base_time, rules, s) \<Rightarrow>
                   if going_on then ss_tcp_loop sys ac clock abort condition base_time rules s
                   else Some (Inr (rules, s)))"

definition ss_run_loop ::
  "'w posix \<Rightarrow> ('a, 'w) adapter_calls \<Rightarrow> ('w \<Rightarrow> u64 \<times> 'w) \<Rightarrow> ('w \<Rightarrow> bool) \<Rightarrow> (('a, 'w) sponge_socket \<Rightarrow> bool result) \<Rightarrow>
   ('a, 'w) sponge_socket rule list \<Rightarrow> ('a, 'w) sponge_socket \<Rightarrow>
   (('a, 'w) sponge_socket rule list \<times> ('a, 'w) sponge_socket) result option" where
  "ss_run_loop sys ac clock abort condition rules s =
     (let (base_time, w) = clock (ss_world s)
      in ss_tcp_loop sys ac clock abort condition base_time rules (s\<lparr>ss_world := w\<rparr>))"

subsection \<open>Construction, connection and shutdown\<close>

definition socket_pair_helper ::
  "'w posix \<Rightarrow> 'w socket_calls \<Rightarrow> int \<Rightarrow> 'w \<Rightarrow> (fd_wrapper \<times> fd_wrapper \<times> 'w) result" where
  "socket_pair_helper sys net type w =
     (let (ret, fd0, fd1, w) = sk_socketpair net AF_UNIX_int type w in
      bindE (SystemCall ''socketpair'' ret (px_errno sys w) 0) (\<lambda>_.
      bindE (fdw_init fd0) (\<lambda>f0.
      bindE (fdw_init fd1) (\<lambda>f1. Inr (f0, f1, w)))))"

definition ss_new ::
  "'w posix \<Rightarrow> 'w socket_calls \<Rightarrow> 'a \<Rightarrow> fd_wrapper \<Rightarrow> 'w \<Rightarrow> ('a, 'w) sponge_socket result" where
  "ss_new sys net datagram_interface device w =
     bindE (socket_pair_helper sys net SOCK_STREAM w) (\<lambda>(first, second, w).
     bindE (sock_of_fd sys net first AF_UNIX_int SOCK_STREAM w) (\<lambda>(owner, w).
     bindE (sock_of_fd sys net second AF_UNIX_int SOCK_STREAM w) (\<lambda>(thread_data, w).
     bindE (fd_set_blocking sys False thread_data w) (\<lambda>w.
       Inr \<lparr>ss_owner = owner, ss_thread_data = thread_data, ss_adapter = datagram_interface, ss_device = device,
            ss_tcp = None, ss_inbound_shutdown = False, ss_outbound_shutdown = False, ss_fully_acked = False,
            ss_world = w\<rparr>))))"

text \<open>\<^verbatim>\<open>connect\<close> and \<^verbatim>\<open>listen_and_accept\<close> up to their loops.\<close>

definition ss_open_connect ::
  "'w posix \<Rightarrow> ('a, 'w) adapter_calls \<Rightarrow> getnameinfo \<Rightarrow> iteration \<Rightarrow> u32 \<Rightarrow> tcp_config \<Rightarrow> fd_adapter_config \<Rightarrow>
   ('a, 'w) sponge_socket rule list \<Rightarrow> ('a, 'w) sponge_socket \<Rightarrow>
   (('a, 'w) sponge_socket rule list \<times> ('a, 'w) sponge_socket) result" where
  "ss_open_connect sys ac gni iter random c_tcp c_ad rules s =
     (if ss_tcp s \<noteq> None then Inl (Runtime_error ''connect() with TCPConnection already initialized'')
      else
        let (rules, s) = ss_initialize_TCP sys ac gni iter random c_tcp rules s;
            s = s\<lparr>ss_adapter := ac_set_config ac c_ad (ss_adapter s)\<rparr>
        in bindE (addr_to_string gni (cfg_destination c_ad)) (\<lambda>_.
           bindE (ss_conn s) (\<lambda>c.
           bindE (tc_connect c) (\<lambda>c.
             if st_neq (tc_state c) (st_of_official State_SYN_SENT)
             then Inl (Runtime_error (''After TCPConnection::connect(), state was '' @ st_name (tc_state c) @
                    '' but expected '' @ st_name (st_of_official State_SYN_SENT)))
             else Inr (rules, s\<lparr>ss_tcp := Some c\<rparr>)))))"

definition ss_open_listen ::
  "'w posix \<Rightarrow> ('a, 'w) adapter_calls \<Rightarrow> getnameinfo \<Rightarrow> iteration \<Rightarrow> u32 \<Rightarrow> tcp_config \<Rightarrow> fd_adapter_config \<Rightarrow>
   ('a, 'w) sponge_socket rule list \<Rightarrow> ('a, 'w) sponge_socket \<Rightarrow>
   (('a, 'w) sponge_socket rule list \<times> ('a, 'w) sponge_socket) result" where
  "ss_open_listen sys ac gni iter random c_tcp c_ad rules s =
     (if ss_tcp s \<noteq> None then Inl (Runtime_error ''listen_and_accept() with TCPConnection already initialized'')
      else
        let (rules, s) = ss_initialize_TCP sys ac gni iter random c_tcp rules s
        in Inr (rules, s\<lparr>ss_adapter := ac_set_listening ac True (ac_set_config ac c_ad (ss_adapter s))\<rparr>))"

definition ss_connecting :: "('a, 'w) sponge_socket \<Rightarrow> bool result" where
  "ss_connecting s = bindE (ss_conn s) (\<lambda>c. Inr (st_eq (tc_state c) (st_of_official State_SYN_SENT)))"

definition ss_accepting :: "('a, 'w) sponge_socket \<Rightarrow> bool result" where
  "ss_accepting s =
     bindE (ss_conn s) (\<lambda>c. let state = tc_state c in
       Inr (st_eq state (st_of_official LISTEN) \<or> st_eq state (st_of_official SYN_RCVD) \<or>
            st_eq state (st_of_official State_SYN_SENT)))"

text \<open>Sequencing of calls that may not return.\<close>

definition andThen :: "'x result option \<Rightarrow> ('x \<Rightarrow> 'y result option) \<Rightarrow> 'y result option" where
  "andThen m f = (case m of None \<Rightarrow> None | Some (Inl e) \<Rightarrow> Some (Inl e) | Some (Inr x) \<Rightarrow> f x)"

text \<open>When \<^verbatim>\<open>connect\<close> and \<^verbatim>\<open>listen_and_accept\<close> return, the thread starts with the rules and the state they return.\<close>

definition ss_connect ::
  "'w posix \<Rightarrow> ('a, 'w) adapter_calls \<Rightarrow> getnameinfo \<Rightarrow> iteration \<Rightarrow> ('w \<Rightarrow> u64 \<times> 'w) \<Rightarrow> ('w \<Rightarrow> bool) \<Rightarrow>
   u32 \<Rightarrow> tcp_config \<Rightarrow> fd_adapter_config \<Rightarrow> ('a, 'w) sponge_socket \<Rightarrow>
   (('a, 'w) sponge_socket rule list \<times> ('a, 'w) sponge_socket) result option" where
  "ss_connect sys ac gni iter clock abort random c_tcp c_ad s =
     andThen (Some (ss_open_connect sys ac gni iter random c_tcp c_ad [] s)) (\<lambda>(rules, s).
     andThen (ss_run_loop sys ac clock abort ss_connecting rules s) (\<lambda>(rules, s).
       Some (bindE (addr_to_string gni (cfg_destination c_ad)) (\<lambda>_. Inr (rules, s)))))"

definition ss_listen_and_accept ::
  "'w posix \<Rightarrow> ('a, 'w) adapter_calls \<Rightarrow> getnameinfo \<Rightarrow> iteration \<Rightarrow> ('w \<Rightarrow> u64 \<times> 'w) \<Rightarrow> ('w \<Rightarrow> bool) \<Rightarrow>
   u32 \<Rightarrow> tcp_config \<Rightarrow> fd_adapter_config \<Rightarrow> ('a, 'w) sponge_socket \<Rightarrow>
   (('a, 'w) sponge_socket rule list \<times> ('a, 'w) sponge_socket) result option" where
  "ss_listen_and_accept sys ac gni iter clock abort random c_tcp c_ad s =
     andThen (Some (ss_open_listen sys ac gni iter random c_tcp c_ad [] s)) (\<lambda>(rules, s).
     andThen (ss_run_loop sys ac clock abort ss_accepting rules s) (\<lambda>(rules, s).
       Some (bindE (ss_peer ac gni s) (\<lambda>_. Inr (rules, s)))))"

text \<open>
  \<^verbatim>\<open>_tcp_main\<close>, the function of the thread: after its loop, and from the middle of its loop. At the
  end the connection is destroyed; what its destructor (\<^const>\<open>tc_destroy\<close>) queues goes with it.
\<close>

definition ss_main_end :: "'w posix \<Rightarrow> ('a, 'w) sponge_socket \<Rightarrow> ('a, 'w) sponge_socket result" where
  "ss_main_end sys s =
     bindE (sock_shutdown sys SHUT_RDWR (ss_owner s) (ss_world s)) (\<lambda>(f, w).
     bindE (ss_value s) (\<lambda>_. Inr (s\<lparr>ss_owner := f, ss_world := w, ss_tcp := None\<rparr>)))"

definition ss_main_from ::
  "'w posix \<Rightarrow> ('a, 'w) adapter_calls \<Rightarrow> ('w \<Rightarrow> u64 \<times> 'w) \<Rightarrow> ('w \<Rightarrow> bool) \<Rightarrow> u64 \<Rightarrow>
   ('a, 'w) sponge_socket rule list \<Rightarrow> ('a, 'w) sponge_socket \<Rightarrow> ('a, 'w) sponge_socket result option" where
  "ss_main_from sys ac clock abort base_time rules s =
     andThen (ss_tcp_loop sys ac clock abort (\<lambda>_. Inr True) base_time rules s) (\<lambda>(rules, s). Some (ss_main_end sys s))"

definition ss_tcp_main ::
  "'w posix \<Rightarrow> ('a, 'w) adapter_calls \<Rightarrow> ('w \<Rightarrow> u64 \<times> 'w) \<Rightarrow> ('w \<Rightarrow> bool) \<Rightarrow>
   ('a, 'w) sponge_socket rule list \<Rightarrow> ('a, 'w) sponge_socket \<Rightarrow> ('a, 'w) sponge_socket result option" where
  "ss_tcp_main sys ac clock abort rules s =
     (if ss_tcp s = None then Some (Inl (Runtime_error ''no TCP''))
      else let (base_time, w) = clock (ss_world s)
           in ss_main_from sys ac clock abort base_time rules (s\<lparr>ss_world := w\<rparr>))"

text \<open>
  The owner's calls that end the thread. \<open>thread\<close> is the state of the thread's loop, if the thread is
  joinable; the owner acts between two turns of it, and joining runs it to its end.
\<close>

definition ss_wait_until_closed ::
  "'w posix \<Rightarrow> ('a, 'w) adapter_calls \<Rightarrow> ('w \<Rightarrow> u64 \<times> 'w) \<Rightarrow> ('w \<Rightarrow> bool) \<Rightarrow>
   (u64 \<times> ('a, 'w) sponge_socket rule list) option \<Rightarrow> ('a, 'w) sponge_socket \<Rightarrow> ('a, 'w) sponge_socket result option" where
  "ss_wait_until_closed sys ac clock abort thread s =
     andThen (Some (sock_shutdown sys SHUT_RDWR (ss_owner s) (ss_world s))) (\<lambda>(f, w).
       let s = s\<lparr>ss_owner := f, ss_world := w\<rparr> in
       case thread of
         None \<Rightarrow> Some (Inr s)
       | Some (base_time, rules) \<Rightarrow> ss_main_from sys ac clock abort base_time rules s)"

text \<open>The destructor raises the flag before it joins.\<close>

definition ss_destroy ::
  "'w posix \<Rightarrow> ('a, 'w) adapter_calls \<Rightarrow> ('w \<Rightarrow> u64 \<times> 'w) \<Rightarrow>
   (u64 \<times> ('a, 'w) sponge_socket rule list) option \<Rightarrow> ('a, 'w) sponge_socket \<Rightarrow> ('a, 'w) sponge_socket result option" where
  "ss_destroy sys ac clock thread s =
     (case thread of
        None \<Rightarrow> Some (Inr s)
      | Some (base_time, rules) \<Rightarrow> ss_main_from sys ac clock (\<lambda>_. True) base_time rules s)"

subsection \<open>The two ready-made sockets\<close>

text \<open>The numbers drawn from \<^verbatim>\<open>random_device\<close> are arguments.\<close>

definition cs144_new :: "'w posix \<Rightarrow> 'w socket_calls \<Rightarrow> getaddrinfo \<Rightarrow> 'w \<Rightarrow> (fd_adapter_base, 'w) sponge_socket result" where
  "cs144_new sys net gai w =
     bindE (tuntap_open sys net ''tun144'' True w) (\<lambda>(device, w).
     bindE (fd_adapter_config_default gai) (\<lambda>cfg.
       ss_new sys net \<lparr>ad_cfg = cfg, ad_listen = False\<rparr> device w))"

text \<open>The configurations of the two \<^verbatim>\<open>connect\<close> functions, which differ in the local address.\<close>

definition connect_configs ::
  "getaddrinfo \<Rightarrow> string \<Rightarrow> u32 \<Rightarrow> address \<Rightarrow> (tcp_config \<times> fd_adapter_config) result" where
  "connect_configs gai local_address random address =
     bindE (fd_adapter_config_default gai) (\<lambda>multiplexer_config.
     bindE (addr_of_host gai local_address (nat_dec (unat (ucast random :: u16)))) (\<lambda>source.
       Inr (cfg_default\<lparr>cfg_rt_timeout := 100\<rparr>, multiplexer_config\<lparr>cfg_source := source, cfg_destination := address\<rparr>)))"

definition cs144_connect ::
  "'w posix \<Rightarrow> getaddrinfo \<Rightarrow> getnameinfo \<Rightarrow> iteration \<Rightarrow> ('w \<Rightarrow> u64 \<times> 'w) \<Rightarrow> ('w \<Rightarrow> bool) \<Rightarrow> u32 \<Rightarrow> u32 \<Rightarrow> address \<Rightarrow>
   (fd_adapter_base, 'w) sponge_socket \<Rightarrow>
   ((fd_adapter_base, 'w) sponge_socket rule list \<times> (fd_adapter_base, 'w) sponge_socket) result option" where
  "cs144_connect sys gai gni iter clock abort random_port random address s =
     andThen (Some (connect_configs gai ''169.254.144.9'' random_port address)) (\<lambda>(tcp_config, multiplexer_config).
       ss_connect sys (tun_calls sys gai gni) gni iter clock abort random tcp_config multiplexer_config s)"

definition LOCAL_TAP_IP_ADDRESS :: string where "LOCAL_TAP_IP_ADDRESS = ''169.254.10.9''"
definition LOCAL_TAP_NEXT_HOP_ADDRESS :: string where "LOCAL_TAP_NEXT_HOP_ADDRESS = ''169.254.10.1''"

definition random_private_ethernet_address :: "u32 list \<Rightarrow> ethernet_address" where
  "random_private_ethernet_address random =
     (let addr = map ucast (take 6 random);
          addr = addr[0 := addr ! 0 OR 0x02];
          addr = addr[0 := addr ! 0 AND 0xfe]
      in addr)"

definition fullstack_new ::
  "'w posix \<Rightarrow> 'w socket_calls \<Rightarrow> getaddrinfo \<Rightarrow> u32 list \<Rightarrow> 'w \<Rightarrow> (eth_adapter, 'w) sponge_socket result" where
  "fullstack_new sys net gai random w =
     bindE (tuntap_open sys net ''tap10'' False w) (\<lambda>(device, w).
     bindE (addr_of_host gai LOCAL_TAP_IP_ADDRESS ''0'') (\<lambda>ip_address.
     bindE (addr_of_host gai LOCAL_TAP_NEXT_HOP_ADDRESS ''0'') (\<lambda>next_hop.
     bindE (fd_adapter_config_default gai) (\<lambda>cfg.
     let (out, adapter) = ea_init \<lparr>ad_cfg = cfg, ad_listen = False\<rparr> (random_private_ethernet_address random) ip_address next_hop in
     bindE (send_all (file_send sys) out device w) (\<lambda>(device, w). ss_new sys net adapter device w)))))"

definition fullstack_connect ::
  "'w posix \<Rightarrow> getaddrinfo \<Rightarrow> getnameinfo \<Rightarrow> iteration \<Rightarrow> ('w \<Rightarrow> u64 \<times> 'w) \<Rightarrow> ('w \<Rightarrow> bool) \<Rightarrow> u32 \<Rightarrow> u32 \<Rightarrow> address \<Rightarrow>
   (eth_adapter, 'w) sponge_socket \<Rightarrow>
   ((eth_adapter, 'w) sponge_socket rule list \<times> (eth_adapter, 'w) sponge_socket) result option" where
  "fullstack_connect sys gai gni iter clock abort random_port random address s =
     andThen (Some (connect_configs gai LOCAL_TAP_IP_ADDRESS random_port address)) (\<lambda>(tcp_config, multiplexer_config).
       ss_connect sys (eth_calls sys gai gni) gni iter clock abort random tcp_config multiplexer_config s)"

subsection \<open>Properties\<close>

lemma ss_aborted_loop:
  "ss_tcp_loop sys ac clock (\<lambda>_. True) (\<lambda>_. Inr True) base_time rules s =
     Some (bindE (ss_wait sys rules s) (\<lambda>(_, rules, s). Inr (rules, s)))"
  by (subst ss_tcp_loop.simps) (simp add: ss_turn_def bindE_def split: sum.split prod.split)

lemma tc_send_rst_segments: "\<exists>seg. tc_segments_out (tc_send_rst c) = [seg] \<and> th_rst (seg_header seg)"
  by (simp add: tc_send_rst_def tc_set_errors_def Let_def)

text \<open>
  C40. The destructor returns, but the peer learns nothing. Destroying a socket whose thread runs does
  not hang: the thread handles at most one more set of events and ends. The class comment says
  that the connection is then terminated with a RST. The destructor of an active connection does
  queue a RST, but the queue is destroyed with the connection: after that last set of events the
  socket writes nothing to any descriptor.
\<close>

theorem destructor_drops_rst:
  fixes s :: "('a, 'w) sponge_socket"
  assumes "posix_io sys t"
  shows "\<exists>r. ss_destroy sys ac clock (Some (base_time, rules)) s = Some r \<and>
    (\<forall>s'. r = Inr s' \<longrightarrow> (\<exists>ret rules' s1 c. ss_wait sys rules s = Inr (ret, rules', s1) \<and> ss_tcp s1 = Some c \<and>
       quiet t (ss_world s1) (ss_world s') \<and> ss_tcp s' = None \<and>
       (tc_active c \<longrightarrow> (\<exists>seg. tc_segments_out (tc_destroy c) = [seg] \<and> th_rst (seg_header seg)))))"
proof -
  have "\<exists>c. ss_tcp s1 = Some c \<and> quiet t (ss_world s1) (ss_world s') \<and> ss_tcp s' = None"
    if "ss_main_end sys s1 = Inr s'" for s1 s' :: "('a, 'w) sponge_socket"
    using that sock_shutdown_ok [OF assms, of SHUT_RDWR "ss_world s1" "ss_owner s1"]
    by (auto simp: ss_main_end_def ss_value_def bindE_eq_Inr_iff split: option.splits)
  then show ?thesis
    by (cases "ss_wait sys rules s")
      (fastforce simp: ss_destroy_def ss_main_from_def ss_aborted_loop andThen_def tc_destroy_def tc_send_rst_segments)+
qed

theorem destructor_drops_rst_witness:
  "let sys = kernel_posix 1; ac = tun_calls sys ipv4_hosts ipv4_names; rules = ss_add_rules sys ac ipv4_names (map fst) [];
       f = \<lparr>fdw_fd = 3, fdw_eof = False, fdw_closed = False, fdw_read_count = 0, fdw_write_count = 0\<rparr>;
       s = \<lparr>ss_owner = f, ss_thread_data = f\<lparr>fdw_fd := 4\<rparr>, ss_adapter = ad_example False (inet 7 70) (inet 9 90), ss_device = f\<lparr>fdw_fd := 5\<rparr>,
            ss_tcp = Some (tc_init 5 cfg_default), ss_inbound_shutdown = False, ss_outbound_shutdown = False, ss_fully_acked = False,
            ss_world = \<lparr>k_input = (\<lambda>_. []), k_taken = (\<lambda>_. []), k_given = (\<lambda>_. [])\<rparr>\<rparr>
   in \<exists>r. ss_destroy sys ac (\<lambda>w. (0, w)) (Some (0, rules)) s = Some r \<and>
    (\<forall>s'. r = Inr s' \<longrightarrow> (\<exists>ret rules' s1 c. ss_wait sys rules s = Inr (ret, rules', s1) \<and> ss_tcp s1 = Some c \<and>
       quiet kernel_traffic (ss_world s1) (ss_world s') \<and> ss_tcp s' = None \<and>
       (tc_active c \<longrightarrow> (\<exists>seg. tc_segments_out (tc_destroy c) = [seg] \<and> th_rst (seg_header seg)))))"
  unfolding Let_def by (rule destructor_drops_rst [OF posix_io_kernel])

text \<open>
  The SYN goes out first: the state in which \<^verbatim>\<open>fill_window\<close> leaves a new sender.
\<close>

lemma wi_add_0 [simp]: "wi_add n 0 = n"
  by (cases n) (simp add: wi_add_def)

declare unwrap_self [simp]

lemma snd_fill_window_init:
  fixes random cap rto fixed
  defines "s \<equiv> snd_init random cap rto fixed"
  shows "snd_fill_window s = Inr (snd_sent (s\<lparr>snd_st := SYN_SENT\<rparr>) (snd_seg s [] False))"
proof -
  have s: "snd_window_size s = 1" "snd_next_seqno s = 0" "snd_ack s = snd_isn s" "snd_st s = INIT" "snd_stream s = bs_init cap"
    by (simp_all add: s_def snd_init_def Let_def)
  have left: "snd_window_left s = 1" by (simp add: snd_window_left_def snd_bytes_in_flight_def s)
  have syn: "snd_wants_syn s" by (simp add: snd_wants_syn_def s bs_init_def bs_bytes_read_def)
  have q: "snd_quota s = 0" by (simp add: snd_quota_def left syn MAX_PAYLOAD_SIZE_def)
  have rd: "bs_read 0 (bs_init cap) = Inr ([], bs_init cap)"
    by (simp add: bs_read_def bs_buffer_size_def bs_peek_output_def bs_pop_output_def bs_init_def)
  have fin: "\<not> snd_wants_fin s [] (bs_init cap)" by (simp add: snd_wants_fin_def bs_eof_def bs_init_def)
  have len: "length_in_sequence_space (snd_seg s [] False) = 1" by (simp add: length_in_sequence_space_def snd_seg_def syn)
  let ?s = "snd_sent (s\<lparr>snd_st := SYN_SENT\<rparr>) (snd_seg s [] False)"
  have "snd_after s [] (bs_init cap) = s\<lparr>snd_st := SYN_SENT\<rparr>"
    using fin syn by (simp add: snd_after_def snd_st_after_def s(5) [symmetric])
  then have round: "snd_fill_round s = Inr (True, ?s)"
    by (simp add: snd_fill_round_eq s(5) q rd fin len Let_def)
  have "snd_window_left ?s = 0" by (simp add: snd_window_left_def snd_bytes_in_flight_def snd_sent_def s len)
  then have "snd_fill_window ?s = Inr ?s" by (simp add: snd_fill_window.simps [of ?s])
  with round show ?thesis by (simp add: snd_fill_window.simps [of s] left s(4))
qed

text \<open>
  C39. A connection attempt starts with a SYN. On a socket without a connection, with a printable
  destination, \<^verbatim>\<open>connect\<close> never finds a state other than SYN_SENT after \<^verbatim>\<open>TCPConnection::connect\<close>: it
  reaches its loop, with all four rules registered and exactly one segment to send, an empty SYN
  with the initial sequence number, and the loop's condition holds. On a socket that has a
  connection both \<^verbatim>\<open>connect\<close> and \<^verbatim>\<open>listen_and_accept\<close> throw.
\<close>

theorem connect_sends_syn:
  assumes "addr_to_string gni (cfg_destination c_ad) = Inr name"
  shows "if ss_tcp s = None
    then \<exists>c seg. ss_open_connect sys ac gni iter random c_tcp c_ad [] s =
        Inr (ss_add_rules sys ac gni iter [], s\<lparr>ss_adapter := ac_set_config ac c_ad (ss_adapter s), ss_tcp := Some c\<rparr>) \<and>
      ss_connecting (s\<lparr>ss_adapter := ac_set_config ac c_ad (ss_adapter s), ss_tcp := Some c\<rparr>) = Inr True \<and>
      tc_segments_out c = [seg] \<and> th_syn (seg_header seg) \<and> \<not> th_ack (seg_header seg) \<and> \<not> th_fin (seg_header seg) \<and>
      th_seqno (seg_header seg) = snd_isn (tc_sender c) \<and> buffer_str (seg_payload seg) = []
    else (\<exists>what. ss_open_connect sys ac gni iter random c_tcp c_ad [] s = Inl (Runtime_error what)) \<and>
      (\<exists>what. ss_open_listen sys ac gni iter random c_tcp c_ad [] s = Inl (Runtime_error what))"
proof (cases "ss_tcp s = None")
  case True
  let ?init = "tc_sender (tc_init random c_tcp)"
  let ?s = "snd_sent (?init\<lparr>snd_st := SYN_SENT\<rparr>) (snd_seg ?init [] False)"
  let ?c = "tc_send_segment ((tc_init random c_tcp)\<lparr>tc_sender := ?s\<rparr>)"
  have con: "tc_connect (tc_init random c_tcp) = Inr ?c"
    by (simp add: tc_connect_def tc_fill_and_send_def) (simp add: tc_init_def snd_fill_window_init)
  have syn: "snd_wants_syn ?init" by (simp add: snd_wants_syn_def tc_init_def snd_init_def bs_init_def bs_bytes_read_def Let_def)
  have "length_in_sequence_space (snd_seg ?init [] False) = 1" by (simp add: length_in_sequence_space_def snd_seg_def syn)
  then have "tc_state ?c = st_of_official State_SYN_SENT"
    by (simp add: tc_state_def st_of_def st_of_official_def sender_summary_def receiver_summary_def tc_send_segment_def tc_active_def
        snd_sent_def snd_next_seqno_absolute_def snd_bytes_in_flight_def tc_init_def snd_init_def rcv_init_def bs_init_def
        rcv_stream_out_def ra_stream_out_def ra_init_def rcv_ackno_def bs_error_def Let_def split: option.split)
  moreover have "tc_segments_out ?c = [snd_seg ?init [] False]"
    by (simp add: tc_send_segment_def snd_sent_def tc_stamp_def tc_init_def snd_init_def rcv_init_def rcv_ackno_def Let_def)
  moreover have "th_seqno (seg_header (snd_seg ?init [] False)) = snd_isn (tc_sender ?c)"
    by (simp add: snd_seg_def snd_next_seqno_relative_def tc_send_segment_def snd_sent_def tc_init_def snd_init_def wrap_def Let_def split: option.split)
  moreover have "th_syn (seg_header (snd_seg ?init [] False)) \<and> \<not> th_ack (seg_header (snd_seg ?init [] False)) \<and>
      \<not> th_fin (seg_header (snd_seg ?init [] False)) \<and> buffer_str (seg_payload (snd_seg ?init [] False)) = []"
    by (simp add: snd_seg_def th_default_def syn)
  ultimately obtain c seg where "tc_connect (tc_init random c_tcp) = Inr c" "tc_state c = st_of_official State_SYN_SENT" "tc_segments_out c = [seg]"
    "th_seqno (seg_header seg) = snd_isn (tc_sender c)" "th_syn (seg_header seg)" "\<not> th_ack (seg_header seg)" "\<not> th_fin (seg_header seg)"
    "buffer_str (seg_payload seg) = []"
    using con by blast
  then show ?thesis using assms True
    by (auto simp: ss_open_connect_def ss_initialize_TCP_def ss_conn_def ss_connecting_def st_neq_def Let_def intro!: exI [of _ c])
next
  case False
  then show ?thesis by (auto simp: ss_open_connect_def ss_open_listen_def)
qed

theorem connect_sends_syn_witness:
  "let sys = kernel_posix 1; ac = tun_calls sys ipv4_hosts ipv4_names; gni = ipv4_names; iter = map fst; random = 5;
       f = \<lparr>fdw_fd = 3, fdw_eof = False, fdw_closed = False, fdw_read_count = 0, fdw_write_count = 0\<rparr>;
       c_ad = \<lparr>cfg_source = inet 7 70, cfg_destination = inet 9 90, cfg_loss_rate_dn = 0, cfg_loss_rate_up = 0\<rparr>;
       s = \<lparr>ss_owner = f, ss_thread_data = f\<lparr>fdw_fd := 4\<rparr>, ss_adapter = ad_example False (inet 0 0) (inet 0 0), ss_device = f\<lparr>fdw_fd := 5\<rparr>,
            ss_tcp = None, ss_inbound_shutdown = False, ss_outbound_shutdown = False, ss_fully_acked = False,
            ss_world = \<lparr>k_input = (\<lambda>_. []), k_taken = (\<lambda>_. []), k_given = (\<lambda>_. [])\<rparr>\<rparr>
   in \<exists>c seg. ss_open_connect sys ac gni iter random cfg_default c_ad [] s =
        Inr (ss_add_rules sys ac gni iter [], s\<lparr>ss_adapter := ac_set_config ac c_ad (ss_adapter s), ss_tcp := Some c\<rparr>) \<and>
      ss_connecting (s\<lparr>ss_adapter := ac_set_config ac c_ad (ss_adapter s), ss_tcp := Some c\<rparr>) = Inr True \<and>
      tc_segments_out c = [seg] \<and> th_syn (seg_header seg) \<and> \<not> th_ack (seg_header seg) \<and> \<not> th_fin (seg_header seg) \<and>
      th_seqno (seg_header seg) = snd_isn (tc_sender c) \<and> buffer_str (seg_payload seg) = []"
proof -
  let ?sys = "kernel_posix 1" and ?f = "\<lparr>fdw_fd = 3, fdw_eof = False, fdw_closed = False, fdw_read_count = 0, fdw_write_count = 0\<rparr>"
  let ?c_ad = "\<lparr>cfg_source = inet 7 70, cfg_destination = inet 9 90, cfg_loss_rate_dn = 0, cfg_loss_rate_up = 0\<rparr>"
  let ?s = "\<lparr>ss_owner = ?f, ss_thread_data = ?f\<lparr>fdw_fd := 4\<rparr>, ss_adapter = ad_example False (inet 0 0) (inet 0 0), ss_device = ?f\<lparr>fdw_fd := 5\<rparr>,
            ss_tcp = None, ss_inbound_shutdown = False, ss_outbound_shutdown = False, ss_fully_acked = False,
            ss_world = \<lparr>k_input = (\<lambda>_. []), k_taken = (\<lambda>_. []), k_given = (\<lambda>_. [])\<rparr>\<rparr>"
  have "addr_to_string ipv4_names (cfg_destination ?c_ad) = Inr (dotted_quad 9 @ '':'' @ nat_dec (unat (90 :: u16)))"
    by (simp add: addr_to_string_def addr_ip_port_inet [OF numeric_names_ipv4])
  from connect_sends_syn [OF this, of ?s ?sys "tun_calls ?sys ipv4_hosts ipv4_names" "map fst" 5 cfg_default]
  show ?thesis unfolding Let_def by simp
qed

end
