(* ===== verification/Sending.thy ===== *)
theory Sending
  imports TCP_Sender
begin

text \<open>
  Correctness of the TCP sender. \<open>snd_inv S log s\<close> says what holds between any two calls of a
  sender that has accepted the bytes \<open>S\<close> and handed out the segments \<open>log\<close>: the sequence
  numbers sent are SYN, bytes, FIN without a gap, the retransmission queue covers exactly what
  is not acknowledged, the timer runs exactly when that queue is not empty, and every segment
  handed out or waiting is a piece of \<open>S\<close>. \<open>snd_run\<close> executes a sequence of calls.
\<close>

subsection \<open>Lengths and chains of segments\<close>

definition seglen :: "tcp_segment \<Rightarrow> nat" where
  "seglen seg = length (buffer_str (seg_payload seg)) + (if th_syn (seg_header seg) then 1 else 0) +
     (if th_fin (seg_header seg) then 1 else 0)"

lemma length_in_sequence_space_eq: "length_in_sequence_space seg = of_nat (seglen seg)"
  by (simp add: length_in_sequence_space_def seglen_def sz_def)

lemma unat_length_in_sequence_space: "seglen seg < 2 ^ 64 \<Longrightarrow> unat (length_in_sequence_space seg) = seglen seg"
  by (simp add: length_in_sequence_space_eq unat_of_nat take_bit_eq_mod)

lemma seg_from_seglen: "seg_from S isn seg \<Longrightarrow> seglen seg \<le> length S + 2"
  unfolding seg_from_def seg_bare_def Let_def seglen_def by (elim disjE exE conjE) simp_all

fun chain :: "wrapping_int32 \<Rightarrow> nat \<Rightarrow> tcp_segment list \<Rightarrow> nat \<Rightarrow> bool" where
  "chain isn a [] b \<longleftrightarrow> a = b"
| "chain isn a (seg # q) b \<longleftrightarrow>
     th_seqno (seg_header seg) = wrap (of_nat a) isn \<and> 0 < seglen seg \<and> chain isn (a + seglen seg) q b"

lemma chain_le: "chain isn a q b \<Longrightarrow> a \<le> b"
  by (induction q arbitrary: a) fastforce+

lemma chain_snoc:
  "chain isn a (q @ [seg]) b \<longleftrightarrow>
     (\<exists>m. chain isn a q m \<and> th_seqno (seg_header seg) = wrap (of_nat m) isn \<and> 0 < seglen seg \<and> b = m + seglen seg)"
  by (induction q arbitrary: a) auto

lemma unat_of_nat_u64: "n < 2 ^ 64 \<Longrightarrow> unat (of_nat n :: u64) = n"
  by (simp add: unat_of_nat take_bit_eq_mod)

lemma unwrap_wrap_small: "n < 2 ^ 32 \<Longrightarrow> unat (unwrap (wrap (of_nat n) isn) isn 0) = n"
  by (simp add: unwrap_checkpoint_0 wrap_rel_seq unat_of_nat_u64)

text \<open>Acknowledging \<open>k\<close> leaves the part of the chain that is not acknowledged in full.\<close>

lemma snd_drop_acked_chain:
  assumes "chain isn a q b" and "b < 2 ^ 32" and "a \<le> rel_seq ackno isn" and "rel_seq ackno isn \<le> b"
  shows "\<exists>a' done. q = done @ snd_drop_acked isn ackno q \<and> chain isn a' (snd_drop_acked isn ackno q) b \<and>
    a' \<le> rel_seq ackno isn \<and>
    (snd_drop_acked isn ackno q \<noteq> [] \<longrightarrow> rel_seq ackno isn < a' + seglen (hd (snd_drop_acked isn ackno q)))"
  using assms
proof (induction q arbitrary: a)
  case (Cons seg q)
  let ?k = "rel_seq ackno isn"
  have seq: "th_seqno (seg_header seg) = wrap (of_nat a) isn" and rest: "chain isn (a + seglen seg) q b"
    using Cons.prems(1) by simp_all
  have le: "a + seglen seg \<le> b" by (rule chain_le [OF rest])
  then have "unat (unwrap (th_seqno (seg_header seg)) isn 0 + length_in_sequence_space seg) = a + seglen seg"
    using Cons.prems(2) unfolding seq
    by (subst unat_add_nowrap) (simp_all add: unwrap_wrap_small unat_length_in_sequence_space)
  then have cond: "unwrap (th_seqno (seg_header seg)) isn 0 + length_in_sequence_space seg > unwrap ackno isn 0
      \<longleftrightarrow> ?k < a + seglen seg"
    by (simp add: word_less_nat_alt unwrap_checkpoint_0)
  show ?case
  proof (cases "?k < a + seglen seg")
    case True
    with cond Cons.prems show ?thesis by (intro exI [of _ a] exI [of _ "[]"]) simp
  next
    case False
    with Cons.IH [OF rest Cons.prems(2) _ Cons.prems(4)] obtain a' d where
      "q = d @ snd_drop_acked isn ackno q" "chain isn a' (snd_drop_acked isn ackno q) b" "a' \<le> ?k"
      "snd_drop_acked isn ackno q \<noteq> [] \<longrightarrow> ?k < a' + seglen (hd (snd_drop_acked isn ackno q))"
      by auto
    with False cond show ?thesis by (intro exI [of _ a'] exI [of _ "seg # d"]) simp
  qed
qed auto

subsection \<open>The invariant\<close>

definition snd_pos :: "bytes \<Rightarrow> tcp_sender \<Rightarrow> bool" where
  "snd_pos S s \<longleftrightarrow> (case snd_st s of
       INIT \<Rightarrow> snd_next_seqno s = 0 \<and> bs_bytes_r (snd_stream s) = 0
     | SYN_SENT \<Rightarrow> unat (snd_next_seqno s) = 1 + unat (bs_bytes_r (snd_stream s))
     | FIN_SENT \<Rightarrow> unat (snd_next_seqno s) = length S + 2 \<and> unat (bs_bytes_r (snd_stream s)) = length S \<and>
                  bs_end_flag (snd_stream s))"

definition snd_source :: "bytes \<Rightarrow> tcp_sender \<Rightarrow> bool" where
  "snd_source S s \<longleftrightarrow> bs_tracks S (snd_stream s) \<and> unat (bs_bytes_w (snd_stream s)) = length S"

text \<open>Every segment is a piece of \<open>S\<close>, and none carries a FIN before the sender's FIN.\<close>

definition snd_pieces :: "bytes \<Rightarrow> tcp_segment set \<Rightarrow> tcp_sender \<Rightarrow> bool" where
  "snd_pieces S Q s \<longleftrightarrow>
     (\<forall>seg \<in> Q. seg_from S (snd_isn s) seg \<and> (snd_st s \<noteq> FIN_SENT \<longrightarrow> \<not> th_fin (seg_header seg)))"

definition snd_outstanding :: "tcp_sender \<Rightarrow> bool" where
  "snd_outstanding s \<longleftrightarrow>
     (\<exists>a. chain (snd_isn s) a (snd_retransmission_queue s) (unat (snd_next_seqno s)) \<and>
          a \<le> rel_seq (snd_ack s) (snd_isn s) \<and> rel_seq (snd_ack s) (snd_isn s) \<le> unat (snd_next_seqno s) \<and>
          (snd_retransmission_queue s \<noteq> [] \<longrightarrow>
             rel_seq (snd_ack s) (snd_isn s) < a + seglen (hd (snd_retransmission_queue s)))) \<and>
     (tm_running (snd_timer s) \<longleftrightarrow> snd_retransmission_queue s \<noteq> [])"

definition snd_inv :: "bytes \<Rightarrow> tcp_segment list \<Rightarrow> tcp_sender \<Rightarrow> bool" where
  "snd_inv S log s \<longleftrightarrow> snd_source S s \<and> snd_pos S s \<and> snd_outstanding s \<and> snd_window_size s \<noteq> 0 \<and>
     snd_pieces S (set log \<union> set (snd_segments_out s) \<union> set (snd_retransmission_queue s)) s"

lemma snd_inv_init: "snd_inv [] [] (snd_init random capacity retx_timeout fixed_isn)"
  by (simp add: snd_inv_def snd_init_def Let_def snd_source_def snd_pos_def snd_pieces_def
      snd_outstanding_def bs_init_def bs_tracks_def bs_inv_def bs_content_def rel_seq_def)

lemma snd_frames [simp]:
  "snd_outstanding (s\<lparr>snd_stream := st\<rparr>) = snd_outstanding s"
  "snd_outstanding (s\<lparr>snd_segments_out := q\<rparr>) = snd_outstanding s"
  "snd_source S (s\<lparr>snd_segments_out := q\<rparr>) = snd_source S s"
  "snd_pos S (s\<lparr>snd_segments_out := q\<rparr>) = snd_pos S s"
  "snd_pieces S Q (s\<lparr>snd_stream := st\<rparr>) = snd_pieces S Q s"
  "snd_pieces S Q (s\<lparr>snd_segments_out := q\<rparr>) = snd_pieces S Q s"
  by (simp_all add: snd_outstanding_def snd_source_def snd_pos_def snd_pieces_def cong: snd_state.case_cong)

text \<open>The fields the invariant reads.\<close>

lemma snd_inv_frame:
  assumes "snd_inv S log s" and "snd_isn s' = snd_isn s" and "snd_stream s' = snd_stream s"
    and "snd_next_seqno s' = snd_next_seqno s" and "snd_st s' = snd_st s" and "snd_ack s' = snd_ack s"
    and "snd_retransmission_queue s' = snd_retransmission_queue s"
    and "tm_running (snd_timer s') = tm_running (snd_timer s)" and "snd_window_size s' \<noteq> 0"
    and "set (snd_segments_out s') \<subseteq> set log \<union> set (snd_segments_out s) \<union> set (snd_retransmission_queue s)"
  shows "snd_inv S log s'"
  using assms unfolding snd_inv_def snd_source_def snd_pos_def snd_outstanding_def snd_pieces_def
  by (simp only:) blast

lemma snd_next_le: "snd_inv S log s \<Longrightarrow> unat (snd_next_seqno s) \<le> length S + 2"
  unfolding snd_inv_def snd_pos_def snd_source_def bs_tracks_def
  by (auto simp: word_le_nat_alt split: snd_state.splits)

lemma snd_bytes_in_flight_eq:
  assumes "snd_outstanding s"
  shows "unat (snd_bytes_in_flight s) = unat (snd_next_seqno s) - rel_seq (snd_ack s) (snd_isn s)"
  using assms
  by (auto simp: snd_bytes_in_flight_def snd_outstanding_def unat_diff_nowrap unwrap_checkpoint_0 word_le_nat_alt)

lemma snd_unread:
  assumes "snd_source S s"
  shows "length S = unat (bs_bytes_r (snd_stream s)) + unat (bs_buffer_size (snd_stream s)) \<and>
    length (bs_content (snd_stream s)) = unat (bs_buffer_size (snd_stream s))"
  using assms bs_inv_length [of "snd_stream s"]
  by (auto simp: snd_source_def bs_tracks_def bs_buffer_size_def word_le_nat_alt)

lemma snd_pieces_mono: "snd_pieces S Q s \<Longrightarrow> Q' \<subseteq> Q \<Longrightarrow> snd_pieces S Q' s"
  by (auto simp: snd_pieces_def)

subsection \<open>Filling the window\<close>

lemma snd_read:
  fixes n :: u64
  assumes "snd_source S s"
  defines "r \<equiv> unat (bs_bytes_r (snd_stream s))"
  defines "d \<equiv> take (unat n) (drop r S)"
  shows "\<exists>stream. bs_read n (snd_stream s) = Inr (d, stream) \<and> bs_tracks S stream \<and>
    unat (bs_bytes_w stream) = length S \<and> unat (bs_bytes_r stream) = r + length d \<and>
    bs_end_flag stream = bs_end_flag (snd_stream s) \<and> r + length d \<le> length S \<and>
    (bs_size stream = 0 \<longleftrightarrow> r + length d = length S)"
proof -
  let ?st = "snd_stream s"
  have tr: "bs_tracks S ?st" and w: "unat (bs_bytes_w ?st) = length S" using assms by (simp_all add: snd_source_def)
  then have inv: "bs_inv ?st" and c: "bs_content ?st = drop r S" and rw: "r \<le> length S"
    by (simp_all add: bs_tracks_def r_def word_le_nat_alt)
  from bs_read_spec [OF inv, of n] obtain stream where
    rd: "bs_read n ?st = Inr (take (unat n) (bs_content ?st), stream)"
    and stream: "bs_inv stream" "bs_content stream = drop (unat n) (bs_content ?st)" "bs_bytes_w stream = bs_bytes_w ?st"
      "bs_end_flag stream = bs_end_flag ?st"
    by blast
  have tr': "bs_tracks S stream" by (rule bs_tracks_read(1) [OF tr rd])
  then have len: "length (bs_content stream) = length S - unat (bs_bytes_r stream)" "unat (bs_bytes_r stream) \<le> length S"
    using stream(3) w by (simp_all add: bs_tracks_def word_le_nat_alt)
  have "length (bs_content stream) + length d = length S - r"
    unfolding stream(2) c d_def by simp
  with len rw have r': "unat (bs_bytes_r stream) = r + length d" by linarith
  moreover have "bs_size stream = 0 \<longleftrightarrow> r + length d = length S"
    using len r' bs_inv_length [OF stream(1)] by (auto simp: unat_eq_zero)
  ultimately show ?thesis using rd tr' stream w len c by (auto simp: d_def)
qed

lemma snd_wants_syn_iff: "snd_pos S s \<Longrightarrow> snd_wants_syn s \<longleftrightarrow> snd_st s = INIT"
  by (auto simp: snd_wants_syn_def snd_pos_def bs_bytes_read_def)

lemma seglen_snd_seg:
  "seglen (snd_seg s d fin) = length d + (if snd_wants_syn s then 1 else 0) + (if fin then 1 else 0)"
  by (simp add: seglen_def snd_seg_def)

lemma snd_seg_simps [simp]:
  "th_seqno (seg_header (snd_seg s d fin)) = wrap (snd_next_seqno s) (snd_isn s)"
  "th_fin (seg_header (snd_seg s d fin)) = fin" "th_syn (seg_header (snd_seg s d fin)) = snd_wants_syn s"
  "buffer_str (seg_payload (snd_seg s d fin)) = d"
  by (simp_all add: snd_seg_def snd_next_seqno_relative_def)

lemma snd_seg_piece:
  assumes pos: "snd_pos S s" and st: "snd_st s \<noteq> FIN_SENT"
    and d: "d = take n (drop (unat (bs_bytes_r (snd_stream s))) S)"
    and r: "unat (bs_bytes_r (snd_stream s)) + length d \<le> length S"
    and fin: "fin \<Longrightarrow> unat (bs_bytes_r (snd_stream s)) + length d = length S"
  shows "seg_from S (snd_isn s) (snd_seg s d fin)"
proof -
  let ?n = "unat (snd_next_seqno s)"
  have n: "?n - 1 = unat (bs_bytes_r (snd_stream s))" "?n \<le> length S + 1" "snd_wants_syn s \<longleftrightarrow> ?n = 0"
    using pos st r snd_wants_syn_iff [OF pos] by (auto simp: snd_pos_def split: snd_state.splits)
  have "d = take (length d) (drop (unat (bs_bytes_r (snd_stream s))) S)"
    by (subst d) (simp add: d min_def)
  then show ?thesis
    unfolding seg_from_def Let_def using n r fin by (intro disjI2 exI [of _ ?n]) simp
qed

text \<open>A round of the loop keeps the invariant and stays in the window.\<close>

lemma snd_quota_le:
  assumes "snd_window_left s \<noteq> 0"
  shows "unat (snd_quota s) + (if snd_wants_syn s then 1 else 0) \<le> unat (snd_window_left s)"
    and "\<not> snd_wants_syn s \<Longrightarrow> 0 < unat (snd_quota s)"
proof -
  have pos: "0 < unat (snd_window_left s)" using assms by (simp add: unat_gt_0)
  have pred: "unat (snd_window_left s - 1) = unat (snd_window_left s) - 1" by (rule unat_minus_one [OF assms])
  show "unat (snd_quota s) + (if snd_wants_syn s then 1 else 0) \<le> unat (snd_window_left s)"
    using pos pred by (auto simp: snd_quota_def Let_def word_le_nat_alt)
  show "\<not> snd_wants_syn s \<Longrightarrow> 0 < unat (snd_quota s)"
    using pos by (auto simp: snd_quota_def Let_def MAX_PAYLOAD_SIZE_def)
qed

lemma snd_wants_fin_fits:
  assumes "snd_wants_fin s d stream" and "length d < 2 ^ 32"
  shows "seglen (snd_seg s d True) \<le> unat (snd_window_left s)"
proof -
  have "length_in_sequence_space (snd_seg s d False) + 1 = of_nat (seglen (snd_seg s d True))"
    by (simp add: length_in_sequence_space_eq seglen_snd_seg)
  with assms(1) have "of_nat (seglen (snd_seg s d True)) \<le> snd_window_left s" by (simp add: snd_wants_fin_def)
  moreover have "seglen (snd_seg s d True) < 2 ^ 64" using assms(2) by (simp add: seglen_snd_seg)
  ultimately show ?thesis by (simp add: word_le_nat_alt unat_of_nat_u64)
qed

lemma snd_sent_simps [simp]:
  "snd_isn (snd_sent s seg) = snd_isn s" "snd_ack (snd_sent s seg) = snd_ack s"
  "snd_window_size (snd_sent s seg) = snd_window_size s" "snd_st (snd_sent s seg) = snd_st s"
  "snd_stream (snd_sent s seg) = snd_stream s"
  "snd_segments_out (snd_sent s seg) = snd_segments_out s @ [seg]"
  "snd_retransmission_queue (snd_sent s seg) = snd_retransmission_queue s @ [seg]"
  "snd_next_seqno (snd_sent s seg) = snd_next_seqno s + length_in_sequence_space seg"
  "tm_running (snd_timer (snd_sent s seg))"
  by (simp_all add: snd_sent_def tm_start_def tm_is_running_def)

lemma snd_after_simps [simp]:
  "snd_isn (snd_after s d stream) = snd_isn s" "snd_ack (snd_after s d stream) = snd_ack s"
  "snd_window_size (snd_after s d stream) = snd_window_size s"
  "snd_st (snd_after s d stream) = snd_st_after s (snd_wants_fin s d stream)"
  "snd_stream (snd_after s d stream) = stream"
  "snd_segments_out (snd_after s d stream) = snd_segments_out s"
  "snd_retransmission_queue (snd_after s d stream) = snd_retransmission_queue s"
  "snd_next_seqno (snd_after s d stream) = snd_next_seqno s"
  "snd_timer (snd_after s d stream) = snd_timer s"
  by (simp_all add: snd_after_def)

lemma snd_sent_outstanding:
  assumes out: "snd_outstanding s" and seq: "th_seqno (seg_header seg) = wrap (snd_next_seqno s) (snd_isn s)"
    and len: "0 < seglen seg" and lt: "unat (snd_next_seqno s) + seglen seg < 2 ^ 64"
  shows "snd_outstanding (snd_sent s seg)"
    and "unat (snd_next_seqno (snd_sent s seg)) = unat (snd_next_seqno s) + seglen seg"
proof -
  have l: "unat (length_in_sequence_space seg) = seglen seg"
    by (rule unat_length_in_sequence_space) (use lt in simp)
  then show next': "unat (snd_next_seqno (snd_sent s seg)) = unat (snd_next_seqno s) + seglen seg"
    using lt by (simp add: unat_add_nowrap)
  from out obtain a where a: "chain (snd_isn s) a (snd_retransmission_queue s) (unat (snd_next_seqno s))"
    "a \<le> rel_seq (snd_ack s) (snd_isn s)" "rel_seq (snd_ack s) (snd_isn s) \<le> unat (snd_next_seqno s)"
    "snd_retransmission_queue s \<noteq> [] \<longrightarrow>
       rel_seq (snd_ack s) (snd_isn s) < a + seglen (hd (snd_retransmission_queue s))"
    by (auto simp: snd_outstanding_def)
  have "chain (snd_isn s) a (snd_retransmission_queue s @ [seg]) (unat (snd_next_seqno s) + seglen seg)"
    using a(1) seq len by (auto simp: chain_snoc)
  moreover have "rel_seq (snd_ack s) (snd_isn s) < a + seglen (hd (snd_retransmission_queue s @ [seg]))"
    using a len by (cases "snd_retransmission_queue s") auto
  ultimately show "snd_outstanding (snd_sent s seg)"
    unfolding snd_outstanding_def next' using a(2,3) by auto
qed

text \<open>What a round reads and sends.\<close>

definition snd_round :: "bytes \<Rightarrow> tcp_sender \<Rightarrow> bytes \<Rightarrow> byte_stream \<Rightarrow> bool" where
  "snd_round S s d stream \<longleftrightarrow>
     bs_read (snd_quota s) (snd_stream s) = Inr (d, stream) \<and>
     bs_tracks S stream \<and> unat (bs_bytes_w stream) = length S \<and>
     unat (bs_bytes_r stream) = unat (bs_bytes_r (snd_stream s)) + length d \<and>
     bs_end_flag stream = bs_end_flag (snd_stream s) \<and>
     unat (bs_bytes_r (snd_stream s)) + length d \<le> length S \<and>
     (bs_size stream = 0 \<longleftrightarrow> unat (bs_bytes_r (snd_stream s)) + length d = length S) \<and>
     d = take (unat (snd_quota s)) (drop (unat (bs_bytes_r (snd_stream s))) S)"

lemma snd_round_exists: "snd_source S s \<Longrightarrow> \<exists>d stream. snd_round S s d stream"
  using snd_read [of S s "snd_quota s"] by (auto simp: snd_round_def)

lemma snd_round_fin:
  assumes "snd_round S s d stream" and "snd_wants_fin s d stream"
  shows "unat (bs_bytes_r (snd_stream s)) + length d = length S" and "bs_end_flag stream"
  using assms by (auto simp: snd_round_def snd_wants_fin_def bs_eof_def)

lemma snd_round_pos:
  assumes pos: "snd_pos S s" and st: "snd_st s \<noteq> FIN_SENT" and rnd: "snd_round S s d stream"
    and next': "unat (snd_next_seqno s') = unat (snd_next_seqno s) + seglen (snd_seg s d (snd_wants_fin s d stream))"
    and s': "snd_st s' = snd_st_after s (snd_wants_fin s d stream)" "snd_stream s' = stream"
  shows "snd_pos S s'"
proof (cases "snd_wants_fin s d stream")
  case True
  then show ?thesis
    using snd_round_fin [OF rnd True] pos st rnd next' s' snd_wants_syn_iff [OF pos]
    by (auto simp: snd_pos_def seglen_snd_seg snd_st_after_def snd_round_def split: snd_state.splits)
next
  case False
  then show ?thesis
    using pos st rnd next' s' snd_wants_syn_iff [OF pos]
    by (auto simp: snd_pos_def seglen_snd_seg snd_st_after_def snd_round_def split: snd_state.splits)
qed

lemma snd_round_pieces:
  assumes inv: "snd_inv S log s" and st: "snd_st s \<noteq> FIN_SENT" and rnd: "snd_round S s d stream"
    and s': "snd_st s' = snd_st_after s (snd_wants_fin s d stream)" "snd_isn s' = snd_isn s"
  shows "snd_pieces S (insert (snd_seg s d (snd_wants_fin s d stream))
    (set log \<union> set (snd_segments_out s) \<union> set (snd_retransmission_queue s))) s'"
proof -
  have pos: "snd_pos S s" using inv by (simp add: snd_inv_def)
  have "seg_from S (snd_isn s) (snd_seg s d (snd_wants_fin s d stream))"
    by (rule snd_seg_piece [OF pos st])
      (use rnd snd_round_fin [OF rnd] in \<open>auto simp: snd_round_def\<close>)
  then show ?thesis
    using inv st s' unfolding snd_inv_def snd_pieces_def snd_st_after_def by (auto split: if_splits)
qed

lemma snd_round_seglen:
  assumes "snd_round S s d stream" and "snd_window_left s \<noteq> 0" and "length S < 2 ^ 32"
  shows "seglen (snd_seg s d (snd_wants_fin s d stream)) \<le> unat (snd_window_left s)"
proof (cases "snd_wants_fin s d stream")
  case True
  have "length d < 2 ^ 32" using assms(1,3) by (auto simp: snd_round_def)
  from snd_wants_fin_fits [OF True this] True show ?thesis by simp
next
  case False
  have "length d \<le> unat (snd_quota s)" using assms(1) by (auto simp: snd_round_def)
  with False snd_quota_le(1) [OF assms(2)] show ?thesis by (simp add: seglen_snd_seg)
qed

text \<open>A round that builds an empty segment found nothing to send.\<close>

lemma snd_round_idle:
  assumes pos: "snd_pos S s" and st: "snd_st s \<noteq> FIN_SENT" and left: "snd_window_left s \<noteq> 0"
    and rnd: "snd_round S s d stream" and empty: "seglen (snd_seg s d (snd_wants_fin s d stream)) = 0"
  shows "snd_st s = SYN_SENT" and "bs_content stream = []" and "\<not> bs_end_flag stream"
proof -
  from empty have d: "d = []" and syn: "\<not> snd_wants_syn s" and fin: "\<not> snd_wants_fin s d stream"
    by (auto simp: seglen_snd_seg split: if_splits)
  show st': "snd_st s = SYN_SENT" using st snd_wants_syn_iff [OF pos] syn by (cases "snd_st s") simp_all
  have "drop (unat (bs_bytes_r (snd_stream s))) S = []"
    using rnd d snd_quota_le(2) [OF left syn] by (auto simp: snd_round_def)
  then show c: "bs_content stream = []" using rnd d by (auto simp: snd_round_def bs_tracks_def)
  then have sz: "bs_size stream = 0" using rnd bs_content_empty_iff [of stream] by (simp add: snd_round_def bs_tracks_def)
  show "\<not> bs_end_flag stream"
  proof
    assume "bs_end_flag stream"
    with fin sz st' have "\<not> length_in_sequence_space (snd_seg s d False) + 1 \<le> snd_window_left s"
      by (simp add: snd_wants_fin_def bs_eof_def)
    with d syn left show False
      by (simp add: length_in_sequence_space_eq seglen_snd_seg word_le_nat_alt unat_eq_zero not_le)
  qed
qed

lemma snd_fill_round_ok:
  assumes inv: "snd_inv S log s" and S: "length S + 2 < 2 ^ 32"
    and st: "snd_st s \<noteq> FIN_SENT" and left: "snd_window_left s \<noteq> 0"
  shows "\<exists>go s'. snd_fill_round s = Inr (go, s') \<and> snd_inv S log s' \<and>
    snd_isn s' = snd_isn s \<and> snd_ack s' = snd_ack s \<and> snd_window_size s' = snd_window_size s \<and>
    bs_end_flag (snd_stream s') = bs_end_flag (snd_stream s) \<and>
    unat (snd_next_seqno s') \<le> unat (snd_next_seqno s) + unat (snd_window_left s) \<and>
    unat (snd_next_seqno s) \<le> unat (snd_next_seqno s') \<and>
    (\<not> go \<longrightarrow> snd_st s' = SYN_SENT \<and> bs_content (snd_stream s') = [] \<and> \<not> bs_end_flag (snd_stream s'))"
proof -
  have src: "snd_source S s" and pos: "snd_pos S s" and out: "snd_outstanding s"
    and win: "snd_window_size s \<noteq> 0"
    using inv by (simp_all add: snd_inv_def)
  from snd_round_exists [OF src] obtain d stream where rnd: "snd_round S s d stream" by blast
  let ?fin = "snd_wants_fin s d stream" and ?s = "snd_after s d stream"
  let ?seg = "snd_seg s d ?fin"
  have fit: "seglen ?seg \<le> unat (snd_window_left s)" by (rule snd_round_seglen [OF rnd left]) (use S in simp)
  have "length d \<le> length S" using rnd by (simp add: snd_round_def)
  then have len64: "unat (snd_next_seqno s) + seglen ?seg < 2 ^ 64"
    using snd_next_le [OF inv] S by (simp add: seglen_snd_seg)
  have zero: "length_in_sequence_space ?seg = 0 \<longleftrightarrow> seglen ?seg = 0"
    using unat_length_in_sequence_space [of ?seg] len64 by (auto simp: unat_eq_zero)
  have pieces: "snd_pieces S (insert ?seg (set log \<union> set (snd_segments_out s) \<union> set (snd_retransmission_queue s))) ?s"
    by (rule snd_round_pieces [OF inv st rnd]) simp_all
  have src': "snd_source S ?s" using rnd by (simp add: snd_source_def snd_round_def)
  have frame: "snd_outstanding ?s" using out by (simp add: snd_outstanding_def)
  have rd: "bs_read (snd_quota s) (snd_stream s) = Inr (d, stream)" "bs_end_flag stream = bs_end_flag (snd_stream s)"
    using rnd by (simp_all add: snd_round_def)
  show ?thesis
  proof (cases "seglen ?seg = 0")
    case True
    then have fin: "\<not> ?fin" and syn: "\<not> snd_wants_syn s" by (auto simp: seglen_snd_seg split: if_splits)
    note idle = snd_round_idle [OF pos st left rnd True]
    have pos': "snd_pos S ?s" by (rule snd_round_pos [OF pos st rnd]) (use True in simp_all)
    have "snd_fill_round s = Inr (False, ?s)" using True zero rd by (simp add: snd_fill_round_eq)
    moreover have "snd_inv S log ?s"
      unfolding snd_inv_def using src' pos' frame win snd_pieces_mono [OF pieces] by (simp add: subset_insertI)
    ultimately show ?thesis using rd idle syn fin by (auto simp: snd_st_after_def)
  next
    case False
    then have pos0: "0 < seglen ?seg" by simp
    note sent = snd_sent_outstanding [OF frame _ pos0, simplified, OF len64 [simplified]]
    have "snd_fill_round s = Inr (True, snd_sent ?s ?seg)" using False zero rd by (simp add: snd_fill_round_eq)
    moreover have "snd_pos S (snd_sent ?s ?seg)" by (rule snd_round_pos [OF pos st rnd]) (use sent in simp_all)
    then have "snd_inv S log (snd_sent ?s ?seg)"
      unfolding snd_inv_def using src' sent(1) win pieces by (auto simp: snd_source_def snd_pieces_def)
    ultimately show ?thesis using rd(2) sent(2) fit by auto
  qed
qed

text \<open>What the loop has achieved when it returns.\<close>

definition snd_filled :: "tcp_sender \<Rightarrow> bool" where
  "snd_filled s \<longleftrightarrow> snd_window_left s = 0 \<or> snd_st s = FIN_SENT \<or>
     snd_st s = SYN_SENT \<and> bs_content (snd_stream s) = [] \<and> \<not> bs_end_flag (snd_stream s)"

lemma snd_in_window:
  assumes "snd_outstanding s" and "snd_outstanding s'" and "snd_isn s' = snd_isn s"
    and "snd_ack s' = snd_ack s" and "snd_window_size s' = snd_window_size s"
    and "unat (snd_next_seqno s') \<le> unat (snd_next_seqno s) + unat (snd_window_left s)"
    and fits: "unat (snd_bytes_in_flight s) \<le> unat (snd_window_size s)"
  shows "unat (snd_bytes_in_flight s') \<le> unat (snd_window_size s)"
proof -
  have "unat (ucast (snd_window_size s) :: u64) = unat (snd_window_size s)"
    using unat_u16_lt [of "snd_window_size s"] by (simp add: unsigned_ucast_eq take_bit_nat_eq_self)
  then have "unat (snd_window_left s) = unat (snd_window_size s) - unat (snd_bytes_in_flight s)"
    using fits by (simp add: snd_window_left_def unat_diff_nowrap word_le_nat_alt)
  with assms show ?thesis
    by (simp add: snd_bytes_in_flight_eq)
qed

lemma snd_fill_window_ok:
  assumes "snd_inv S log s" and "length S + 2 < 2 ^ 32"
  shows "\<exists>s'. snd_fill_window s = Inr s' \<and> snd_inv S log s' \<and>
    snd_isn s' = snd_isn s \<and> snd_ack s' = snd_ack s \<and> snd_window_size s' = snd_window_size s \<and>
    bs_end_flag (snd_stream s') = bs_end_flag (snd_stream s) \<and> snd_filled s' \<and>
    unat (snd_next_seqno s) \<le> unat (snd_next_seqno s') \<and>
    (unat (snd_bytes_in_flight s) \<le> unat (snd_window_size s) \<longrightarrow>
     unat (snd_bytes_in_flight s') \<le> unat (snd_window_size s'))"
  using assms(1)
proof (induction s rule: snd_fill_window.induct)
  case (1 s)
  show ?case
  proof (cases "snd_window_left s \<noteq> 0 \<and> snd_st s \<noteq> FIN_SENT")
    case True
    from snd_fill_round_ok [OF 1(2) assms(2)] True obtain go s' where
      rnd: "snd_fill_round s = Inr (go, s')" and inv: "snd_inv S log s'"
      and eqs: "snd_isn s' = snd_isn s" "snd_ack s' = snd_ack s" "snd_window_size s' = snd_window_size s"
        "bs_end_flag (snd_stream s') = bs_end_flag (snd_stream s)"
      and nx: "unat (snd_next_seqno s') \<le> unat (snd_next_seqno s) + unat (snd_window_left s)"
      and ge: "unat (snd_next_seqno s) \<le> unat (snd_next_seqno s')"
      and stop: "\<not> go \<longrightarrow> snd_st s' = SYN_SENT \<and> bs_content (snd_stream s') = [] \<and> \<not> bs_end_flag (snd_stream s')"
      by blast
    have win: "unat (snd_bytes_in_flight s') \<le> unat (snd_window_size s')"
      if "unat (snd_bytes_in_flight s) \<le> unat (snd_window_size s)"
      using snd_in_window [of s s'] that 1(2) inv eqs nx by (simp add: snd_inv_def)
    show ?thesis
    proof (cases go)
      case go: True
      from 1(1) [OF True rnd refl go inv] obtain s'' where
        "snd_fill_window s' = Inr s''" "snd_inv S log s''" "snd_isn s'' = snd_isn s'" "snd_ack s'' = snd_ack s'"
        "snd_window_size s'' = snd_window_size s'" "bs_end_flag (snd_stream s'') = bs_end_flag (snd_stream s')"
        "snd_filled s''" "unat (snd_next_seqno s') \<le> unat (snd_next_seqno s'')" "unat (snd_bytes_in_flight s') \<le> unat (snd_window_size s') \<longrightarrow>
          unat (snd_bytes_in_flight s'') \<le> unat (snd_window_size s'')"
        by blast
      with True rnd go eqs win ge show ?thesis by (simp add: snd_fill_window.simps [of s])
    next
      case False
      with True rnd eqs win ge inv stop show ?thesis
        by (simp add: snd_fill_window.simps [of s] snd_filled_def)
    qed
  next
    case False
    with 1(2) show ?thesis by (auto simp: snd_fill_window.simps [of s] snd_filled_def)
  qed
qed

subsection \<open>Acknowledgments, time, and the writer\<close>

text \<open>\<open>snd_acceptable\<close>: the acknowledgment covers something new that has been sent.\<close>

definition snd_acceptable :: "wrapping_int32 \<Rightarrow> tcp_sender \<Rightarrow> bool" where
  "snd_acceptable ackno s \<longleftrightarrow>
     rel_seq (snd_ack s) (snd_isn s) < rel_seq ackno (snd_isn s) \<and>
     rel_seq ackno (snd_isn s) \<le> unat (snd_next_seqno s)"

lemma snd_ack_received_eq:
  "snd_ack_received ackno window_size s =
     (let s = s\<lparr>snd_window_size := if window_size = 0 then 1 else window_size,
                snd_window_probe := (window_size = 0)\<rparr> in
      if snd_acceptable ackno s then
        let q = snd_drop_acked (snd_isn s) ackno (snd_retransmission_queue s) in
        s\<lparr>snd_ack := ackno, snd_rto := snd_initial_rto s, snd_retransmission_queue := q,
          snd_timer := (if q = [] then tm_stop (snd_timer s)
                        else tm_start (ucast (snd_initial_rto s)) (snd_timer s)),
          snd_consecutive_retran := 0\<rparr>
      else s)"
  by (auto simp: snd_ack_received_def snd_acceptable_def Let_def snd_next_seqno_absolute_def
      word_less_nat_alt word_le_nat_alt unwrap_checkpoint_0 not_less)

lemma snd_ack_received_rejects:
  assumes "\<not> snd_acceptable ackno s"
  shows "snd_ack_received ackno window_size s =
     s\<lparr>snd_window_size := if window_size = 0 then 1 else window_size, snd_window_probe := (window_size = 0)\<rparr>"
  using assms by (auto simp: snd_ack_received_eq snd_acceptable_def Let_def)

lemma snd_ack_received_inv:
  assumes inv: "snd_inv S log s" and S: "length S + 2 < 2 ^ 32"
  shows "snd_inv S log (snd_ack_received ackno window_size s)"
proof (cases "snd_acceptable ackno s")
  case False
  then show ?thesis
    by (intro snd_inv_frame [OF inv]) (auto simp: snd_ack_received_rejects)
next
  case True
  let ?q = "snd_drop_acked (snd_isn s) ackno (snd_retransmission_queue s)"
  have k: "rel_seq ackno (snd_isn s) \<le> unat (snd_next_seqno s)"
    "rel_seq (snd_ack s) (snd_isn s) \<le> rel_seq ackno (snd_isn s)"
    using True by (simp_all add: snd_acceptable_def)
  from inv obtain a where a: "chain (snd_isn s) a (snd_retransmission_queue s) (unat (snd_next_seqno s))"
    "a \<le> rel_seq (snd_ack s) (snd_isn s)"
    by (auto simp: snd_inv_def snd_outstanding_def)
  have b: "unat (snd_next_seqno s) < 2 ^ 32" using snd_next_le [OF inv] S by simp
  from snd_drop_acked_chain [OF a(1) b _ k(1)] a(2) k(2) obtain a' d where
    q: "snd_retransmission_queue s = d @ ?q" "chain (snd_isn s) a' ?q (unat (snd_next_seqno s))"
      "a' \<le> rel_seq ackno (snd_isn s)" "?q \<noteq> [] \<longrightarrow> rel_seq ackno (snd_isn s) < a' + seglen (hd ?q)"
    by auto
  have sub: "set ?q \<subseteq> set (snd_retransmission_queue s)" by (subst q(1)) auto
  have "snd_outstanding (snd_ack_received ackno window_size s)"
    using True q(2-4) k(1)
    by (auto simp: snd_ack_received_eq snd_acceptable_def Let_def snd_outstanding_def tm_start_def tm_stop_def)
  then show ?thesis
    using True inv sub
    by (auto simp: snd_ack_received_eq snd_acceptable_def Let_def snd_inv_def snd_source_def snd_pos_def snd_pieces_def
        cong: snd_state.case_cong)
qed

lemma snd_outstanding_hd:
  assumes "snd_outstanding s" and "length S + 2 < 2 ^ 32" and "unat (snd_next_seqno s) \<le> length S + 2"
    and "snd_retransmission_queue s = seg # q"
  shows "rel_seq (th_seqno (seg_header seg)) (snd_isn s) \<le> rel_seq (snd_ack s) (snd_isn s)"
    and "rel_seq (snd_ack s) (snd_isn s) < rel_seq (th_seqno (seg_header seg)) (snd_isn s) + seglen seg"
proof -
  from assms(1,4) obtain a where a: "th_seqno (seg_header seg) = wrap (of_nat a) (snd_isn s)"
    "a \<le> rel_seq (snd_ack s) (snd_isn s)" "rel_seq (snd_ack s) (snd_isn s) \<le> unat (snd_next_seqno s)"
    "rel_seq (snd_ack s) (snd_isn s) < a + seglen seg"
    by (auto simp: snd_outstanding_def)
  then have "rel_seq (th_seqno (seg_header seg)) (snd_isn s) = a"
    using assms(2,3) by (simp add: wrap_rel_seq unat_of_nat_u64)
  with a show "rel_seq (th_seqno (seg_header seg)) (snd_isn s) \<le> rel_seq (snd_ack s) (snd_isn s)"
    "rel_seq (snd_ack s) (snd_isn s) < rel_seq (th_seqno (seg_header seg)) (snd_isn s) + seglen seg"
    by simp_all
qed

lemma snd_in_flight_0_iff:
  assumes "snd_outstanding s"
  shows "snd_bytes_in_flight s = 0 \<longleftrightarrow> snd_retransmission_queue s = []"
proof -
  from assms obtain a where a: "chain (snd_isn s) a (snd_retransmission_queue s) (unat (snd_next_seqno s))"
    "a \<le> rel_seq (snd_ack s) (snd_isn s)" "rel_seq (snd_ack s) (snd_isn s) \<le> unat (snd_next_seqno s)"
    "snd_retransmission_queue s \<noteq> [] \<longrightarrow>
       rel_seq (snd_ack s) (snd_isn s) < a + seglen (hd (snd_retransmission_queue s))"
    by (auto simp: snd_outstanding_def)
  have "unat (snd_bytes_in_flight s) = 0 \<longleftrightarrow> snd_retransmission_queue s = []"
  proof (cases "snd_retransmission_queue s")
    case (Cons seg q)
    then have "a + seglen seg \<le> unat (snd_next_seqno s)" using a(1) chain_le by auto
    with a Cons show ?thesis by (simp add: snd_bytes_in_flight_eq [OF assms])
  qed (use a in \<open>simp add: snd_bytes_in_flight_eq [OF assms]\<close>)
  then show ?thesis by (simp add: unat_eq_zero)
qed

lemma snd_tick_expired:
  assumes inv: "snd_inv S log s" and S: "length S + 2 < 2 ^ 32"
    and run: "tm_running (snd_timer s)" and ms: "tm_rto (snd_timer s) \<le> ms"
  shows "\<exists>seg s'. snd_tick ms s = Inr s' \<and> snd_segments_out s' = snd_segments_out s @ [seg] \<and>
    seg \<in> set (snd_retransmission_queue s) \<and>
    rel_seq (th_seqno (seg_header seg)) (snd_isn s) \<le> rel_seq (snd_ack s) (snd_isn s) \<and>
    rel_seq (snd_ack s) (snd_isn s) < rel_seq (th_seqno (seg_header seg)) (snd_isn s) + seglen seg \<and>
    snd_rto s' = (if snd_window_probe s then snd_rto s else snd_rto s * 2) \<and>
    snd_timer s' = \<lparr>tm_rto = ucast (snd_rto s'), tm_running = True\<rparr> \<and>
    snd_consecutive_retran s' =
      (if snd_last_retrans_seqno s = Some (th_seqno (seg_header seg)) then snd_consecutive_retran s + 1 else 1) \<and>
    snd_inv S log s'"
proof -
  have out: "snd_outstanding s" and win: "snd_window_size s \<noteq> 0" using inv by (simp_all add: snd_inv_def)
  then obtain seg q where q: "snd_retransmission_queue s = seg # q"
    using run by (auto simp: snd_outstanding_def neq_Nil_conv)
  note hd = snd_outstanding_hd [OF out S snd_next_le [OF inv] q]
  have exp: "tm_time_passed ms (snd_timer s) = (True, snd_timer s)"
    using run ms by (simp add: tm_time_passed_def tm_is_running_def not_less)
  have last: "(case snd_last_retrans_seqno s of None \<Rightarrow> False | Some w \<Rightarrow> wi_eq w n) \<longleftrightarrow> snd_last_retrans_seqno s = Some n" for n
    by (simp split: option.split)
  obtain s' where s': "snd_tick ms s = Inr s'" and f: "snd_segments_out s' = snd_segments_out s @ [seg]"
    "snd_isn s' = snd_isn s" "snd_stream s' = snd_stream s" "snd_next_seqno s' = snd_next_seqno s" "snd_st s' = snd_st s"
    "snd_ack s' = snd_ack s" "snd_retransmission_queue s' = snd_retransmission_queue s" "snd_window_size s' = snd_window_size s"
    and g: "snd_rto s' = (if snd_window_probe s then snd_rto s else snd_rto s * 2)"
    "snd_timer s' = \<lparr>tm_rto = ucast (snd_rto s'), tm_running = True\<rparr>"
    "snd_consecutive_retran s' =
      (if snd_last_retrans_seqno s = Some (th_seqno (seg_header seg)) then snd_consecutive_retran s + 1 else 1)"
    using win q by (auto simp: snd_tick_def exp snd_retransmit_def Let_def last tm_start_def)
  have "snd_inv S log s'"
    by (rule snd_inv_frame [OF inv f(2-7)]) (use f g run win q in auto)
  with s' f(1) g q hd show ?thesis by auto
qed

lemma snd_tick_ok:
  assumes inv: "snd_inv S log s" and S: "length S + 2 < 2 ^ 32"
  shows "\<exists>s'. snd_tick ms s = Inr s' \<and> snd_inv S log s'"
proof (cases "tm_running (snd_timer s) \<and> tm_rto (snd_timer s) \<le> ms")
  case True
  with snd_tick_expired [OF inv S] show ?thesis by blast
next
  case False
  then obtain t where t: "tm_time_passed ms (snd_timer s) = (False, t)" "tm_running t = tm_running (snd_timer s)"
    by (cases "tm_running (snd_timer s)") (simp_all add: tm_time_passed_def tm_is_running_def not_le)
  have "snd_inv S log (s\<lparr>snd_timer := t\<rparr>)"
    by (rule snd_inv_frame [OF inv]) (use t inv in \<open>auto simp: snd_inv_def\<close>)
  then show ?thesis by (simp add: snd_tick_def t)
qed

lemma bs_tracks_cong:
  assumes "bs_tracks S st" and "take (unat (bs_bytes_w st)) S' = take (unat (bs_bytes_w st)) S"
    and "unat (bs_bytes_w st) \<le> length S'"
  shows "bs_tracks S' st"
  using assms by (simp add: bs_tracks_def)

lemma snd_write_inv:
  assumes inv: "snd_inv S log s" and d: "length S + length d + 2 < 2 ^ 32"
  defines "w \<equiv> bs_write d (snd_stream s)"
  shows "snd_inv (S @ take (unat (fst w)) d) log (s\<lparr>snd_stream := snd w\<rparr>)"
proof (cases "bs_end_flag (snd_stream s)")
  case True
  then have "w = (0, snd_stream s)" by (simp add: w_def bs_write_ended)
  then show ?thesis using inv by simp
next
  case False
  let ?n = "unat (fst w)" and ?st = "snd_stream s"
  let ?S = "S @ take ?n d"
  have tr: "bs_tracks S ?st" and wr: "unat (bs_bytes_w ?st) = length S"
    using inv by (simp_all add: snd_inv_def snd_source_def)
  have tr': "bs_tracks (S @ d) ?st" by (rule bs_tracks_cong [OF tr]) (simp_all add: wr)
  have n: "?n \<le> length d" using False d by (simp add: w_def bs_write_count)
  note bs = bs_tracks_write [OF tr', of d, folded w_def]
  have new: "bs_tracks (S @ d) (snd w)" "unat (bs_bytes_w (snd w)) = length S + ?n"
    using bs d wr by simp_all
  have src: "snd_source ?S (s\<lparr>snd_stream := snd w\<rparr>)"
    unfolding snd_source_def using bs_tracks_cong [OF new(1), of ?S] new(2) n by simp
  have st: "snd_st s \<noteq> FIN_SENT" using inv False by (auto simp: snd_inv_def snd_pos_def)
  have r: "bs_bytes_r (snd w) = bs_bytes_r ?st" by (simp add: w_def)
  have "snd_pos ?S (s\<lparr>snd_stream := snd w\<rparr>)"
    using inv st r by (cases "snd_st s") (simp_all add: snd_inv_def snd_pos_def)
  moreover have "snd_pieces ?S (set log \<union> set (snd_segments_out s) \<union> set (snd_retransmission_queue s)) (s\<lparr>snd_stream := snd w\<rparr>)"
    using inv st seg_from_extend [of S "snd_isn s" _ "take ?n d"] by (auto simp: snd_inv_def snd_pieces_def)
  ultimately show ?thesis
    using inv src by (simp add: snd_inv_def snd_outstanding_def)
qed

subsection \<open>Histories\<close>

datatype snd_op =
    Snd_write bytes
  | Snd_end_input
  | Snd_fill_window
  | Snd_ack_received wrapping_int32 u16
  | Snd_tick u64
  | Snd_send_empty_segment
  | Snd_pop

text \<open>The state of a history: the bytes accepted, the segments taken from the queue, the sender.\<close>

type_synonym snd_history = "bytes \<times> tcp_segment list \<times> tcp_sender"

fun snd_step :: "snd_op \<Rightarrow> snd_history \<Rightarrow> snd_history result" where
  "snd_step (Snd_write d) (acc, log, s) =
     (let (n, st) = bs_write d (snd_stream s) in Inr (acc @ take (unat n) d, log, s\<lparr>snd_stream := st\<rparr>))"
| "snd_step Snd_end_input (acc, log, s) = Inr (acc, log, s\<lparr>snd_stream := bs_end_input (snd_stream s)\<rparr>)"
| "snd_step Snd_fill_window (acc, log, s) = bindE (snd_fill_window s) (\<lambda>s'. Inr (acc, log, s'))"
| "snd_step (Snd_ack_received ackno win) (acc, log, s) = Inr (acc, log, snd_ack_received ackno win s)"
| "snd_step (Snd_tick ms) (acc, log, s) = bindE (snd_tick ms s) (\<lambda>s'. Inr (acc, log, s'))"
| "snd_step Snd_send_empty_segment (acc, log, s) = Inr (acc, log, snd_send_empty_segment s)"
| "snd_step Snd_pop (acc, log, s) =
     (case snd_segments_out s of
        [] \<Rightarrow> Inr (acc, log, s)
      | seg # q \<Rightarrow> Inr (acc, log @ [seg], s\<lparr>snd_segments_out := q\<rparr>))"

fun snd_run :: "snd_op list \<Rightarrow> snd_history \<Rightarrow> snd_history result" where
  "snd_run [] st = Inr st"
| "snd_run (x # xs) st = bindE (snd_step x st) (snd_run xs)"

fun snd_offered :: "snd_op list \<Rightarrow> nat" where
  "snd_offered [] = 0"
| "snd_offered (Snd_write d # xs) = length d + snd_offered xs"
| "snd_offered (x # xs) = snd_offered xs"

lemma snd_end_inv:
  assumes "snd_inv S log s"
  shows "snd_inv S log (s\<lparr>snd_stream := bs_end_input (snd_stream s)\<rparr>)"
proof -
  have "snd_pos S (s\<lparr>snd_stream := bs_end_input (snd_stream s)\<rparr>)"
    using assms by (cases "snd_st s") (simp_all add: snd_inv_def snd_pos_def)
  then show ?thesis using assms by (simp add: snd_inv_def snd_source_def)
qed

lemma snd_empty_inv: "snd_inv S log s \<Longrightarrow> snd_inv S log (snd_send_empty_segment s)"
  unfolding snd_inv_def snd_send_empty_segment_def Let_def
  by (simp add: snd_pieces_def seg_from_def seg_bare_def seg_default_def th_default_def)

lemma snd_pop_inv:
  "snd_inv S log s \<Longrightarrow> snd_segments_out s = seg # q \<Longrightarrow> snd_inv S (log @ [seg]) (s\<lparr>snd_segments_out := q\<rparr>)"
  by (auto simp: snd_inv_def snd_pieces_def)

lemma snd_isn_frame [simp]:
  "snd_isn (snd_ack_received ackno win s) = snd_isn s"
  "snd_isn (snd_send_empty_segment s) = snd_isn s"
  by (simp_all add: snd_ack_received_eq snd_send_empty_segment_def Let_def)

lemma snd_retransmit_isn: "snd_retransmit s = Inr s' \<Longrightarrow> snd_isn s' = snd_isn s"
  by (cases "snd_retransmission_queue s") (auto simp: snd_retransmit_def Let_def)

lemma snd_tick_isn: "snd_tick ms s = Inr s' \<Longrightarrow> snd_isn s' = snd_isn s"
  by (auto simp: snd_tick_def Let_def dest: snd_retransmit_isn split: prod.splits if_splits)

lemma snd_step_ok:
  assumes inv: "snd_inv acc log s" and len: "length acc + snd_offered [x] + 2 < 2 ^ 32"
  shows "\<exists>acc' log' s'. snd_step x (acc, log, s) = Inr (acc', log', s') \<and> snd_inv acc' log' s' \<and>
    length acc' \<le> length acc + snd_offered [x] \<and> snd_isn s' = snd_isn s"
proof (cases x)
  case (Snd_write d)
  obtain n st where w: "bs_write d (snd_stream s) = (n, st)" by fastforce
  with snd_write_inv [OF inv, of d] len Snd_write show ?thesis by simp
next
  case Snd_pop
  with inv snd_pop_inv [OF inv] show ?thesis by (cases "snd_segments_out s") auto
next
  case Snd_fill_window
  with snd_fill_window_ok [OF inv] len show ?thesis by auto
next
  case (Snd_tick ms)
  with snd_tick_ok [OF inv, of ms] len snd_tick_isn [of ms s] show ?thesis by auto
qed (use inv len in \<open>auto simp: snd_end_inv snd_empty_inv snd_ack_received_inv\<close>)

lemma snd_run_ok:
  assumes "snd_inv acc log s" and "length acc + snd_offered ops + 2 < 2 ^ 32"
  shows "\<exists>acc' log' s'. snd_run ops (acc, log, s) = Inr (acc', log', s') \<and> snd_inv acc' log' s' \<and>
    length acc' \<le> length acc + snd_offered ops \<and> snd_isn s' = snd_isn s"
  using assms
proof (induction ops arbitrary: acc log s)
  case (Cons x ops)
  have split: "snd_offered (x # ops) = snd_offered [x] + snd_offered ops" by (cases x) simp_all
  from snd_step_ok [OF Cons.prems(1), of x] Cons.prems(2) obtain acc1 log1 s1 where
    1: "snd_step x (acc, log, s) = Inr (acc1, log1, s1)" "snd_inv acc1 log1 s1"
      "length acc1 \<le> length acc + snd_offered [x]" "snd_isn s1 = snd_isn s"
    unfolding split by fastforce
  with Cons.prems(2) have "length acc1 + snd_offered ops + 2 < 2 ^ 32" unfolding split by simp
  from Cons.IH [OF 1(2) this] 1 show ?case unfolding split by auto
qed simp

subsection \<open>Properties\<close>

text \<open>
  C6. Whatever the writer, the peer and the clock do, the sender never fails and transmits
  nothing but its stream. After every sequence of calls that offers fewer than 2^32 - 2 bytes,
  every segment handed out, waiting to be handed out or kept for retransmission is empty or a
  piece of the bytes accepted at the right sequence number; the retransmission queue is empty
  exactly when no sequence number is in flight; and the timer runs exactly when some are.
\<close>

theorem sender_transmits:
  assumes "snd_offered ops + 2 < 2 ^ 32"
  shows "\<exists>acc log s. snd_run ops ([], [], snd_init random capacity retx_timeout fixed_isn) = Inr (acc, log, s) \<and>
    (\<forall>seg \<in> set log \<union> set (snd_segments_out s) \<union> set (snd_retransmission_queue s).
       seg_from acc (snd_isn s) seg) \<and>
    acc = take (unat (bs_bytes_read (snd_stream s))) acc @ bs_content (snd_stream s) \<and>
    (snd_bytes_in_flight s = 0 \<longleftrightarrow> snd_retransmission_queue s = []) \<and>
    (tm_is_running (snd_timer s) \<longleftrightarrow> snd_bytes_in_flight s \<noteq> 0)"
proof -
  from snd_run_ok [OF snd_inv_init, of ops random capacity retx_timeout fixed_isn] assms obtain acc log s where
    run: "snd_run ops ([], [], snd_init random capacity retx_timeout fixed_isn) = Inr (acc, log, s)"
    and inv: "snd_inv acc log s"
    by auto
  have out: "snd_outstanding s" using inv by (simp add: snd_inv_def)
  have "acc = take (unat (bs_bytes_read (snd_stream s))) acc @ bs_content (snd_stream s)"
    using inv by (simp add: snd_inv_def snd_source_def bs_tracks_def bs_bytes_read_def)
  moreover have "tm_is_running (snd_timer s) \<longleftrightarrow> snd_bytes_in_flight s \<noteq> 0"
    using out snd_in_flight_0_iff [OF out] by (simp add: snd_outstanding_def tm_is_running_def)
  moreover have "\<forall>seg \<in> set log \<union> set (snd_segments_out s) \<union> set (snd_retransmission_queue s). seg_from acc (snd_isn s) seg"
    using inv by (simp add: snd_inv_def snd_pieces_def)
  ultimately show ?thesis using run snd_in_flight_0_iff [OF out] by blast
qed

theorem sender_transmits_witness:
  "\<exists>acc log s. snd_run [Snd_fill_window, Snd_write [1, 2, 3], Snd_ack_received (WrappingInt32 10) 2, Snd_fill_window,
      Snd_pop, Snd_tick 2000, Snd_end_input]
      ([], [], snd_init 0 4 1000 (Some (WrappingInt32 9))) = Inr (acc, log, s) \<and>
    (\<forall>seg \<in> set log \<union> set (snd_segments_out s) \<union> set (snd_retransmission_queue s).
       seg_from acc (snd_isn s) seg) \<and>
    acc = take (unat (bs_bytes_read (snd_stream s))) acc @ bs_content (snd_stream s) \<and>
    (snd_bytes_in_flight s = 0 \<longleftrightarrow> snd_retransmission_queue s = []) \<and>
    (tm_is_running (snd_timer s) \<longleftrightarrow> snd_bytes_in_flight s \<noteq> 0)"
  by (rule sender_transmits) simp

text \<open>
  C7. \<open>fill_window\<close> fills the window and does not overrun it. In every reachable state it
  returns; afterwards the window is full, or the FIN has been sent, or the SYN has been sent
  and there is nothing left to send and no end of the stream; and if the sequence numbers in
  flight fitted the window before, they fit it afterwards.
\<close>

theorem fill_window_fills:
  assumes "snd_offered ops + 2 < 2 ^ 32"
    and "snd_run ops ([], [], snd_init random capacity retx_timeout fixed_isn) = Inr (acc, log, s)"
  shows "\<exists>s'. snd_fill_window s = Inr s' \<and>
    (snd_bytes_in_flight s' = ucast (snd_window_size s') \<or> snd_st s' = FIN_SENT \<or>
     snd_st s' = SYN_SENT \<and> bs_buffer_empty (snd_stream s') \<and> \<not> bs_input_ended (snd_stream s')) \<and>
    (unat (snd_bytes_in_flight s) \<le> unat (snd_window_size s) \<longrightarrow>
     unat (snd_bytes_in_flight s') \<le> unat (snd_window_size s))"
proof -
  from snd_run_ok [OF snd_inv_init, of ops random capacity retx_timeout fixed_isn] assms
  have inv: "snd_inv acc log s" and len: "length acc + 2 < 2 ^ 32" by auto
  from snd_fill_window_ok [OF inv len] obtain s' where
    s': "snd_fill_window s = Inr s'" "snd_inv acc log s'" "snd_filled s'" "snd_window_size s' = snd_window_size s"
      "unat (snd_bytes_in_flight s) \<le> unat (snd_window_size s) \<longrightarrow>
       unat (snd_bytes_in_flight s') \<le> unat (snd_window_size s')"
    by blast
  have "bs_inv (snd_stream s')" using s'(2) by (simp add: snd_inv_def snd_source_def bs_tracks_def)
  then have "bs_content (snd_stream s') = [] \<longleftrightarrow> bs_buffer_empty (snd_stream s')"
    by (simp add: bs_content_empty_iff bs_buffer_empty_def)
  with s' show ?thesis by (auto simp: snd_filled_def snd_window_left_def bs_input_ended_def)
qed

theorem fill_window_fills_witness:
  "\<exists>s s'. snd_run [Snd_write [1, 2, 3]] ([], [], snd_init 0 4 1000 None) = Inr ([1, 2, 3], [], s) \<and>
    snd_fill_window s = Inr s' \<and>
    (snd_bytes_in_flight s' = ucast (snd_window_size s') \<or> snd_st s' = FIN_SENT \<or>
     snd_st s' = SYN_SENT \<and> bs_buffer_empty (snd_stream s') \<and> \<not> bs_input_ended (snd_stream s'))"
proof -
  obtain s where s: "snd_run [Snd_write [1, 2, 3]] ([], [], snd_init 0 4 1000 None) = Inr ([1, 2, 3], [], s)"
    by (simp add: snd_init_def bs_init_def bs_write_def bs_remaining_capacity_def sz_def Let_def)
  show ?thesis using s fill_window_fills [OF _ s] by (simp del: snd_run.simps) blast
qed

text \<open>
  C8. The oldest outstanding segment is retransmitted when the timer expires. In every
  reachable state with sequence numbers in flight, a tick that is at least as long as the time
  left on the timer appends to the outgoing queue the one segment that contains the first
  unacknowledged sequence number, doubles the timeout unless the peer's window is zero,
  restarts the timer with it, and counts the retransmission.
\<close>

theorem tick_retransmits_oldest:
  assumes "snd_offered ops + 2 < 2 ^ 32"
    and "snd_run ops ([], [], snd_init random capacity retx_timeout fixed_isn) = Inr (acc, log, s)"
    and "snd_bytes_in_flight s \<noteq> 0" and "tm_rto (snd_timer s) \<le> ms"
  shows "\<exists>seg s'. snd_tick ms s = Inr s' \<and> snd_segments_out s' = snd_segments_out s @ [seg] \<and>
    seg \<in> set (snd_retransmission_queue s) \<and>
    unat (unwrap (th_seqno (seg_header seg)) (snd_isn s) 0) \<le> unat (unwrap (snd_ack s) (snd_isn s) 0) \<and>
    unat (unwrap (snd_ack s) (snd_isn s) 0)
      < unat (unwrap (th_seqno (seg_header seg)) (snd_isn s) 0) + unat (length_in_sequence_space seg) \<and>
    snd_rto s' = (if snd_window_probe s then snd_rto s else snd_rto s * 2) \<and>
    snd_timer s' = \<lparr>tm_rto = ucast (snd_rto s'), tm_running = True\<rparr> \<and>
    snd_consecutive_retransmissions s' =
      (if snd_last_retrans_seqno s = Some (th_seqno (seg_header seg))
       then snd_consecutive_retransmissions s + 1 else 1)"
proof -
  from snd_run_ok [OF snd_inv_init, of ops random capacity retx_timeout fixed_isn] assms(1,2)
  have inv: "snd_inv acc log s" and len: "length acc + 2 < 2 ^ 32" by auto
  then have out: "snd_outstanding s" by (simp add: snd_inv_def)
  with assms(3) have "tm_running (snd_timer s)"
    using snd_in_flight_0_iff [OF out] by (simp add: snd_outstanding_def)
  from snd_tick_expired [OF inv len this assms(4)] obtain seg s' where
    s': "snd_tick ms s = Inr s'" "snd_segments_out s' = snd_segments_out s @ [seg]"
      "seg \<in> set (snd_retransmission_queue s)"
      "rel_seq (th_seqno (seg_header seg)) (snd_isn s) \<le> rel_seq (snd_ack s) (snd_isn s)"
      "rel_seq (snd_ack s) (snd_isn s) < rel_seq (th_seqno (seg_header seg)) (snd_isn s) + seglen seg"
      "snd_rto s' = (if snd_window_probe s then snd_rto s else snd_rto s * 2)"
      "snd_timer s' = \<lparr>tm_rto = ucast (snd_rto s'), tm_running = True\<rparr>"
      "snd_consecutive_retran s' =
        (if snd_last_retrans_seqno s = Some (th_seqno (seg_header seg)) then snd_consecutive_retran s + 1 else 1)"
    by blast
  have "seg_from acc (snd_isn s) seg" using inv s'(3) by (simp add: snd_inv_def snd_pieces_def)
  from seg_from_seglen [OF this] len have "seglen seg < 2 ^ 64" by simp
  with s' show ?thesis
    unfolding unwrap_checkpoint_0 snd_consecutive_retransmissions_def
    by (intro exI [of _ seg] exI [of _ s']) (simp add: unat_length_in_sequence_space)
qed

theorem tick_retransmits_oldest_witness:
  "\<exists>acc log s s' seg.
    snd_run [Snd_fill_window] ([], [], snd_init 0 4 1000 (Some (WrappingInt32 9))) = Inr (acc, log, s) \<and>
    snd_bytes_in_flight s \<noteq> 0 \<and> tm_rto (snd_timer s) \<le> 1000 \<and>
    snd_tick 1000 s = Inr s' \<and> snd_segments_out s' = snd_segments_out s @ [seg] \<and>
    seg \<in> set (snd_retransmission_queue s) \<and>
    snd_rto s' = (if snd_window_probe s then snd_rto s else snd_rto s * 2)"
proof -
  let ?s = "snd_init 0 4 1000 (Some (WrappingInt32 9))"
  have "case snd_run [Snd_fill_window] ([], [], ?s) of Inl _ \<Rightarrow> False
    | Inr (acc, log, s) \<Rightarrow> snd_bytes_in_flight s \<noteq> 0 \<and> tm_rto (snd_timer s) \<le> 1000"
    by code_simp
  then obtain acc log s where s: "snd_run [Snd_fill_window] ([], [], ?s) = Inr (acc, log, s)"
    "snd_bytes_in_flight s \<noteq> 0" "tm_rto (snd_timer s) \<le> 1000"
    by (auto split: sum.splits prod.splits)
  have off: "snd_offered [Snd_fill_window] + 2 < 2 ^ 32" by simp
  from tick_retransmits_oldest [OF off s] s show ?thesis by blast
qed

text \<open>
  C9. An acknowledgment of everything sent empties the sender: in every reachable state with
  sequence numbers in flight, after the acknowledgment number of the next sequence number
  nothing is outstanding, the timer is stopped, and the timeout and the count of consecutive
  retransmissions are reset. An acknowledgment number beyond what was sent, or not beyond
  the last one, changes the window and nothing else.
\<close>

theorem ack_received_spec:
  assumes "snd_offered ops + 2 < 2 ^ 32"
    and "snd_run ops ([], [], snd_init random capacity retx_timeout fixed_isn) = Inr (acc, log, s)"
  shows "let k = unat (unwrap ackno (snd_isn s) 0); s' = snd_ack_received ackno window_size s in
    (snd_bytes_in_flight s \<noteq> 0 \<and> ackno = snd_next_seqno_relative s \<longrightarrow>
      snd_retransmission_queue s' = [] \<and> snd_bytes_in_flight s' = 0 \<and> \<not> tm_is_running (snd_timer s') \<and>
      snd_rto s' = snd_initial_rto s \<and> snd_consecutive_retransmissions s' = 0) \<and>
    (k \<le> unat (unwrap (snd_ack s) (snd_isn s) 0) \<or> unat (snd_next_seqno_absolute s) < k \<longrightarrow>
      s' = s\<lparr>snd_window_size := if window_size = 0 then 1 else window_size, snd_window_probe := (window_size = 0)\<rparr>)"
proof -
  define k where "k = unat (unwrap ackno (snd_isn s) 0)"
  define s' where "s' = snd_ack_received ackno window_size s"
  from snd_run_ok [OF snd_inv_init, of ops random capacity retx_timeout fixed_isn] assms(1,2)
  have inv: "snd_inv acc log s" and len: "length acc + 2 < 2 ^ 32" by auto
  have inv': "snd_inv acc log s'" unfolding s'_def by (rule snd_ack_received_inv [OF inv len])
  then have out: "snd_outstanding s" and out': "snd_outstanding s'" using inv by (simp_all add: snd_inv_def)
  have next': "unat (snd_next_seqno s) < 2 ^ 32" using snd_next_le [OF inv] len by simp
  have "snd_retransmission_queue s' = [] \<and> snd_bytes_in_flight s' = 0 \<and> \<not> tm_is_running (snd_timer s') \<and>
      snd_rto s' = snd_initial_rto s \<and> snd_consecutive_retransmissions s' = 0"
    if "snd_bytes_in_flight s \<noteq> 0" and "ackno = snd_next_seqno_relative s"
  proof -
    have k: "rel_seq ackno (snd_isn s) = unat (snd_next_seqno s)"
      using that(2) next' by (simp add: snd_next_seqno_relative_def wrap_rel_seq)
    have "unat (snd_bytes_in_flight s) \<noteq> 0" using that(1) by (simp add: unat_eq_zero)
    then have acc: "snd_acceptable ackno s"
      using k by (simp add: snd_acceptable_def snd_bytes_in_flight_eq [OF out])
    then have s': "snd_ack s' = ackno" "snd_isn s' = snd_isn s" "snd_next_seqno s' = snd_next_seqno s"
      "snd_rto s' = snd_initial_rto s" "snd_consecutive_retran s' = 0"
      by (simp_all add: s'_def snd_ack_received_eq snd_acceptable_def Let_def)
    then have "unat (snd_bytes_in_flight s') = 0" using k by (simp add: snd_bytes_in_flight_eq [OF out'])
    with s' out' snd_in_flight_0_iff [OF out'] show ?thesis
      by (simp add: unat_eq_zero snd_outstanding_def tm_is_running_def snd_consecutive_retransmissions_def)
  qed
  moreover have "s' = s\<lparr>snd_window_size := if window_size = 0 then 1 else window_size, snd_window_probe := (window_size = 0)\<rparr>"
    if "k \<le> unat (unwrap (snd_ack s) (snd_isn s) 0) \<or> unat (snd_next_seqno_absolute s) < k"
    unfolding s'_def by (rule snd_ack_received_rejects)
      (use that in \<open>auto simp: k_def snd_acceptable_def unwrap_checkpoint_0 snd_next_seqno_absolute_def\<close>)
  ultimately show ?thesis unfolding k_def s'_def Let_def by blast
qed

theorem ack_received_spec_witness:
  "\<exists>acc log s. snd_run [Snd_fill_window] ([], [], snd_init 0 4 1000 (Some (WrappingInt32 9))) = Inr (acc, log, s) \<and>
    snd_bytes_in_flight s \<noteq> 0 \<and> WrappingInt32 10 = snd_next_seqno_relative s \<and>
    snd_retransmission_queue (snd_ack_received (WrappingInt32 10) 7 s) = [] \<and>
    \<not> tm_is_running (snd_timer (snd_ack_received (WrappingInt32 10) 7 s))"
proof -
  let ?s = "snd_init 0 4 1000 (Some (WrappingInt32 9))"
  have "case snd_run [Snd_fill_window] ([], [], ?s) of Inl _ \<Rightarrow> False
    | Inr (acc, log, s) \<Rightarrow> snd_bytes_in_flight s \<noteq> 0 \<and> WrappingInt32 10 = snd_next_seqno_relative s"
    by code_simp
  then obtain acc log s where s: "snd_run [Snd_fill_window] ([], [], ?s) = Inr (acc, log, s)"
    "snd_bytes_in_flight s \<noteq> 0" "WrappingInt32 10 = snd_next_seqno_relative s"
    by (auto split: sum.splits prod.splits)
  have off: "snd_offered [Snd_fill_window] + 2 < 2 ^ 32" by simp
  from ack_received_spec [OF off s(1), of "WrappingInt32 10" 7] s show ?thesis unfolding Let_def by blast
qed

text \<open>
  C24. When the peer shrinks its window below what is in flight, the subtraction in
  \<open>fill_window\<close> wraps and the sender ignores the window. In every reachable state in which more
  sequence numbers are in flight than the window allows and the FIN has not been sent, one call
  sends everything that is left in the stream, and the FIN if the stream has ended: what is in
  flight grows by all of it.
\<close>

theorem shrunk_window_overrun:
  assumes "snd_offered ops + 2 < 2 ^ 32"
    and "snd_run ops ([], [], snd_init random capacity retx_timeout fixed_isn) = Inr (acc, log, s)"
    and "unat (snd_window_size s) < unat (snd_bytes_in_flight s)" and "snd_st s \<noteq> FIN_SENT"
  shows "\<exists>s'. snd_fill_window s = Inr s' \<and> snd_window_size s' = snd_window_size s \<and> bs_buffer_empty (snd_stream s') \<and>
    unat (snd_bytes_in_flight s') = unat (snd_bytes_in_flight s) + unat (bs_buffer_size (snd_stream s)) +
      (if bs_input_ended (snd_stream s) then 1 else 0)"
proof -
  from snd_run_ok [OF snd_inv_init, of ops random capacity retx_timeout fixed_isn] assms(1,2)
  have inv: "snd_inv acc log s" and len: "length acc + 2 < 2 ^ 32" by auto
  from snd_fill_window_ok [OF inv len] obtain s' where
    s': "snd_fill_window s = Inr s'" "snd_inv acc log s'" "snd_filled s'" "snd_window_size s' = snd_window_size s"
      "snd_isn s' = snd_isn s" "snd_ack s' = snd_ack s" "bs_end_flag (snd_stream s') = bs_end_flag (snd_stream s)"
      "unat (snd_next_seqno s) \<le> unat (snd_next_seqno s')"
    by blast
  have out: "snd_outstanding s" "snd_outstanding s'" using inv s'(2) by (simp_all add: snd_inv_def)
  note flight = out [THEN snd_bytes_in_flight_eq]
  have "snd_st s \<noteq> INIT"
    using assms(3) flight(1) inv by (auto simp: snd_inv_def snd_pos_def)
  then have sent: "unat (snd_next_seqno s) = 1 + unat (bs_bytes_r (snd_stream s))"
    using assms(4) inv by (cases "snd_st s") (simp_all add: snd_inv_def snd_pos_def)
  have "snd_window_left s' \<noteq> 0"
  proof
    assume "snd_window_left s' = 0"
    then have "snd_bytes_in_flight s' = ucast (snd_window_size s)" by (simp add: snd_window_left_def s'(4))
    then have "unat (snd_bytes_in_flight s') = unat (snd_window_size s)"
      using unat_u16_lt [of "snd_window_size s"] by (simp add: unsigned_ucast_eq take_bit_nat_eq_self)
    with flight s'(5,6,8) assms(3) show False by simp
  qed
  with s'(3) have fin: "snd_st s' = FIN_SENT \<or> snd_st s' = SYN_SENT \<and> bs_content (snd_stream s') = [] \<and> \<not> bs_end_flag (snd_stream s')"
    by (simp add: snd_filled_def)
  have src: "snd_source acc s" "snd_source acc s'" using inv s'(2) by (simp_all add: snd_inv_def)
  note unread = src [THEN snd_unread]
  from fin have "unat (bs_bytes_r (snd_stream s')) = length acc \<and>
      unat (snd_next_seqno s') = 1 + length acc + (if bs_end_flag (snd_stream s) then 1 else 0)"
    using s'(2,7) unread(2) by (auto simp: snd_inv_def snd_pos_def)
  moreover have "rel_seq (snd_ack s) (snd_isn s) \<le> unat (snd_next_seqno s)"
    using out(1) by (auto simp: snd_outstanding_def)
  ultimately have "unat (snd_bytes_in_flight s') = unat (snd_bytes_in_flight s) + unat (bs_buffer_size (snd_stream s)) +
      (if bs_input_ended (snd_stream s) then 1 else 0)"
    and "bs_buffer_empty (snd_stream s')"
    using flight s'(5,6) sent unread by (auto simp: bs_input_ended_def bs_buffer_empty_def unat_eq_zero bs_buffer_size_def)
  with s'(1,4) show ?thesis by blast
qed

theorem shrunk_window_overrun_witness:
  "\<exists>acc log s s'. snd_run [Snd_fill_window, Snd_ack_received (WrappingInt32 1) 3, Snd_write [1, 2, 3, 4, 5], Snd_fill_window,
      Snd_ack_received (WrappingInt32 2) 1] ([], [], snd_init 0 10 1000 (Some (WrappingInt32 0))) = Inr (acc, log, s) \<and>
    snd_fill_window s = Inr s' \<and> snd_window_size s' = 1 \<and> bs_buffer_empty (snd_stream s') \<and> unat (snd_bytes_in_flight s') = 4"
proof -
  let ?ops = "[Snd_fill_window, Snd_ack_received (WrappingInt32 1) 3, Snd_write [1, 2, 3, 4, 5], Snd_fill_window,
      Snd_ack_received (WrappingInt32 2) 1]" and ?s = "snd_init 0 10 1000 (Some (WrappingInt32 0))"
  have "case snd_run ?ops ([], [], ?s) of Inl _ \<Rightarrow> False
    | Inr (acc, log, s) \<Rightarrow> snd_window_size s = 1 \<and> unat (snd_bytes_in_flight s) = 2 \<and> snd_st s \<noteq> FIN_SENT \<and>
        unat (bs_buffer_size (snd_stream s)) = 2 \<and> \<not> bs_input_ended (snd_stream s)"
    by code_simp
  then obtain acc log s where s: "snd_run ?ops ([], [], ?s) = Inr (acc, log, s)" "snd_window_size s = 1"
    "unat (snd_bytes_in_flight s) = 2" "snd_st s \<noteq> FIN_SENT" "unat (bs_buffer_size (snd_stream s)) = 2"
    "\<not> bs_input_ended (snd_stream s)"
    by (auto split: sum.splits prod.splits)
  have "snd_offered ?ops + 2 < 2 ^ 32" "unat (snd_window_size s) < unat (snd_bytes_in_flight s)" using s by simp_all
  from shrunk_window_overrun [OF this(1) s(1) this(2) s(4)] s show ?thesis by (auto simp del: snd_run.simps)
qed

end
