(* ===== verification/Connections.thy ===== *)
theory Connections
  imports TCP_Connection Sending
begin

text \<open>
  Correctness of TCP connections. \<open>tc_run\<close> executes the calls that the owner of a connection
  makes, with the bytes accepted from the writer, the segments taken from the outgoing queue
  and the bytes delivered to the reader. The invariant has a half for each direction:
  \<open>tc_snd_ok\<close> holds whatever the peer sends, \<open>tc_rcv_ok\<close> as long as what arrives are segments of
  one stream. \<open>joint\<close> is the set of histories of two connections over a network that loses,
  duplicates and reorders segments; there the one half provides what the other relies on.
\<close>

subsection \<open>Histories\<close>

datatype tc_op =
    Tc_connect
  | Tc_write bytes
  | Tc_end_input_stream
  | Tc_segment_received tcp_segment
  | Tc_tick u64
  | Tc_read u64
  | Tc_pop

type_synonym tc_history = "bytes \<times> tcp_segment list \<times> bytes \<times> tcp_connection"

fun tc_step :: "iteration \<Rightarrow> tc_op \<Rightarrow> tc_history \<Rightarrow> tc_history result" where
  "tc_step iter Tc_connect (acc, log, out, c) = bindE (tc_connect c) (\<lambda>c. Inr (acc, log, out, c))"
| "tc_step iter (Tc_write d) (acc, log, out, c) =
     bindE (tc_write d c) (\<lambda>(n, c). Inr (acc @ take (unat n) d, log, out, c))"
| "tc_step iter Tc_end_input_stream (acc, log, out, c) = bindE (tc_end_input_stream c) (\<lambda>c. Inr (acc, log, out, c))"
| "tc_step iter (Tc_segment_received seg) (acc, log, out, c) =
     bindE (tc_segment_received iter seg c) (\<lambda>c. Inr (acc, log, out, c))"
| "tc_step iter (Tc_tick ms) (acc, log, out, c) = bindE (tc_tick ms c) (\<lambda>c. Inr (acc, log, out, c))"
| "tc_step iter (Tc_read len) (acc, log, out, c) =
     bindE (rcv_step iter (Rcv_read len) (out, tc_receiver c)) (\<lambda>(out, r). Inr (acc, log, out, c\<lparr>tc_receiver := r\<rparr>))"
| "tc_step iter Tc_pop (acc, log, out, c) =
     (case tc_segments_out c of
        [] \<Rightarrow> Inr (acc, log, out, c)
      | seg # q \<Rightarrow> Inr (acc, log @ [seg], out, c\<lparr>tc_segments_out := q\<rparr>))"

fun tc_run :: "iteration \<Rightarrow> tc_op list \<Rightarrow> tc_history \<Rightarrow> tc_history result" where
  "tc_run iter [] st = Inr st"
| "tc_run iter (x # xs) st = bindE (tc_step iter x st) (tc_run iter xs)"

fun tc_offered :: "tc_op list \<Rightarrow> nat" where
  "tc_offered [] = 0"
| "tc_offered (Tc_write d # xs) = length d + tc_offered xs"
| "tc_offered (x # xs) = tc_offered xs"

lemma tc_offered_append: "tc_offered (xs @ ys) = tc_offered xs + tc_offered ys"
  by (induction xs rule: tc_offered.induct) simp_all

lemma tc_run_append: "tc_run iter (xs @ ys) st = bindE (tc_run iter xs st) (tc_run iter ys)"
  by (induction xs arbitrary: st) (auto simp: bindE_def split: sum.split)

subsection \<open>The sending half\<close>

lemma tc_stamp_simps [simp]:
  "th_seqno (seg_header (tc_stamp r seg)) = th_seqno (seg_header seg)"
  "th_syn (seg_header (tc_stamp r seg)) = th_syn (seg_header seg)"
  "th_fin (seg_header (tc_stamp r seg)) = th_fin (seg_header seg)"
  "th_rst (seg_header (tc_stamp r seg)) = th_rst (seg_header seg)"
  "seg_payload (tc_stamp r seg) = seg_payload seg"
  by (simp_all add: tc_stamp_def split: option.split)

lemma seg_from_stamp [simp]: "seg_from S isn (tc_stamp r seg) = seg_from S isn seg"
  by (simp add: seg_from_def seg_bare_def Let_def)

definition tc_snd_ok :: "bytes \<Rightarrow> tcp_segment list \<Rightarrow> tcp_connection \<Rightarrow> bool" where
  "tc_snd_ok acc log c \<longleftrightarrow>
     snd_inv acc (log @ tc_segments_out c) (tc_sender c) \<and> list_all seg_bare (snd_segments_out (tc_sender c))"

lemma tc_snd_ok_init: "tc_snd_ok [] [] (tc_init random cfg)"
  using snd_inv_init by (simp add: tc_snd_ok_def tc_init_def) (simp add: snd_init_def Let_def)

lemma tc_send_segment_snd:
  assumes "snd_inv acc (log @ tc_segments_out c) (tc_sender c)"
  shows "tc_snd_ok acc log (tc_send_segment c)"
  using assms unfolding tc_snd_ok_def tc_send_segment_def snd_inv_def
  by (auto simp: snd_pieces_def)

lemma tc_send_segment_frame [simp]:
  "tc_receiver (tc_send_segment c) = tc_receiver c" "tc_cfg (tc_send_segment c) = tc_cfg c"
  "snd_isn (tc_sender (tc_send_segment c)) = snd_isn (tc_sender c)"
  "tc_close (tc_send_segment c) = tc_close c" "snd_segments_out (tc_sender (tc_send_segment c)) = []"
  by (simp_all add: tc_send_segment_def)

lemma snd_inv_error: "snd_inv S log s \<Longrightarrow> snd_inv S log (s\<lparr>snd_stream := bs_set_error (snd_stream s)\<rparr>)"
proof -
  assume inv: "snd_inv S log s"
  then have "snd_pos S (s\<lparr>snd_stream := bs_set_error (snd_stream s)\<rparr>)"
    by (cases "snd_st s") (simp_all add: snd_inv_def snd_pos_def)
  with inv show ?thesis by (simp add: snd_inv_def snd_source_def)
qed

lemma tc_set_errors_snd: "tc_snd_ok acc log c \<Longrightarrow> tc_snd_ok acc log (tc_set_errors c)"
  by (simp add: tc_snd_ok_def tc_set_errors_def snd_inv_error)

lemma seg_bare_empty: "seg_bare (seg_default\<lparr>seg_header := th_default\<lparr>th_seqno := n\<rparr>\<rparr>)"
  by (simp add: seg_bare_def seg_default_def th_default_def)

lemma tc_send_rst_snd:
  assumes "tc_snd_ok acc log c"
  shows "tc_snd_ok acc log (tc_send_rst c)"
proof -
  let ?s = "snd_send_empty_segment (tc_sender c)"
  have inv: "snd_inv acc (log @ tc_segments_out c) ?s" using assms snd_empty_inv by (simp add: tc_snd_ok_def)
  have bare: "list_all seg_bare (snd_segments_out ?s)"
    using assms by (simp add: tc_snd_ok_def snd_send_empty_segment_def Let_def seg_bare_empty)
  obtain seg q where q: "snd_segments_out ?s = seg # q"
    by (cases "snd_segments_out ?s") (auto simp: snd_send_empty_segment_def Let_def)
  have moved: "seg_bare (seg_moved_from seg)" "seg_bare (seg\<lparr>seg_header := (seg_header seg)\<lparr>th_rst := True\<rparr>\<rparr>)"
    using bare q by (simp_all add: seg_bare_def seg_moved_from_def buffer_str_def)
  have from_bare: "seg_from acc isn seg' \<and> \<not> th_fin (seg_header seg')" if "seg_bare seg'" for seg' isn
    using that by (simp add: seg_from_def seg_bare_def)
  have "tc_snd_ok acc log (c\<lparr>tc_sender := ?s\<lparr>snd_segments_out := seg_moved_from seg # q\<rparr>,
      tc_segments_out := [seg\<lparr>seg_header := (seg_header seg)\<lparr>th_rst := True\<rparr>\<rparr>]\<rparr>)"
    using inv bare q moved from_bare [OF moved(1)] from_bare [OF moved(2)]
    unfolding tc_snd_ok_def snd_inv_def by (auto simp: snd_pieces_def)
  then have "tc_snd_ok acc log (tc_set_errors (c\<lparr>tc_sender := ?s\<lparr>snd_segments_out := seg_moved_from seg # q\<rparr>,
      tc_segments_out := [seg\<lparr>seg_header := (seg_header seg)\<lparr>th_rst := True\<rparr>\<rparr>]\<rparr>))"
    by (rule tc_set_errors_snd)
  then show ?thesis by (simp add: tc_send_rst_def q Let_def tc_snd_ok_def)
qed

lemma tc_fill_and_send_ok:
  assumes "snd_inv acc (log @ tc_segments_out c) (tc_sender c)" and "length acc + 2 < 2 ^ 32"
  shows "\<exists>c'. tc_fill_and_send c = Inr c' \<and> tc_snd_ok acc log c' \<and> tc_receiver c' = tc_receiver c \<and>
    snd_isn (tc_sender c') = snd_isn (tc_sender c)"
proof -
  from snd_fill_window_ok [OF assms] obtain s where s: "snd_fill_window (tc_sender c) = Inr s"
    "snd_inv acc (log @ tc_segments_out c) s" "snd_isn s = snd_isn (tc_sender c)"
    by blast
  with tc_send_segment_snd [of acc log "c\<lparr>tc_sender := s\<rparr>"] show ?thesis by (simp add: tc_fill_and_send_def)
qed

lemma tc_reply_ok:
  assumes inv: "snd_inv acc (log @ tc_segments_out c) (tc_sender c)" and acc: "length acc + 2 < 2 ^ 32"
  shows "\<exists>c'. tc_reply seg c = Inr c' \<and> tc_snd_ok acc log c' \<and> tc_receiver c' = tc_receiver c \<and>
    snd_isn (tc_sender c') = snd_isn (tc_sender c)"
proof -
  let ?fill = "if length_in_sequence_space seg \<noteq> 0 then
              bindE (snd_fill_window (tc_sender c)) (\<lambda>s.
                Inr (c\<lparr>tc_sender := if snd_segments_out s = [] then snd_send_empty_segment s else s\<rparr>))
            else Inr c"
  from snd_fill_window_ok [OF assms] obtain s where s: "snd_fill_window (tc_sender c) = Inr s"
    "snd_inv acc (log @ tc_segments_out c) s" "snd_isn s = snd_isn (tc_sender c)"
    by blast
  then obtain c1 where c1: "?fill = Inr c1" "snd_inv acc (log @ tc_segments_out c1) (tc_sender c1)"
    "tc_receiver c1 = tc_receiver c" "snd_isn (tc_sender c1) = snd_isn (tc_sender c)"
    using inv by (cases "length_in_sequence_space seg = 0"; cases "snd_segments_out s = []")
      (simp_all add: snd_empty_inv)
  define c2 where "c2 = (case rcv_ackno (tc_receiver c1) of None \<Rightarrow> c1
      | Some ackno \<Rightarrow> if length_in_sequence_space seg = 0 \<and> wi_eq (th_seqno (seg_header seg)) (wi_minus ackno 1)
                     then c1\<lparr>tc_sender := snd_send_empty_segment (tc_sender c1)\<rparr> else c1)"
  have c2: "snd_inv acc (log @ tc_segments_out c2) (tc_sender c2)" "tc_receiver c2 = tc_receiver c"
    "snd_isn (tc_sender c2) = snd_isn (tc_sender c)"
    using c1 by (simp_all add: c2_def snd_empty_inv split: option.split)
  have "tc_reply seg c = Inr (tc_send_segment c2)"
    unfolding tc_reply_def c1(1) by (simp add: c2_def Let_def)
  with tc_send_segment_snd [OF c2(1)] c2(2,3) show ?thesis by simp
qed

lemma tc_note_flags_frame:
  "tc_snd_ok acc log c \<Longrightarrow> tc_snd_ok acc log (tc_note_flags seg c)"
  "snd_isn (tc_sender (tc_note_flags seg c)) = snd_isn (tc_sender c)"
  "tc_receiver (tc_note_flags seg c) =
     (if th_rst (seg_header seg) then tc_receiver (tc_set_errors c) else tc_receiver c)"
  using tc_set_errors_snd [of acc log c]
  by (simp_all add: tc_note_flags_def Let_def tc_snd_ok_def tc_set_errors_def)

text \<open>What the receiver makes of a segment that the connection gets.\<close>

definition tc_receive :: "iteration \<Rightarrow> tcp_segment \<Rightarrow> tcp_connection \<Rightarrow> tcp_receiver result" where
  "tc_receive iter seg c =
     (let c = tc_note_flags seg c in
      if tc_check_segment_in_window seg c then rcv_segment_received iter seg (tc_receiver c) else Inr (tc_receiver c))"

lemma tc_segment_received_ok:
  assumes ok: "tc_snd_ok acc log c" and acc: "length acc + 2 < 2 ^ 32"
  shows "case tc_receive iter seg c of
      Inl e \<Rightarrow> tc_segment_received iter seg c = Inl e
    | Inr r \<Rightarrow> \<exists>c'. tc_segment_received iter seg c = Inr c' \<and> tc_snd_ok acc log c' \<and> tc_receiver c' = r \<and>
        snd_isn (tc_sender c') = snd_isn (tc_sender c)"
proof -
  let ?c = "tc_note_flags seg c"
  let ?ack = "\<lambda>c. if th_ack (seg_header seg)
     then c\<lparr>tc_sender := snd_ack_received (th_ackno (seg_header seg)) (th_win (seg_header seg)) (tc_sender c)\<rparr> else c"
  have eq: "tc_segment_received iter seg c =
      bindE (tc_receive iter seg c) (\<lambda>r. tc_reply seg (?ack (?c\<lparr>tc_receiver := r\<rparr>)))"
    by (simp add: tc_segment_received_def tc_receive_def Let_def bindE_def split: sum.split)
  show ?thesis
  proof (cases "tc_receive iter seg c")
    case (Inr r)
    let ?d = "?ack (?c\<lparr>tc_receiver := r\<rparr>)"
    have "snd_inv acc (log @ tc_segments_out ?d) (tc_sender ?d)"
      using tc_note_flags_frame(1) [OF ok] snd_ack_received_inv [OF _ acc] by (simp add: tc_snd_ok_def)
    from tc_reply_ok [OF this acc, of seg] show ?thesis
      using Inr eq tc_note_flags_frame(2) [of seg c] by auto
  qed (use eq in simp)
qed

lemma tc_try_close_frame [simp]:
  "tc_sender (tc_try_close c) = tc_sender c" "tc_receiver (tc_try_close c) = tc_receiver c"
  "tc_segments_out (tc_try_close c) = tc_segments_out c" "tc_snd_ok acc log (tc_try_close c) = tc_snd_ok acc log c"
  by (simp_all add: tc_try_close_def Let_def tc_snd_ok_def)

text \<open>A tick leaves the receiver alone, or marks its stream as failed when it gives up.\<close>

lemma tc_tick_ok:
  assumes ok: "tc_snd_ok acc log c" and acc: "length acc + 2 < 2 ^ 32"
  shows "\<exists>c'. tc_tick ms c = Inr c' \<and> tc_snd_ok acc log c' \<and>
    (tc_receiver c' = tc_receiver c \<or> tc_receiver c' = tc_receiver (tc_set_errors c)) \<and>
    snd_isn (tc_sender c') = snd_isn (tc_sender c)"
proof -
  let ?c = "c\<lparr>tc_ticks := tc_ticks c + ms\<rparr>"
  let ?fill = "if \<not> bs_buffer_empty (snd_stream (tc_sender ?c)) \<or> bs_eof (snd_stream (tc_sender ?c))
             then tc_fill_and_send ?c else Inr ?c"
  have ok0: "tc_snd_ok acc log ?c" using ok by (simp add: tc_snd_ok_def)
  then have "snd_inv acc (log @ tc_segments_out ?c) (tc_sender ?c)" by (simp add: tc_snd_ok_def)
  from tc_fill_and_send_ok [OF this acc] ok0 obtain c1 where c1: "?fill = Inr c1" "tc_snd_ok acc log c1"
    "tc_receiver c1 = tc_receiver c" "snd_isn (tc_sender c1) = snd_isn (tc_sender c)"
    by (cases "\<not> bs_buffer_empty (snd_stream (tc_sender ?c)) \<or> bs_eof (snd_stream (tc_sender ?c))") auto
  then have "snd_inv acc (log @ tc_segments_out c1) (tc_sender c1)" by (simp add: tc_snd_ok_def)
  from snd_tick_ok [OF this acc, of ms] obtain s where s: "snd_tick ms (tc_sender c1) = Inr s"
    "snd_inv acc (log @ tc_segments_out c1) s"
    by blast
  have isn: "snd_isn s = snd_isn (tc_sender c1)" by (rule snd_tick_isn [OF s(1)])
  let ?d = "c1\<lparr>tc_sender := s\<rparr>"
  define c2 where "c2 = (if snd_segments_out s \<noteq> [] then tc_send_segment ?d else ?d)"
  have c2: "tc_snd_ok acc log c2" "tc_receiver c2 = tc_receiver c" "snd_isn (tc_sender c2) = snd_isn (tc_sender c)"
    using tc_send_segment_snd [of acc log ?d] s(2) c1(3,4) isn by (simp_all add: c2_def tc_snd_ok_def)
  define c3 where "c3 = (if snd_consecutive_retransmissions (tc_sender c2) > MAX_RETX_ATTEMPTS then tc_send_rst c2 else c2)"
  have "tc_snd_ok acc log c3" using tc_send_rst_snd [OF c2(1)] c2(1) by (simp add: c3_def)
  moreover have "tc_receiver c3 = tc_receiver c \<or> tc_receiver c3 = tc_receiver (tc_set_errors c)"
    "snd_isn (tc_sender c3) = snd_isn (tc_sender c)"
    using c2(2,3) by (simp_all add: c3_def tc_send_rst_def Let_def tc_set_errors_def)
  moreover have "tc_tick ms c = Inr (tc_try_close c3)"
    unfolding tc_tick_def Let_def c1(1) by (simp add: s(1) c3_def c2_def)
  ultimately show ?thesis by auto
qed

lemma tc_write_ok:
  assumes ok: "tc_snd_ok acc log c" and len: "length acc + length d + 2 < 2 ^ 32"
  shows "\<exists>n c'. tc_write d c = Inr (n, c') \<and> tc_snd_ok (acc @ take (unat n) d) log c' \<and>
    tc_receiver c' = tc_receiver c \<and> snd_isn (tc_sender c') = snd_isn (tc_sender c)"
proof -
  obtain n st where w: "bs_write d (snd_stream (tc_sender c)) = (n, st)" by fastforce
  let ?c = "c\<lparr>tc_sender := (tc_sender c)\<lparr>snd_stream := st\<rparr>\<rparr>"
  have "snd_inv (acc @ take (unat n) d) (log @ tc_segments_out ?c) (tc_sender ?c)"
    using snd_write_inv [of acc "log @ tc_segments_out c" "tc_sender c" d] ok len w by (simp add: tc_snd_ok_def)
  moreover have "length (acc @ take (unat n) d) + 2 < 2 ^ 32" using len by simp
  ultimately show ?thesis
    using tc_fill_and_send_ok [of "acc @ take (unat n) d" log ?c] by (auto simp: tc_write_def w)
qed

lemma tc_end_input_stream_ok:
  assumes "tc_snd_ok acc log c" and "length acc + 2 < 2 ^ 32"
  shows "\<exists>c'. tc_end_input_stream c = Inr c' \<and> tc_snd_ok acc log c' \<and> tc_receiver c' = tc_receiver c \<and>
    snd_isn (tc_sender c') = snd_isn (tc_sender c)"
  using tc_fill_and_send_ok [of acc log "c\<lparr>tc_sender := (tc_sender c)\<lparr>snd_stream := bs_end_input (snd_stream (tc_sender c))\<rparr>\<rparr>"]
    assms snd_end_inv [of acc "log @ tc_segments_out c" "tc_sender c"]
  by (simp add: tc_end_input_stream_def tc_snd_ok_def)

subsection \<open>Steps\<close>

lemma tc_step_snd:
  assumes ok: "tc_snd_ok acc log c" and len: "length acc + tc_offered [x] + 2 < 2 ^ 32"
    and step: "tc_step iter x (acc, log, out, c) = Inr (acc', log', out', c')"
  shows "tc_snd_ok acc' log' c' \<and> snd_isn (tc_sender c') = snd_isn (tc_sender c) \<and>
    (\<exists>T. acc' = acc @ T \<and> length T \<le> tc_offered [x]) \<and> set log \<subseteq> set log'"
proof (cases x)
  case Tc_connect
  with step tc_fill_and_send_ok [of acc log c] ok len show ?thesis
    by (auto simp: tc_connect_def tc_snd_ok_def bindE_eq_Inr_iff)
next
  case (Tc_write d)
  with step tc_write_ok [OF ok, of d] len show ?thesis by (auto simp: bindE_eq_Inr_iff)
next
  case Tc_end_input_stream
  with step tc_end_input_stream_ok [OF ok] len show ?thesis by (auto simp: bindE_eq_Inr_iff)
next
  case (Tc_segment_received seg)
  with step tc_segment_received_ok [OF ok, of iter seg] len show ?thesis
    by (auto simp: bindE_eq_Inr_iff split: sum.splits)
next
  case (Tc_tick ms)
  with step tc_tick_ok [OF ok, of ms] len show ?thesis by (auto simp: bindE_eq_Inr_iff)
next
  case (Tc_read n)
  with step ok show ?thesis by (auto simp: bindE_eq_Inr_iff tc_snd_ok_def)
next
  case Tc_pop
  with step ok show ?thesis
    by (cases "tc_segments_out c") (auto simp: tc_snd_ok_def)
qed

fun tc_op_from :: "bytes \<Rightarrow> wrapping_int32 \<Rightarrow> tc_op \<Rightarrow> bool" where
  "tc_op_from S isn (Tc_segment_received seg) \<longleftrightarrow> seg_from S isn seg"
| "tc_op_from S isn _ \<longleftrightarrow> True"

lemma ra_state_ok_error:
  "ra_state_ok S (out, r) \<Longrightarrow> ra_state_ok S (out, r\<lparr>ra_output := bs_set_error (ra_output r)\<rparr>)"
  by (auto simp: ra_state_ok_def ra_inv_def ra_sync_def)

lemma rcv_ok_error: "rcv_ok cap S isn (out, tc_receiver c) \<Longrightarrow> rcv_ok cap S isn (out, tc_receiver (tc_set_errors c))"
  by (simp add: rcv_ok_def tc_set_errors_def ra_state_ok_error)

lemma tc_receive_ok:
  assumes S: "length S + 1 < 2 ^ 32" and iter: "hash_order iter"
    and ok: "rcv_ok cap S isn (out, tc_receiver c)" and seg: "seg_from S isn seg"
  shows "\<exists>r. tc_receive iter seg c = Inr r \<and> rcv_ok cap S isn (out, r)"
proof -
  have ok': "rcv_ok cap S isn (out, tc_receiver (tc_note_flags seg c))"
    using ok rcv_ok_error [OF ok] by (simp add: tc_note_flags_frame(3))
  from rcv_step_ok [OF S iter ok', of "Rcv_segment seg"] seg show ?thesis
    using ok' by (auto simp: tc_receive_def Let_def bindE_eq_Inr_iff)
qed

lemma tc_step_rcv:
  assumes S: "length S + 1 < 2 ^ 32" and iter: "hash_order iter"
    and snd_ok: "tc_snd_ok acc log c" and len: "length acc + tc_offered [x] + 2 < 2 ^ 32"
    and ok: "rcv_ok cap S isn (out, tc_receiver c)" and x: "tc_op_from S isn x"
  shows "\<exists>acc' log' out' c'. tc_step iter x (acc, log, out, c) = Inr (acc', log', out', c') \<and>
    rcv_ok cap S isn (out', tc_receiver c')"
proof (cases x)
  case Tc_connect
  with tc_fill_and_send_ok [of acc log c] snd_ok len ok show ?thesis
    by (auto simp: tc_connect_def tc_snd_ok_def)
next
  case (Tc_write d)
  with tc_write_ok [OF snd_ok, of d] len ok show ?thesis by auto
next
  case Tc_end_input_stream
  with tc_end_input_stream_ok [OF snd_ok] len ok show ?thesis by auto
next
  case (Tc_segment_received seg)
  with x tc_receive_ok [OF S iter ok, of seg] obtain r where "tc_receive iter seg c = Inr r" "rcv_ok cap S isn (out, r)"
    by auto
  with tc_segment_received_ok [OF snd_ok, of iter seg] len Tc_segment_received show ?thesis by auto
next
  case (Tc_tick ms)
  from tc_tick_ok [OF snd_ok, of ms] len Tc_tick obtain c' where "tc_tick ms c = Inr c'"
    "tc_receiver c' = tc_receiver c \<or> tc_receiver c' = tc_receiver (tc_set_errors c)"
    by auto
  with ok rcv_ok_error [OF ok] Tc_tick show ?thesis by auto
next
  case (Tc_read n)
  with rcv_step_ok [OF S iter ok, of "Rcv_read n"] show ?thesis by auto
next
  case Tc_pop
  with ok show ?thesis by (cases "tc_segments_out c") auto
qed

lemma tc_offered_Cons: "tc_offered (x # xs) = tc_offered [x] + tc_offered xs"
  by (cases x) simp_all

lemma tc_run_snd:
  assumes "tc_snd_ok acc log c" and "length acc + tc_offered xs + 2 < 2 ^ 32"
    and "tc_run iter xs (acc, log, out, c) = Inr (acc', log', out', c')"
  shows "tc_snd_ok acc' log' c' \<and> snd_isn (tc_sender c') = snd_isn (tc_sender c) \<and>
    (\<exists>T. acc' = acc @ T \<and> length T \<le> tc_offered xs) \<and> set log \<subseteq> set log'"
  using assms
proof (induction xs arbitrary: acc log out c)
  case (Cons x xs)
  from Cons.prems(3) obtain acc1 log1 out1 c1 where
    1: "tc_step iter x (acc, log, out, c) = Inr (acc1, log1, out1, c1)"
      "tc_run iter xs (acc1, log1, out1, c1) = Inr (acc', log', out', c')"
    by (auto simp: bindE_eq_Inr_iff)
  have len: "length acc + tc_offered [x] + 2 < 2 ^ 32" using Cons.prems(2) tc_offered_Cons [of x xs] by simp
  from tc_step_snd [OF Cons.prems(1) len 1(1)] obtain T where
    s1: "tc_snd_ok acc1 log1 c1" "snd_isn (tc_sender c1) = snd_isn (tc_sender c)" "acc1 = acc @ T"
      "length T \<le> tc_offered [x]" "set log \<subseteq> set log1"
    by blast
  have "length acc1 + tc_offered xs + 2 < 2 ^ 32" using Cons.prems(2) s1(3,4) tc_offered_Cons [of x xs] by simp
  from Cons.IH [OF s1(1) this 1(2)] s1(2-5) show ?case
    unfolding tc_offered_Cons [of x xs] by (auto simp del: tc_offered.simps)
qed auto

lemma tc_run_rcv:
  assumes S: "length S + 1 < 2 ^ 32" and iter: "hash_order iter"
    and "tc_snd_ok acc log c" and "length acc + tc_offered xs + 2 < 2 ^ 32"
    and "rcv_ok cap S isn (out, tc_receiver c)" and "list_all (tc_op_from S isn) xs"
  shows "\<exists>acc' log' out' c'. tc_run iter xs (acc, log, out, c) = Inr (acc', log', out', c') \<and>
    rcv_ok cap S isn (out', tc_receiver c')"
  using assms(3-)
proof (induction xs arbitrary: acc log out c)
  case (Cons x xs)
  have len: "length acc + tc_offered [x] + 2 < 2 ^ 32" using Cons.prems(2) tc_offered_Cons [of x xs] by simp
  from Cons.prems(4) have x: "tc_op_from S isn x" and xs: "list_all (tc_op_from S isn) xs" by simp_all
  from tc_step_rcv [OF S iter Cons.prems(1) len Cons.prems(3) x] obtain acc1 log1 out1 c1 where
    1: "tc_step iter x (acc, log, out, c) = Inr (acc1, log1, out1, c1)" "rcv_ok cap S isn (out1, tc_receiver c1)"
    by blast
  from tc_step_snd [OF Cons.prems(1) len 1(1)] obtain T where
    s1: "tc_snd_ok acc1 log1 c1" "acc1 = acc @ T" "length T \<le> tc_offered [x]"
    by blast
  have "length acc1 + tc_offered xs + 2 < 2 ^ 32" using Cons.prems(2) s1(2,3) tc_offered_Cons [of x xs] by simp
  from Cons.IH [OF s1(1) this 1(2) xs] 1(1) show ?case by auto
qed simp

subsection \<open>Two connections over a network\<close>

text \<open>
  \<open>joint ia a ib b xs ys\<close>: \<open>xs\<close> and \<open>ys\<close> are the calls made so far on two connections that
  started as \<open>a\<close> and \<open>b\<close>. Their owners make calls of their own at any time, and the network
  may at any time deliver to one connection any segment that the other has sent, any number
  of times, with ports and a checksum that the layers below have filled in.
\<close>

fun tc_local :: "tc_op \<Rightarrow> bool" where
  "tc_local (Tc_segment_received seg) \<longleftrightarrow> False"
| "tc_local _ \<longleftrightarrow> True"

definition tc_start :: "tcp_connection \<Rightarrow> tc_history" where
  "tc_start c = ([], [], [], c)"

definition tc_from :: "tcp_segment list \<Rightarrow> tcp_segment \<Rightarrow> bool" where
  "tc_from log seg \<longleftrightarrow> (\<exists>s \<in> set log. seg_carried s seg)"

definition tc_sent :: "iteration \<Rightarrow> tc_op list \<Rightarrow> tcp_connection \<Rightarrow> tcp_segment \<Rightarrow> bool" where
  "tc_sent iter xs c seg \<longleftrightarrow>
     (case tc_run iter xs (tc_start c) of Inl _ \<Rightarrow> False | Inr (acc, log, out, c') \<Rightarrow> tc_from log seg)"

inductive joint :: "iteration \<Rightarrow> tcp_connection \<Rightarrow> iteration \<Rightarrow> tcp_connection \<Rightarrow> tc_op list \<Rightarrow> tc_op list \<Rightarrow> bool"
  for ia a ib b where
  start: "joint ia a ib b [] []"
| local_a: "joint ia a ib b xs ys \<Longrightarrow> tc_local x \<Longrightarrow> joint ia a ib b (xs @ [x]) ys"
| local_b: "joint ia a ib b xs ys \<Longrightarrow> tc_local y \<Longrightarrow> joint ia a ib b xs (ys @ [y])"
| a_to_b: "joint ia a ib b xs ys \<Longrightarrow> tc_sent ia xs a seg \<Longrightarrow> joint ia a ib b xs (ys @ [Tc_segment_received seg])"
| b_to_a: "joint ia a ib b xs ys \<Longrightarrow> tc_sent ib ys b seg \<Longrightarrow> joint ia a ib b (xs @ [Tc_segment_received seg]) ys"

lemma joint_sym: "joint ia a ib b xs ys \<Longrightarrow> joint ib b ia a ys xs"
  by (induction rule: joint.induct) (auto intro: joint.intros)

fun tc_received :: "tc_op list \<Rightarrow> tcp_segment list" where
  "tc_received [] = []"
| "tc_received (Tc_segment_received seg # xs) = seg # tc_received xs"
| "tc_received (x # xs) = tc_received xs"

lemma tc_received_append: "tc_received (xs @ ys) = tc_received xs @ tc_received ys"
  by (induction xs rule: tc_received.induct) simp_all

lemma tc_received_local: "tc_local x \<Longrightarrow> tc_received [x] = []"
  by (cases x) simp_all

lemma tc_op_from_received: "list_all (tc_op_from S isn) xs \<longleftrightarrow> (\<forall>seg \<in> set (tc_received xs). seg_from S isn seg)"
  by (induction xs rule: tc_received.induct) simp_all

lemma tc_sent_run:
  assumes "tc_sent iter xs c seg"
  shows "\<exists>acc log out c'. tc_run iter xs (tc_start c) = Inr (acc, log, out, c') \<and> tc_from log seg"
  using assms by (auto simp: tc_sent_def split: sum.splits)

text \<open>What is sent in a run is a piece of what the run has accepted.\<close>

lemma tc_run_pieces:
  assumes "tc_run iter xs (tc_start (tc_init rnd cfg)) = Inr (acc, log, out, c)" and "tc_offered xs + 2 < 2 ^ 32"
  shows "tc_snd_ok acc log c" and "snd_isn (tc_sender c) = snd_isn (tc_sender (tc_init rnd cfg))"
    and "length acc \<le> tc_offered xs"
    and "tc_from log seg \<Longrightarrow> seg_from acc (snd_isn (tc_sender (tc_init rnd cfg))) seg"
    and "tc_from log seg \<Longrightarrow> \<not> bs_end_flag (snd_stream (tc_sender c)) \<Longrightarrow> \<not> th_fin (seg_header seg)"
proof -
  show ok: "tc_snd_ok acc log c" and isn: "snd_isn (tc_sender c) = snd_isn (tc_sender (tc_init rnd cfg))"
    and "length acc \<le> tc_offered xs"
    using tc_run_snd [OF tc_snd_ok_init, of xs iter "[]" rnd cfg acc log out c] assms by (auto simp: tc_start_def)
  have "s \<in> set log \<Longrightarrow> seg_from acc (snd_isn (tc_sender (tc_init rnd cfg))) s" for s
    using ok unfolding isn [symmetric] by (simp add: tc_snd_ok_def snd_inv_def snd_pieces_def)
  then show "tc_from log seg \<Longrightarrow> seg_from acc (snd_isn (tc_sender (tc_init rnd cfg))) seg"
    unfolding tc_from_def using seg_from_carried by blast
  have "s \<in> set log \<Longrightarrow> \<not> bs_end_flag (snd_stream (tc_sender c)) \<Longrightarrow> \<not> th_fin (seg_header s)" for s
    using ok by (auto simp: tc_snd_ok_def snd_inv_def snd_pieces_def snd_pos_def)
  then show "tc_from log seg \<Longrightarrow> \<not> bs_end_flag (snd_stream (tc_sender c)) \<Longrightarrow> \<not> th_fin (seg_header seg)"
    unfolding tc_from_def using seg_carried_fields(3) by blast
qed

lemma tc_run_extend:
  assumes "tc_run iter xs (tc_start (tc_init rnd cfg)) = Inr (acc, log, out, c)" and "tc_offered (xs @ [x]) + 2 < 2 ^ 32"
    and "tc_run iter (xs @ [x]) (tc_start (tc_init rnd cfg)) = Inr (acc', log', out', c')"
  shows "set log \<subseteq> set log'"
proof -
  have off: "tc_offered xs + 2 < 2 ^ 32" using assms(2) by (simp add: tc_offered_append)
  note p = tc_run_pieces [OF assms(1) off]
  have "tc_step iter x (acc, log, out, c) = Inr (acc', log', out', c')"
    using assms(1,3) by (auto simp: tc_run_append bindE_eq_Inr_iff)
  moreover have "length acc + tc_offered [x] + 2 < 2 ^ 32" using p(3) assms(2) by (simp add: tc_offered_append)
  ultimately show ?thesis using tc_step_snd [OF p(1)] by blast
qed

text \<open>A run whose input comes from what another run has sent succeeds and tracks its stream.\<close>

lemma tc_run_fed:
  assumes peer: "tc_run ib ys (tc_start (tc_init rb cb)) = Inr (accb, logb, outb, b)"
    and off: "tc_offered xs + 2 < 2 ^ 32" "tc_offered ys + 2 < 2 ^ 32" and iter: "hash_order ia"
    and fed: "list_all (tc_from logb) (tc_received xs)"
  shows "\<exists>acc log out c. tc_run ia xs (tc_start (tc_init ra ca)) = Inr (acc, log, out, c) \<and>
    rcv_ok (cfg_recv_capacity ca) accb (snd_isn (tc_sender (tc_init rb cb))) (out, tc_receiver c)"
proof -
  let ?isn = "snd_isn (tc_sender (tc_init rb cb))"
  note p = tc_run_pieces [OF peer off(2)]
  have S: "length accb + 1 < 2 ^ 32" using p(3) off(2) by simp
  have "rcv_ok (cfg_recv_capacity ca) accb ?isn ([], tc_receiver (tc_init ra ca))"
    using rcv_ok_init by (simp add: tc_init_def)
  moreover have "list_all (tc_op_from accb ?isn) xs" unfolding tc_op_from_received using p(4) fed by (simp add: list_all_iff)
  ultimately show ?thesis
    using tc_run_rcv [OF S iter tc_snd_ok_init, of xs "cfg_recv_capacity ca" ?isn "[]" ra ca] off(1)
    unfolding tc_start_def by auto
qed

definition joint_ok :: "iteration \<Rightarrow> tcp_connection \<Rightarrow> iteration \<Rightarrow> tcp_connection \<Rightarrow> tc_op list \<Rightarrow> tc_op list \<Rightarrow> bool" where
  "joint_ok ia a ib b xs ys \<longleftrightarrow>
     (\<exists>acc1 log1 out1 c1 acc2 log2 out2 c2.
        tc_run ia xs (tc_start a) = Inr (acc1, log1, out1, c1) \<and>
        tc_run ib ys (tc_start b) = Inr (acc2, log2, out2, c2) \<and>
        list_all (tc_from log2) (tc_received xs) \<and> list_all (tc_from log1) (tc_received ys))"

lemma joint_ok_sym: "joint_ok ia a ib b xs ys \<Longrightarrow> joint_ok ib b ia a ys xs"
  unfolding joint_ok_def by blast

lemma joint_ok_step:
  assumes ok: "joint_ok ia (tc_init ra ca) ib (tc_init rb cb) xs ys" and iter: "hash_order ia"
    and off: "tc_offered (xs @ [x]) + 2 < 2 ^ 32" "tc_offered ys + 2 < 2 ^ 32"
    and x: "tc_local x \<or> (\<exists>seg. x = Tc_segment_received seg \<and> tc_sent ib ys (tc_init rb cb) seg)"
  shows "joint_ok ia (tc_init ra ca) ib (tc_init rb cb) (xs @ [x]) ys"
proof -
  from ok obtain acc1 log1 out1 c1 acc2 log2 out2 c2 where
    1: "tc_run ia xs (tc_start (tc_init ra ca)) = Inr (acc1, log1, out1, c1)"
    and 2: "tc_run ib ys (tc_start (tc_init rb cb)) = Inr (acc2, log2, out2, c2)"
    and fed: "list_all (tc_from log2) (tc_received xs)" "list_all (tc_from log1) (tc_received ys)"
    unfolding joint_ok_def by blast
  have "list_all (tc_from log2) (tc_received [x])"
    using x 2 tc_sent_run [of ib ys "tc_init rb cb"] by (auto simp: tc_received_local)
  with fed(1) have fed': "list_all (tc_from log2) (tc_received (xs @ [x]))" by (simp add: tc_received_append)
  from tc_run_fed [OF 2 off iter fed', of ra ca] obtain acc log out c where
    run: "tc_run ia (xs @ [x]) (tc_start (tc_init ra ca)) = Inr (acc, log, out, c)" by blast
  have "set log1 \<subseteq> set log" by (rule tc_run_extend [OF 1 off(1) run])
  then have "list_all (tc_from log) (tc_received ys)" using fed(2) unfolding list_all_iff tc_from_def by blast
  with run 2 fed' show ?thesis unfolding joint_ok_def by blast
qed

lemma joint_runs:
  assumes "joint ia (tc_init ra ca) ib (tc_init rb cb) xs ys" and "hash_order ia" and "hash_order ib"
    and "tc_offered xs + 2 < 2 ^ 32" and "tc_offered ys + 2 < 2 ^ 32"
  shows "joint_ok ia (tc_init ra ca) ib (tc_init rb cb) xs ys"
  using assms
proof (induction rule: joint.induct)
  case start
  show ?case by (simp add: joint_ok_def tc_start_def)
next
  case (local_a xs ys x)
  then have "joint_ok ia (tc_init ra ca) ib (tc_init rb cb) xs ys" by (simp add: tc_offered_append)
  then show ?case by (rule joint_ok_step) (use local_a in simp_all)
next
  case (local_b xs ys y)
  then have "joint_ok ia (tc_init ra ca) ib (tc_init rb cb) xs ys" by (simp add: tc_offered_append)
  from joint_ok_sym [OF this] have "joint_ok ib (tc_init rb cb) ia (tc_init ra ca) (ys @ [y]) xs"
    by (rule joint_ok_step) (use local_b in simp_all)
  then show ?case by (rule joint_ok_sym)
next
  case (a_to_b xs ys seg)
  then have "joint_ok ia (tc_init ra ca) ib (tc_init rb cb) xs ys" by (simp add: tc_offered_append)
  from joint_ok_sym [OF this]
  have "joint_ok ib (tc_init rb cb) ia (tc_init ra ca) (ys @ [Tc_segment_received seg]) xs"
    by (rule joint_ok_step) (use a_to_b in simp_all)
  then show ?case by (rule joint_ok_sym)
next
  case (b_to_a xs ys seg)
  then have "joint_ok ia (tc_init ra ca) ib (tc_init rb cb) xs ys" by (simp add: tc_offered_append)
  then show ?case by (rule joint_ok_step) (use b_to_a in simp_all)
qed

subsection \<open>Properties\<close>

text \<open>
  \<open>tc_delivered acc a out b\<close>: what the reader at \<open>b\<close> has got or can get is a prefix of what the
  writer at \<open>a\<close> has written, and the end at \<open>b\<close> is the end at \<open>a\<close>.
\<close>

definition tc_delivered :: "bytes \<Rightarrow> tcp_connection \<Rightarrow> bytes \<Rightarrow> tcp_connection \<Rightarrow> bool" where
  "tc_delivered acc a out b \<longleftrightarrow>
     (let inbound = rcv_stream_out (tc_receiver b); got = out @ bs_content inbound in
      got = take (length got) acc \<and>
      (bs_input_ended inbound \<longrightarrow> got = acc \<and> bs_input_ended (snd_stream (tc_sender a))))"

lemma tc_run_delivered:
  assumes run: "tc_run ia xs (tc_start (tc_init ra ca)) = Inr (acc, log, out, a)"
    and peer: "tc_run ib ys (tc_start (tc_init rb cb)) = Inr (accb, logb, outb, b)"
    and off: "tc_offered xs + 2 < 2 ^ 32" "tc_offered ys + 2 < 2 ^ 32" and iter: "hash_order ib"
    and fed: "list_all (tc_from log) (tc_received ys)"
  shows "tc_delivered acc a outb b"
proof -
  let ?isn = "snd_isn (tc_sender (tc_init ra ca))" and ?cap = "cfg_recv_capacity cb"
  let ?got = "outb @ bs_content (rcv_stream_out (tc_receiver b))"
  note p = tc_run_pieces [OF run off(1)]
  have S: "length acc + 1 < 2 ^ 32" using p(3) off(1) by simp
  from tc_run_fed [OF run off(2,1) iter fed, of rb cb] peer
  have ok: "rcv_ok ?cap acc ?isn (outb, tc_receiver b)" by auto
  note got = rcv_ok_got [OF ok S]
  have "bs_input_ended (snd_stream (tc_sender a))" if ended: "bs_input_ended (rcv_stream_out (tc_receiver b))"
  proof (rule ccontr)
    assume open': "\<not> bs_input_ended (snd_stream (tc_sender a))"
    let ?S = "acc @ [0]"
    have "seg_from ?S ?isn seg" if "seg \<in> set (tc_received ys)" for seg
      using p(4,5) [of seg] that fed open' seg_from_extend [of acc ?isn seg "[0]"] by (auto simp: bs_input_ended_def list_all_iff)
    then have "list_all (tc_op_from ?S ?isn) ys" by (simp add: tc_op_from_received)
    moreover have S': "length ?S + 1 < 2 ^ 32" using p(3) off(1) by simp
    moreover have "rcv_ok ?cap ?S ?isn ([], tc_receiver (tc_init rb cb))" using rcv_ok_init by (simp add: tc_init_def)
    ultimately have "rcv_ok ?cap ?S ?isn (outb, tc_receiver b)"
      using tc_run_rcv [OF S' iter tc_snd_ok_init, of ys ?cap ?isn "[]" rb cb] off(2) peer
      unfolding tc_start_def by auto
    from rcv_ok_got(3) [OF this S' ended] got(3) [OF ended] show False by simp
  qed
  moreover have "?got = take (length ?got) acc" unfolding got(1) by (rule got(2))
  ultimately show ?thesis unfolding tc_delivered_def Let_def using got(3) by blast
qed

lemma joint_delivers:
  assumes "joint ia (tc_init ra ca) ib (tc_init rb cb) xs ys" and "hash_order ia" and "hash_order ib"
    and "tc_offered xs + 2 < 2 ^ 32" and "tc_offered ys + 2 < 2 ^ 32"
  shows "\<exists>acc1 log1 out1 a acc2 log2 out2 b.
    tc_run ia xs (tc_start (tc_init ra ca)) = Inr (acc1, log1, out1, a) \<and>
    tc_run ib ys (tc_start (tc_init rb cb)) = Inr (acc2, log2, out2, b) \<and>
    tc_delivered acc1 a out2 b \<and> tc_delivered acc2 b out1 a"
proof -
  from joint_runs [OF assms] obtain acc1 log1 out1 a acc2 log2 out2 b where
    1: "tc_run ia xs (tc_start (tc_init ra ca)) = Inr (acc1, log1, out1, a)"
    and 2: "tc_run ib ys (tc_start (tc_init rb cb)) = Inr (acc2, log2, out2, b)"
    and fed: "list_all (tc_from log2) (tc_received xs)" "list_all (tc_from log1) (tc_received ys)"
    unfolding joint_ok_def by blast
  from tc_run_delivered [OF 1 2 assms(4,5,3) fed(2)] tc_run_delivered [OF 2 1 assms(5,4,2) fed(1)] 1 2
  show ?thesis by blast
qed

text \<open>
  C1. Two connections exchange their streams reliably over an unreliable network. However
  the owners call them and the clock ticks, and whatever segments the network loses,
  duplicates, delays or reorders in either direction: as long as each writer offers fewer than
  2^32 - 2 bytes, no call on either connection fails; the bytes delivered or readable at each
  end are a prefix of the bytes written at the other; and when an inbound stream has ended,
  its bytes are all the bytes the peer wrote, and the peer has closed its outbound stream.
\<close>

theorem connections_deliver:
  assumes "joint ia (tc_init ra ca) ib (tc_init rb cb) xs ys" and "hash_order ia" and "hash_order ib"
    and "tc_offered xs + 2 < 2 ^ 32" and "tc_offered ys + 2 < 2 ^ 32"
  shows "\<exists>acc1 log1 out1 a acc2 log2 out2 b.
    tc_run ia xs (tc_start (tc_init ra ca)) = Inr (acc1, log1, out1, a) \<and>
    tc_run ib ys (tc_start (tc_init rb cb)) = Inr (acc2, log2, out2, b) \<and>
    tc_delivered acc1 a out2 b \<and> tc_delivered acc2 b out1 a"
  by (rule joint_delivers [OF assms])

theorem connections_deliver_witness:
  "\<exists>acc1 log1 out1 a acc2 log2 out2 b.
    tc_run (map fst) [Tc_write [1, 2], Tc_pop] (tc_start (tc_init 5 cfg_default)) = Inr (acc1, log1, out1, a) \<and>
    tc_run (map fst) [Tc_segment_received \<lparr>seg_header = th_default\<lparr>th_seqno := WrappingInt32 5, th_syn := True\<rparr>,
        seg_payload = buffer_of []\<rparr>, Tc_read 3] (tc_start (tc_init 7 cfg_default)) = Inr (acc2, log2, out2, b) \<and>
    tc_delivered acc1 a out2 b \<and> tc_delivered acc2 b out1 a"
proof -
  let ?a = "tc_init 5 cfg_default" and ?b = "tc_init 7 cfg_default"
  let ?seg = "\<lparr>seg_header = th_default\<lparr>th_seqno := WrappingInt32 5, th_syn := True\<rparr>, seg_payload = buffer_of []\<rparr>"
  have sent: "tc_sent (map fst) ([] @ [Tc_write [1, 2]] @ [Tc_pop]) ?a ?seg" by code_simp
  have "joint (map fst) ?a (map fst) ?b (([] @ [Tc_write [1, 2]]) @ [Tc_pop]) []"
    by (intro joint.intros) simp_all
  then have "joint (map fst) ?a (map fst) ?b ([] @ [Tc_write [1, 2]] @ [Tc_pop]) []" by simp
  from local_b [OF a_to_b [OF this sent], of "Tc_read 3"]
  have j: "joint (map fst) ?a (map fst) ?b [Tc_write [1, 2], Tc_pop] [Tc_segment_received ?seg, Tc_read 3]"
    by simp
  show ?thesis by (rule connections_deliver [OF j]) (simp_all add: hash_order_insertion)
qed

text \<open>The reply to a segment that occupies sequence numbers.\<close>

lemma tc_occupying_reply:
  assumes "tc_segment_received iter seg c = Inr c'" and "length_in_sequence_space seg \<noteq> 0"
  shows "\<exists>q. q \<noteq> [] \<and> tc_segments_out c' = tc_segments_out c @ map (tc_stamp (tc_receiver c')) q"
proof -
  from assms(1) obtain c1 where c1: "tc_reply seg c1 = Inr c'" "tc_segments_out c1 = tc_segments_out c"
    by (auto simp: tc_segment_received_def Let_def bindE_eq_Inr_iff tc_note_flags_def tc_set_errors_def split: if_splits)
  from c1(1) assms(2) obtain s where s: "snd_fill_window (tc_sender c1) = Inr s"
    and c': "c' = tc_send_segment (c1\<lparr>tc_sender := if snd_segments_out s = [] then snd_send_empty_segment s else s\<rparr>)"
    by (auto simp: tc_reply_def bindE_eq_Inr_iff split: option.splits)
  let ?q = "snd_segments_out (if snd_segments_out s = [] then snd_send_empty_segment s else s)"
  have "?q \<noteq> []" by (simp add: snd_send_empty_segment_def Let_def)
  moreover have "tc_segments_out c' = tc_segments_out c @ map (tc_stamp (tc_receiver c')) ?q"
    unfolding c' by (simp add: tc_send_segment_def c1(2))
  ultimately show ?thesis by blast
qed

text \<open>
  C10. A segment that occupies sequence numbers is acknowledged. A connection that knows the
  peer's SYN once it has processed such a segment, in whatever state, queues at least one
  segment; and every segment it queues carries the ACK flag, the acknowledgment number of the
  first byte still missing, and the window, truncated to its 16 bits.
\<close>

theorem segment_is_answered:
  assumes "tc_segment_received iter seg c = Inr c'" and "length_in_sequence_space seg \<noteq> 0"
    and "rcv_ackno (tc_receiver c') = Some ackno"
  shows "\<exists>new. tc_segments_out c' = tc_segments_out c @ new \<and> new \<noteq> [] \<and>
    list_all (\<lambda>seg. th_ack (seg_header seg) \<and> th_ackno (seg_header seg) = ackno \<and>
                    th_win (seg_header seg) = ucast (rcv_window_size (tc_receiver c'))) new"
proof -
  from tc_occupying_reply [OF assms(1,2)] obtain q where
    "q \<noteq> []" "tc_segments_out c' = tc_segments_out c @ map (tc_stamp (tc_receiver c')) q" by blast
  with assms(3) show ?thesis
    by (intro exI [of _ "map (tc_stamp (tc_receiver c')) q"]) (auto simp: tc_stamp_def list_all_iff)
qed

theorem segment_is_answered_witness:
  "\<exists>c' new ackno. tc_segment_received (map fst) \<lparr>seg_header = th_default\<lparr>th_syn := True\<rparr>, seg_payload = buffer_of []\<rparr>
      (tc_init 7 cfg_default) = Inr c' \<and> tc_segments_out c' = tc_segments_out (tc_init 7 cfg_default) @ new \<and> new \<noteq> [] \<and>
    rcv_ackno (tc_receiver c') = Some ackno \<and>
    list_all (\<lambda>seg. th_ack (seg_header seg) \<and> th_ackno (seg_header seg) = ackno) new"
proof -
  let ?seg = "\<lparr>seg_header = th_default\<lparr>th_syn := True\<rparr>, seg_payload = buffer_of []\<rparr>"
  have "case tc_segment_received (map fst) ?seg (tc_init 7 cfg_default) of Inl _ \<Rightarrow> False
    | Inr c' \<Rightarrow> rcv_ackno (tc_receiver c') = Some (WrappingInt32 1) \<and> length_in_sequence_space ?seg \<noteq> 0"
    by code_simp
  then obtain c' where c': "tc_segment_received (map fst) ?seg (tc_init 7 cfg_default) = Inr c'"
    "length_in_sequence_space ?seg \<noteq> 0" "rcv_ackno (tc_receiver c') = Some (WrappingInt32 1)"
    by (auto split: sum.splits)
  from segment_is_answered [OF c'] c'(1,3) show ?thesis by (auto simp: list_all_iff)
qed





declare unwrap_self [simp]









lemma tc_try_close_eq:
  "tc_active (tc_try_close c) \<longleftrightarrow> tc_active c \<and>
     \<not> (tc_unassembled_bytes c = 0 \<and> bs_eof (rcv_stream_out (tc_receiver c)) \<and> bs_eof (snd_stream (tc_sender c)) \<and>
        tc_bytes_in_flight c = 0 \<and>
        (tc_time_since_last_segment_received c \<ge> 10 * ucast (cfg_rt_timeout (tc_cfg c)) \<or>
         \<not> tc_linger_after_streams_finish c))"
  by (auto simp: tc_try_close_def tc_active_def Let_def)

lemma tc_try_close_more [simp]:
  "tc_ticks (tc_try_close c) = tc_ticks c" "tc_rece_tick (tc_try_close c) = tc_rece_tick c"
  "tc_cfg (tc_try_close c) = tc_cfg c"
  by (simp_all add: tc_try_close_def Let_def)

lemma tc_fill_and_send_frame:
  assumes "tc_fill_and_send c = Inr c'"
  shows "tc_close c' = tc_close c" "tc_linger_after_streams_finish c' = tc_linger_after_streams_finish c"
    "tc_ticks c' = tc_ticks c" "tc_rece_tick c' = tc_rece_tick c" "tc_cfg c' = tc_cfg c"
  using assms by (auto simp: tc_fill_and_send_def bindE_eq_Inr_iff tc_send_segment_def)

lemma tc_send_rst_frame [simp]:
  "tc_close (tc_send_rst c)" "tc_linger_after_streams_finish (tc_send_rst c) = tc_linger_after_streams_finish c"
  "tc_ticks (tc_send_rst c) = tc_ticks c" "tc_rece_tick (tc_send_rst c) = tc_rece_tick c" "tc_cfg (tc_send_rst c) = tc_cfg c"
  "snd_consecutive_retran (tc_sender (tc_send_rst c)) = snd_consecutive_retran (tc_sender c)"
  by (simp_all add: tc_send_rst_def Let_def tc_set_errors_def snd_send_empty_segment_def)

lemma tc_tick_shape:
  assumes "tc_tick ms c = Inr c'"
  shows "\<exists>c3. c' = tc_try_close c3 \<and> tc_ticks c3 = tc_ticks c + ms \<and> tc_rece_tick c3 = tc_rece_tick c \<and>
    tc_cfg c3 = tc_cfg c \<and> tc_linger_after_streams_finish c3 = tc_linger_after_streams_finish c \<and>
    (tc_active c3 \<longleftrightarrow> tc_active c \<and> \<not> snd_consecutive_retransmissions (tc_sender c3) > MAX_RETX_ATTEMPTS)"
proof -
  let ?c = "c\<lparr>tc_ticks := tc_ticks c + ms\<rparr>"
  from assms obtain c1 s where
    c1: "(if \<not> bs_buffer_empty (snd_stream (tc_sender ?c)) \<or> bs_eof (snd_stream (tc_sender ?c))
             then tc_fill_and_send ?c else Inr ?c) = Inr c1"
    and s: "snd_tick ms (tc_sender c1) = Inr s"
    and c': "c' = (let c = c1\<lparr>tc_sender := s\<rparr>;
          c = (if snd_segments_out (tc_sender c) \<noteq> [] then tc_send_segment c else c);
          c = (if snd_consecutive_retransmissions (tc_sender c) > MAX_RETX_ATTEMPTS then tc_send_rst c else c)
      in tc_try_close c)"
    unfolding tc_tick_def Let_def bindE_eq_Inr_iff by blast
  have f: "tc_close c1 = tc_close c" "tc_linger_after_streams_finish c1 = tc_linger_after_streams_finish c"
    "tc_ticks c1 = tc_ticks c + ms" "tc_rece_tick c1 = tc_rece_tick c" "tc_cfg c1 = tc_cfg c"
    using c1 tc_fill_and_send_frame [of ?c c1] by (auto split: if_splits)
  define c2 where "c2 = (let c = c1\<lparr>tc_sender := s\<rparr> in if snd_segments_out (tc_sender c) \<noteq> [] then tc_send_segment c else c)"
  have g: "tc_close c2 = tc_close c" "tc_linger_after_streams_finish c2 = tc_linger_after_streams_finish c"
    "tc_ticks c2 = tc_ticks c + ms" "tc_rece_tick c2 = tc_rece_tick c" "tc_cfg c2 = tc_cfg c"
    using f by (simp_all add: c2_def Let_def tc_send_segment_def)
  let ?c3 = "if snd_consecutive_retransmissions (tc_sender c2) > MAX_RETX_ATTEMPTS then tc_send_rst c2 else c2"
  have "c' = tc_try_close ?c3" unfolding c' c2_def by (simp add: Let_def)
  moreover have "tc_active ?c3 \<longleftrightarrow> tc_active c \<and> \<not> snd_consecutive_retransmissions (tc_sender ?c3) > MAX_RETX_ATTEMPTS"
    using g(1) by (simp add: tc_active_def snd_consecutive_retransmissions_def)
  ultimately show ?thesis using g(2-5) by (intro exI [of _ ?c3]) simp
qed

text \<open>
  C11. When a connection ends. In every reachable state a tick returns, and a connection that
  was active is inactive afterwards exactly in two cases: it has given up after more than
  eight consecutive retransmissions; or both streams are finished and fully acknowledged, and
  either it need not linger or ten times the retransmission timeout has passed since the
  last segment arrived.
\<close>

theorem tick_closes:
  assumes "tc_offered xs + 2 < 2 ^ 32"
    and "tc_run iter xs (tc_start (tc_init rnd cfg)) = Inr (acc, log, out, c)"
  shows "\<exists>c'. tc_tick ms c = Inr c' \<and>
    (tc_active c' \<longleftrightarrow> tc_active c \<and>
       \<not> snd_consecutive_retransmissions (tc_sender c') > MAX_RETX_ATTEMPTS \<and>
       \<not> (tc_unassembled_bytes c' = 0 \<and> bs_eof (rcv_stream_out (tc_receiver c')) \<and>
          bs_eof (snd_stream (tc_sender c')) \<and> tc_bytes_in_flight c' = 0 \<and>
          (\<not> tc_linger_after_streams_finish c \<or>
           tc_ticks c + ms - tc_rece_tick c \<ge> 10 * ucast (cfg_rt_timeout (tc_cfg c)))))"
proof -
  note p = tc_run_pieces [OF assms(2,1)]
  have "length acc + 2 < 2 ^ 32" using p(3) assms(1) by simp
  from tc_tick_ok [OF p(1) this, of ms] obtain c' where c': "tc_tick ms c = Inr c'" by blast
  from tc_tick_shape [OF c'] show ?thesis
    using c' by (auto simp: tc_try_close_eq tc_unassembled_bytes_def tc_bytes_in_flight_def
        tc_time_since_last_segment_received_def)
qed

theorem tick_closes_witness:
  "\<exists>acc log out c c'. tc_run (map fst) [Tc_connect] (tc_start (tc_init 5 cfg_default)) = Inr (acc, log, out, c) \<and>
    tc_tick 10 c = Inr c' \<and>
    (tc_active c' \<longleftrightarrow> tc_active c \<and>
       \<not> snd_consecutive_retransmissions (tc_sender c') > MAX_RETX_ATTEMPTS \<and>
       \<not> (tc_unassembled_bytes c' = 0 \<and> bs_eof (rcv_stream_out (tc_receiver c')) \<and>
          bs_eof (snd_stream (tc_sender c')) \<and> tc_bytes_in_flight c' = 0 \<and>
          (\<not> tc_linger_after_streams_finish c \<or>
           tc_ticks c + 10 - tc_rece_tick c \<ge> 10 * ucast (cfg_rt_timeout (tc_cfg c)))))"
proof -
  have "case tc_run (map fst) [Tc_connect] (tc_start (tc_init 5 cfg_default)) of Inl _ \<Rightarrow> False | Inr st \<Rightarrow> True"
    by code_simp
  then obtain acc log out c where
    c: "tc_run (map fst) [Tc_connect] (tc_start (tc_init 5 cfg_default)) = Inr (acc, log, out, c)"
    by (auto split: sum.splits)
  have off: "tc_offered [Tc_connect] + 2 < 2 ^ 32" by simp
  from tick_closes [OF off c, of 10] c show ?thesis by blast
qed

end
