(* ===== verification/Stack.thy ===== *)
theory Stack
  imports Connections Adapters
begin

text \<open>
  The whole stack: TCP connections whose segments travel as IPv4 datagrams through TUN devices.
  The segments of a connection fit into datagrams; what an adapter writes, another adapter
  reads as the same segment or not at all; so a network of datagrams that loses, duplicates
  and reorders them is a network of segments of \<open>joint\<close>, and the delivery theorem carries over.
\<close>

subsection \<open>The segments of a connection are small\<close>

definition seg_small :: "tcp_segment \<Rightarrow> bool" where
  "seg_small seg \<longleftrightarrow> th_doff (seg_header seg) = 5 \<and> length (buffer_str (seg_payload seg)) \<le> 1000"

lemma seg_small_fits: "seg_small seg \<Longrightarrow> seg_fits seg"
  by (simp add: seg_small_def seg_fits_def th_wf_def)

definition snd_small :: "tcp_sender \<Rightarrow> bool" where
  "snd_small s \<longleftrightarrow> list_all seg_small (snd_segments_out s) \<and> list_all seg_small (snd_retransmission_queue s)"

definition tc_small :: "tcp_segment list \<Rightarrow> tcp_connection \<Rightarrow> bool" where
  "tc_small log c \<longleftrightarrow> list_all seg_small log \<and> list_all seg_small (tc_segments_out c) \<and> snd_small (tc_sender c)"

lemma snd_small_stream [simp]: "snd_small (s\<lparr>snd_stream := st\<rparr>) = snd_small s"
  by (simp add: snd_small_def)

lemma bs_read_length: "bs_read n s = Inr (d, s') \<Longrightarrow> length d \<le> unat n"
  by (auto simp: bs_read_def Let_def bs_peek_output_def bindE_eq_Inr_iff word_le_nat_alt split: if_splits)

text \<open>\<open>keeps m P\<close>: if the call \<open>m\<close> returns, its result satisfies \<open>P\<close>.\<close>

definition keeps :: "'a result \<Rightarrow> ('a \<Rightarrow> bool) \<Rightarrow> bool" where
  "keeps m P \<longleftrightarrow> (case m of Inl _ \<Rightarrow> True | Inr x \<Rightarrow> P x)"

lemma keeps_simps [simp]: "keeps (Inl e) P" "keeps (Inr x) P = P x"
  by (simp_all add: keeps_def)

lemma keepsD: "keeps m P \<Longrightarrow> m = Inr x \<Longrightarrow> P x"
  by simp

lemma keepsI: "(\<And>x. m = Inr x \<Longrightarrow> P x) \<Longrightarrow> keeps m P"
  by (cases m) simp_all

lemma keeps_bindE: "keeps m Q \<Longrightarrow> (\<And>x. Q x \<Longrightarrow> keeps (f x) P) \<Longrightarrow> keeps (bindE m f) P"
  by (cases m) simp_all

lemma snd_fill_round_small:
  assumes "snd_fill_round s = Inr (b, s')" and "snd_small s"
  shows "snd_small s'"
proof -
  from assms(1) obtain str stream where rd: "bs_read (snd_quota s) (snd_stream s) = Inr (str, stream)"
    and s': "s' = snd_after s str stream \<or>
      s' = snd_sent (snd_after s str stream) (snd_seg s str (snd_wants_fin s str stream))"
    by (auto simp: snd_fill_round_eq bindE_eq_Inr_iff Let_def split: if_splits)
  have "snd_quota s \<le> 1000" by (auto simp: snd_quota_def Let_def MAX_PAYLOAD_SIZE_def)
  then have "unat (snd_quota s) \<le> 1000" by (simp add: word_le_nat_alt)
  then have "seg_small (snd_seg s str fin)" for fin
    using bs_read_length [OF rd] by (simp add: seg_small_def snd_seg_def th_default_def)
  with s' assms(2) show ?thesis by (auto simp: snd_small_def snd_sent_def snd_after_def)
qed

lemma snd_fill_window_small: "snd_fill_window s = Inr s' \<Longrightarrow> snd_small s \<Longrightarrow> snd_small s'"
proof (induction s rule: snd_fill_window.induct)
  case (1 s)
  then show ?case
    by (subst (asm) (2) snd_fill_window.simps) (auto split: if_splits sum.splits dest: snd_fill_round_small)
qed

lemma snd_drop_acked_set: "set (snd_drop_acked isn ackno q) \<subseteq> set q"
  by (induction isn ackno q rule: snd_drop_acked.induct) auto

lemma snd_ack_received_small: "snd_small s \<Longrightarrow> snd_small (snd_ack_received ackno w s)"
  using snd_drop_acked_set [of "snd_isn s" ackno "snd_retransmission_queue s"]
  by (auto simp: snd_small_def snd_ack_received_def Let_def list_all_iff)

lemma snd_tick_small: "snd_tick ms s = Inr s' \<Longrightarrow> snd_small s \<Longrightarrow> snd_small s'"
  by (auto simp: snd_tick_def snd_retransmit_def snd_small_def Let_def split: prod.splits if_splits list.splits)

lemma snd_send_empty_small [simp]: "snd_small (snd_send_empty_segment s) = snd_small s"
  by (simp add: snd_small_def snd_send_empty_segment_def seg_small_def seg_default_def th_default_def)

lemma seg_small_stamp [simp]: "seg_small (tc_stamp r seg) = seg_small seg"
  by (simp add: seg_small_def tc_stamp_def split: option.split)

lemma tc_send_segment_small: "tc_small log c \<Longrightarrow> tc_small log (tc_send_segment c)"
  by (auto simp: tc_small_def tc_send_segment_def snd_small_def list_all_iff)

lemma tc_small_sender: "tc_small log c \<Longrightarrow> snd_small s \<Longrightarrow> tc_small log (c\<lparr>tc_sender := s\<rparr>)"
  by (simp add: tc_small_def)

lemma tc_smallD: "tc_small log c \<Longrightarrow> snd_small (tc_sender c)"
  by (simp add: tc_small_def)

lemma snd_fill_window_keeps: "snd_small s \<Longrightarrow> keeps (snd_fill_window s) snd_small"
  by (rule keepsI) (rule snd_fill_window_small)

lemma tc_fill_and_send_small: "tc_small log c \<Longrightarrow> keeps (tc_fill_and_send c) (tc_small log)"
  unfolding tc_fill_and_send_def
  by (rule keeps_bindE [OF snd_fill_window_keeps]) (simp_all add: tc_smallD tc_send_segment_small tc_small_sender)

lemma tc_small_frame [simp]:
  "tc_small log (c\<lparr>tc_receiver := r\<rparr>) = tc_small log c" "tc_small log (c\<lparr>tc_close := b\<rparr>) = tc_small log c"
  "tc_small log (c\<lparr>tc_ticks := t\<rparr>) = tc_small log c" "tc_small log (tc_set_errors c) = tc_small log c"
  "tc_small log (tc_try_close c) = tc_small log c" "tc_small log (tc_note_flags seg c) = tc_small log c"
  by (simp_all add: tc_small_def tc_set_errors_def tc_try_close_def tc_note_flags_def Let_def)

lemma tc_send_rst_small:
  assumes "tc_small log c"
  shows "tc_small log (tc_send_rst c)"
proof -
  let ?s = "snd_send_empty_segment (tc_sender c)"
  have "snd_small ?s" "snd_segments_out ?s \<noteq> []"
    using assms by (simp_all add: tc_small_def) (simp add: snd_send_empty_segment_def Let_def)
  then obtain f q where "snd_segments_out ?s = f # q" "seg_small f" "list_all seg_small q"
    "list_all seg_small (snd_retransmission_queue ?s)"
    by (cases "snd_segments_out ?s") (auto simp: snd_small_def)
  then show ?thesis using assms
    by (simp add: tc_small_def tc_send_rst_def Let_def tc_set_errors_def snd_small_def)
      (simp add: seg_small_def seg_moved_from_def buffer_str_def)
qed

lemma tc_reply_small:
  assumes "tc_small log c"
  shows "keeps (tc_reply seg c) (tc_small log)"
  unfolding tc_reply_def
proof (rule keeps_bindE [where Q = "tc_small log"])
  show "keeps (if length_in_sequence_space seg \<noteq> 0
      then bindE (snd_fill_window (tc_sender c))
             (\<lambda>s. Inr (c\<lparr>tc_sender := if snd_segments_out s = [] then snd_send_empty_segment s else s\<rparr>))
      else Inr c) (tc_small log)"
    using assms by (auto intro!: keeps_bindE [OF snd_fill_window_keeps] simp: tc_smallD tc_small_sender)
qed (auto simp: Let_def tc_smallD tc_small_sender intro!: tc_send_segment_small split: option.split)

lemma tc_segment_received_small:
  assumes "tc_small log c"
  shows "keeps (tc_segment_received iter seg c) (tc_small log)"
  unfolding tc_segment_received_def Let_def
proof (rule keeps_bindE [where Q = "tc_small log"])
  show "keeps (if tc_check_segment_in_window seg (tc_note_flags seg c)
      then bindE (rcv_segment_received iter seg (tc_receiver (tc_note_flags seg c))) (\<lambda>r. Inr (tc_note_flags seg c\<lparr>tc_receiver := r\<rparr>))
      else Inr (tc_note_flags seg c)) (tc_small log)"
    using assms by (auto intro!: keepsI simp: bindE_eq_Inr_iff)
qed (auto intro!: tc_reply_small simp: tc_small_sender tc_smallD snd_ack_received_small)

lemma tc_tick_small:
  assumes "tc_small log c"
  shows "keeps (tc_tick ms c) (tc_small log)"
  unfolding tc_tick_def Let_def
proof (rule keeps_bindE [where Q = "tc_small log"], goal_cases)
  case 1
  then show ?case using assms by (auto intro!: tc_fill_and_send_small)
next
  case (2 c)
  then show ?case
    by (intro keeps_bindE [where Q = snd_small] keepsI)
      (auto simp: tc_smallD tc_small_sender tc_send_segment_small tc_send_rst_small intro: snd_tick_small)
qed

lemma tc_write_small:
  "tc_small log c \<Longrightarrow> keeps (tc_write d c) (\<lambda>(_, c'). tc_small log c')"
  by (auto simp: tc_write_def Let_def intro!: keeps_bindE [OF tc_fill_and_send_small] tc_small_sender tc_smallD split: prod.split)

lemma tc_step_small:
  assumes "tc_small log c"
  shows "keeps (tc_step iter x (acc, log, out, c)) (\<lambda>(_, log', _, c'). tc_small log' c')"
proof (cases x)
  case (Tc_write d)
  then show ?thesis
    using assms by (auto intro!: keeps_bindE [OF tc_write_small])
next
  case Tc_pop
  then show ?thesis using assms by (auto simp: tc_small_def split: list.split)
next
  case (Tc_read n)
  then show ?thesis using assms by (auto intro!: keepsI simp: bindE_eq_Inr_iff)
qed (use assms in \<open>auto simp: tc_connect_def tc_end_input_stream_def tc_smallD
      intro!: keeps_bindE [OF tc_fill_and_send_small] keeps_bindE [OF tc_segment_received_small] keeps_bindE [OF tc_tick_small] tc_small_sender\<close>)

lemma tc_run_small:
  "tc_small log c \<Longrightarrow> keeps (tc_run iter xs (acc, log, out, c)) (\<lambda>(_, log', _, c'). tc_small log' c')"
proof (induction xs arbitrary: acc log out c)
  case (Cons x xs)
  then show ?case by (auto intro!: keeps_bindE [OF tc_step_small])
qed simp

subsection \<open>Segments on the wire\<close>

text \<open>\<open>tun_carries seg w\<close>: the bytes \<open>w\<close> are a datagram with the segment \<open>seg\<close>, whatever its addresses and ports.\<close>

definition tun_carries :: "tcp_segment \<Rightarrow> bytes \<Rightarrow> bool" where
  "tun_carries seg w \<longleftrightarrow>
     (\<exists>d p seg'. dg_parse (buffer_of w) dg_default = Inr (NoError, d) \<and> dg_payload d = [p] \<and>
        seg_parse p (ip_pseudo_cksum (dg_header d)) seg_default = Inr (NoError, seg') \<and> seg_carried seg seg')"

definition ad_ipv4 :: "fd_adapter_base \<Rightarrow> bool" where
  "ad_ipv4 a \<longleftrightarrow> (\<exists>ip port ip' port'. cfg_source (ad_config a) = inet ip port \<and> cfg_destination (ad_config a) = inet ip' port')"

lemma seg_carried_trans: "seg_carried s s' \<Longrightarrow> seg_carried s' s'' \<Longrightarrow> seg_carried s s''"
  unfolding seg_carried_def by (cases "seg_header s"; cases "seg_header s'"; cases "seg_header s''") simp

lemma tun_write_carries:
  assumes gni: "numeric_names gni" and a: "ad_ipv4 a" and fits: "seg_fits seg"
  shows "\<exists>bl seg'. tun_write gni seg a = Inr ([bl], seg', a) \<and> tun_carries seg (buffer_list_concatenate bl)"
proof -
  from a obtain ip port ip' port' where "cfg_source (ad_config a) = inet ip port" "cfg_destination (ad_config a) = inet ip' port'"
    by (auto simp: ad_ipv4_def)
  from wrap_tcp_in_ip_ok [OF this gni fits] obtain d c where
    d: "wrap_tcp_in_ip gni seg a = Inr (d, seg_between port port' seg)" "ip_wf (dg_header d)"
      "unat (ip_len (dg_header d)) = 4 * unat (ip_hlen (dg_header d)) + length (buffer_list_concatenate (dg_payload d))"
    and parse: "\<forall>b seg0. buffer_str b = buffer_list_concatenate (dg_payload d) \<longrightarrow>
      (\<exists>seg'. seg_parse b (ip_pseudo_cksum (dg_header d)) seg0 = Inr (NoError, seg') \<and>
        seg_header seg' = (seg_header (seg_between port port' seg))\<lparr>th_cksum := c\<rparr> \<and>
        buffer_str (seg_payload seg') = buffer_str (seg_payload seg))"
    by (elim exE conjE) (rule that)
  from dg_serialized [OF d(2,3)] obtain bl c' d' where d': "dg_serialize d = Inr bl"
    "dg_parse (buffer_of (buffer_list_concatenate bl)) dg_default = Inr (NoError, d')"
    "dg_header d' = (dg_header d)\<lparr>ip_cksum := c'\<rparr>"
    "buffer_list_concatenate (dg_payload d') = buffer_list_concatenate (dg_payload d)" by blast
  obtain p where p: "dg_payload d' = [p]" using dg_parse_payload [OF d'(2)] by blast
  with d'(4) have "buffer_str p = buffer_list_concatenate (dg_payload d)" by (simp add: buffer_list_concatenate_eq)
  with parse obtain seg' where seg': "seg_parse p (ip_pseudo_cksum (dg_header d)) seg_default = Inr (NoError, seg')"
    "seg_header seg' = (seg_header (seg_between port port' seg))\<lparr>th_cksum := c\<rparr>"
    "buffer_str (seg_payload seg') = buffer_str (seg_payload seg)" by blast
  then have "seg_carried seg seg'" by (simp add: seg_carried_def)
  with d'(2) p seg'(1) have "tun_carries seg (buffer_list_concatenate bl)"
    unfolding tun_carries_def by (intro exI [of _ d'] exI [of _ p] exI [of _ seg']) (simp add: d'(3))
  moreover have "tun_write gni seg a = Inr ([bl], seg_between port port' seg, a)" using d(1) d'(1) by (simp add: tun_write_def)
  ultimately show ?thesis by blast
qed

lemma tun_read_carried:
  assumes gni: "numeric_names gni" and gai: "numeric_hosts gai" and a: "ad_ipv4 a" and w: "tun_carries seg w"
  shows "\<exists>got a'. tun_read gai gni w a = Inr (got, [], a') \<and> ad_ipv4 a' \<and>
    (case got of None \<Rightarrow> True | Some seg' \<Rightarrow> seg_carried seg seg')"
proof -
  from a obtain ip port ip' port' where cfg: "cfg_source (ad_config a) = inet ip port" "cfg_destination (ad_config a) = inet ip' port'"
    by (auto simp: ad_ipv4_def)
  from w obtain d p seg' where d: "dg_parse (buffer_of w) dg_default = Inr (NoError, d)" "dg_payload d = [p]"
    "seg_parse p (ip_pseudo_cksum (dg_header d)) seg_default = Inr (NoError, seg')" "seg_carried seg seg'"
    by (auto simp: tun_carries_def)
  have inet: "ad_ipv4 (a\<lparr>ad_listen := False, ad_cfg := (ad_cfg a)\<lparr>cfg_source := inet i p, cfg_destination := inet i' p'\<rparr>\<rparr>)"
    for i p i' p' by (auto simp: ad_ipv4_def ad_config_def)
  show ?thesis
    using unwrap_connected [OF cfg gni _ d(2,3), of gai] unwrap_listening [OF cfg(1) gni gai _ d(2,3)] d(1,4) a inet
    by (cases "ad_listening a") (auto simp: tun_read_def)
qed

subsection \<open>Two hosts\<close>

text \<open>
  \<open>tun_joint gai gni ia a ib b xs A WA ys B WB\<close>: two connections that started as \<open>a\<close> and \<open>b\<close>
  have executed the calls \<open>xs\<close> and \<open>ys\<close>, their adapters are in the states \<open>A\<close> and \<open>B\<close> and have
  written the datagrams \<open>WA\<close> and \<open>WB\<close>. An owner may make calls at any time; an adapter may write
  any segment its connection has sent, also repeatedly; and it may read any datagram the other
  side has written, at any time and any number of times, giving the segment it returns, if
  any, to its connection. The adapters start with IPv4 addresses and may be listening.
\<close>

definition tc_popped :: "iteration \<Rightarrow> tc_op list \<Rightarrow> tcp_connection \<Rightarrow> tcp_segment \<Rightarrow> bool" where
  "tc_popped iter xs c seg \<longleftrightarrow>
     (case tc_run iter xs (tc_start c) of Inl _ \<Rightarrow> False | Inr (acc, log, out, c') \<Rightarrow> seg \<in> set log)"

definition tun_handed :: "tcp_segment option \<Rightarrow> tc_op list" where
  "tun_handed got = (case got of None \<Rightarrow> [] | Some seg \<Rightarrow> [Tc_segment_received seg])"

inductive tun_joint ::
  "getaddrinfo \<Rightarrow> getnameinfo \<Rightarrow> iteration \<Rightarrow> tcp_connection \<Rightarrow> iteration \<Rightarrow> tcp_connection \<Rightarrow>
   tc_op list \<Rightarrow> fd_adapter_base \<Rightarrow> bytes list \<Rightarrow> tc_op list \<Rightarrow> fd_adapter_base \<Rightarrow> bytes list \<Rightarrow> bool"
  for gai gni ia a ib b where
  tj_start: "ad_ipv4 A \<Longrightarrow> ad_ipv4 B \<Longrightarrow> tun_joint gai gni ia a ib b [] A [] [] B []"
| tj_local_a: "tun_joint gai gni ia a ib b xs A WA ys B WB \<Longrightarrow> tc_local x \<Longrightarrow>
    tun_joint gai gni ia a ib b (xs @ [x]) A WA ys B WB"
| tj_local_b: "tun_joint gai gni ia a ib b xs A WA ys B WB \<Longrightarrow> tc_local y \<Longrightarrow>
    tun_joint gai gni ia a ib b xs A WA (ys @ [y]) B WB"
| tj_write_a: "tun_joint gai gni ia a ib b xs A WA ys B WB \<Longrightarrow> tc_popped ia xs a seg \<Longrightarrow>
    tun_write gni seg A = Inr (out, seg', A') \<Longrightarrow>
    tun_joint gai gni ia a ib b xs A' (WA @ map buffer_list_concatenate out) ys B WB"
| tj_write_b: "tun_joint gai gni ia a ib b xs A WA ys B WB \<Longrightarrow> tc_popped ib ys b seg \<Longrightarrow>
    tun_write gni seg B = Inr (out, seg', B') \<Longrightarrow>
    tun_joint gai gni ia a ib b xs A WA ys B' (WB @ map buffer_list_concatenate out)"
| tj_read_a: "tun_joint gai gni ia a ib b xs A WA ys B WB \<Longrightarrow> w \<in> set WB \<Longrightarrow>
    tun_read gai gni w A = Inr (got, out, A') \<Longrightarrow>
    tun_joint gai gni ia a ib b (xs @ tun_handed got) A' WA ys B WB"
| tj_read_b: "tun_joint gai gni ia a ib b xs A WA ys B WB \<Longrightarrow> w \<in> set WA \<Longrightarrow>
    tun_read gai gni w B = Inr (got, out, B') \<Longrightarrow>
    tun_joint gai gni ia a ib b xs A WA (ys @ tun_handed got) B' WB"

lemma tun_joint_sym: "tun_joint gai gni ia a ib b xs A WA ys B WB \<Longrightarrow> tun_joint gai gni ib b ia a ys B WB xs A WA"
  by (induction rule: tun_joint.induct) (auto intro: tun_joint.intros)

text \<open>One half of the invariant: what is on the wire was sent.\<close>

definition tun_wire :: "iteration \<Rightarrow> tc_op list \<Rightarrow> tcp_connection \<Rightarrow> bytes list \<Rightarrow> bool" where
  "tun_wire iter xs c W \<longleftrightarrow> (\<forall>w \<in> set W. \<exists>seg. tc_sent iter xs c seg \<and> tun_carries seg w)"

lemma tc_sent_carried: "tc_sent iter xs c seg \<Longrightarrow> seg_carried seg seg' \<Longrightarrow> tc_sent iter xs c seg'"
  by (auto simp: tc_sent_def tc_from_def split: sum.splits intro: seg_carried_trans)

lemma tc_popped_sent: "tc_popped iter xs c seg \<Longrightarrow> tc_sent iter xs c seg"
  by (auto simp: tc_popped_def tc_sent_def tc_from_def split: sum.splits intro!: bexI seg_carried_refl)

lemma tc_popped_fits:
  assumes "tc_popped iter xs (tc_init r cfg) seg"
  shows "seg_fits seg"
proof -
  have "tc_small [] (tc_init r cfg)" by (simp add: tc_small_def snd_small_def tc_init_def snd_init_def Let_def)
  from tc_run_small [OF this, of iter xs "[]" "[]"] assms have "seg_small seg"
    by (auto simp: tc_popped_def tc_start_def tc_small_def list_all_iff split: sum.splits)
  then show ?thesis by (rule seg_small_fits)
qed

lemma tc_sent_mono:
  assumes sent: "tc_sent ia xs (tc_init ra ca) seg" and j: "joint ia (tc_init ra ca) ib (tc_init rb cb) (xs @ [x]) ys"
    and iter: "hash_order ia" "hash_order ib" and off: "tc_offered (xs @ [x]) + 2 < 2 ^ 32" "tc_offered ys + 2 < 2 ^ 32"
  shows "tc_sent ia (xs @ [x]) (tc_init ra ca) seg"
proof -
  from sent obtain acc log out c where 1: "tc_run ia xs (tc_start (tc_init ra ca)) = Inr (acc, log, out, c)" "tc_from log seg"
    using tc_sent_run by blast
  from joint_runs [OF j iter off] obtain acc' log' out' c' where
    2: "tc_run ia (xs @ [x]) (tc_start (tc_init ra ca)) = Inr (acc', log', out', c')"
    unfolding joint_ok_def by blast
  from tc_run_extend [OF 1(1) off(1) 2] 1(2) 2 show ?thesis by (auto simp: tc_sent_def tc_from_def)
qed

lemma tun_wire_mono:
  assumes "tun_wire ia xs (tc_init ra ca) W" and "joint ia (tc_init ra ca) ib (tc_init rb cb) (xs @ [x]) ys"
    and "hash_order ia" "hash_order ib" "tc_offered (xs @ [x]) + 2 < 2 ^ 32" "tc_offered ys + 2 < 2 ^ 32"
  shows "tun_wire ia (xs @ [x]) (tc_init ra ca) W"
  using assms(1) tc_sent_mono [OF _ assms(2-6)] unfolding tun_wire_def by blast

definition tun_inv :: "iteration \<Rightarrow> tcp_connection \<Rightarrow> iteration \<Rightarrow> tcp_connection \<Rightarrow> tc_op list \<Rightarrow> fd_adapter_base \<Rightarrow>
    bytes list \<Rightarrow> tc_op list \<Rightarrow> fd_adapter_base \<Rightarrow> bytes list \<Rightarrow> bool" where
  "tun_inv ia a ib b xs A WA ys B WB \<longleftrightarrow> joint ia a ib b xs ys \<and> ad_ipv4 A \<and> ad_ipv4 B \<and>
     tun_wire ia xs a WA \<and> tun_wire ib ys b WB"

lemma tun_inv_sym: "tun_inv ia a ib b xs A WA ys B WB \<Longrightarrow> tun_inv ib b ia a ys B WB xs A WA"
  by (simp add: tun_inv_def joint_sym)

lemma tun_inv_local:
  assumes "tun_inv ia (tc_init ra ca) ib (tc_init rb cb) xs A WA ys B WB" and "tc_local x"
    and "hash_order ia" "hash_order ib" "tc_offered (xs @ [x]) + 2 < 2 ^ 32" "tc_offered ys + 2 < 2 ^ 32"
  shows "tun_inv ia (tc_init ra ca) ib (tc_init rb cb) (xs @ [x]) A WA ys B WB"
proof -
  have "joint ia (tc_init ra ca) ib (tc_init rb cb) (xs @ [x]) ys"
    using assms(1,2) by (auto simp: tun_inv_def intro: joint.local_a)
  with assms(1) tun_wire_mono [OF _ this assms(3-6)] show ?thesis by (simp add: tun_inv_def)
qed

lemma tun_inv_write:
  assumes "tun_inv ia (tc_init ra ca) ib b xs A WA ys B WB" and gni: "numeric_names gni"
    and seg: "tc_popped ia xs (tc_init ra ca) seg" and wr: "tun_write gni seg A = Inr (out, seg', A')"
  shows "tun_inv ia (tc_init ra ca) ib b xs A' (WA @ map buffer_list_concatenate out) ys B WB"
proof -
  have A: "ad_ipv4 A" using assms(1) by (simp add: tun_inv_def)
  from tun_write_carries [OF gni A tc_popped_fits [OF seg]] wr obtain bl where
    "out = [bl]" "A' = A" "tun_carries seg (buffer_list_concatenate bl)" by auto
  with tc_popped_sent [OF seg] assms(1) show ?thesis by (auto simp: tun_inv_def tun_wire_def)
qed

lemma tun_inv_read:
  assumes inv: "tun_inv ia (tc_init ra ca) ib (tc_init rb cb) xs A WA ys B WB"
    and names: "numeric_names gni" "numeric_hosts gai"
    and w: "w \<in> set WB" and rd: "tun_read gai gni w A = Inr (got, out, A')"
    and "hash_order ia" "hash_order ib" "tc_offered xs + 2 < 2 ^ 32" "tc_offered ys + 2 < 2 ^ 32"
  shows "tun_inv ia (tc_init ra ca) ib (tc_init rb cb) (xs @ tun_handed got) A' WA ys B WB"
proof -
  from inv w obtain seg where seg: "tc_sent ib ys (tc_init rb cb) seg" "tun_carries seg w"
    by (auto simp: tun_inv_def tun_wire_def)
  from inv have "ad_ipv4 A" by (simp add: tun_inv_def)
  from tun_read_carried [OF names this seg(2)] rd have A': "ad_ipv4 A'"
    and got: "case got of None \<Rightarrow> True | Some seg' \<Rightarrow> seg_carried seg seg'" by auto
  show ?thesis
  proof (cases got)
    case None
    with inv A' show ?thesis by (simp add: tun_inv_def tun_handed_def)
  next
    case (Some seg')
    with got seg(1) have "tc_sent ib ys (tc_init rb cb) seg'" by (auto intro: tc_sent_carried)
    then have "joint ia (tc_init ra ca) ib (tc_init rb cb) (xs @ [Tc_segment_received seg']) ys"
      using inv by (auto simp: tun_inv_def intro: joint.b_to_a)
    with inv A' Some tun_wire_mono [OF _ this] assms(6-9) show ?thesis
      by (simp add: tun_inv_def tun_handed_def tc_offered_append)
  qed
qed

lemma tun_joint_inv:
  assumes "tun_joint gai gni ia (tc_init ra ca) ib (tc_init rb cb) xs A WA ys B WB"
    and names: "numeric_names gni" "numeric_hosts gai" and iter: "hash_order ia" "hash_order ib"
    and "tc_offered xs + 2 < 2 ^ 32" "tc_offered ys + 2 < 2 ^ 32"
  shows "tun_inv ia (tc_init ra ca) ib (tc_init rb cb) xs A WA ys B WB"
  using assms(1,6,7)
proof (induction rule: tun_joint.induct)
  case (tj_start A B)
  then show ?case by (simp add: tun_inv_def tun_wire_def joint.start)
next
  case (tj_local_a xs A WA ys B WB x)
  then have "tun_inv ia (tc_init ra ca) ib (tc_init rb cb) xs A WA ys B WB" by (simp add: tc_offered_append)
  then show ?case by (rule tun_inv_local) (use tj_local_a iter in simp_all)
next
  case (tj_local_b xs A WA ys B WB y)
  then have "tun_inv ia (tc_init ra ca) ib (tc_init rb cb) xs A WA ys B WB" by (simp add: tc_offered_append)
  from tun_inv_sym [OF this] have "tun_inv ib (tc_init rb cb) ia (tc_init ra ca) (ys @ [y]) B WB xs A WA"
    by (rule tun_inv_local) (use tj_local_b iter in simp_all)
  then show ?case by (rule tun_inv_sym)
next
  case (tj_write_a xs A WA ys B WB seg out seg' A')
  then show ?case using tun_inv_write [OF _ names(1)] by blast
next
  case (tj_write_b xs A WA ys B WB seg out seg' B')
  then have "tun_inv ia (tc_init ra ca) ib (tc_init rb cb) xs A WA ys B WB" by simp
  from tun_inv_write [OF tun_inv_sym [OF this] names(1) tj_write_b.hyps(2,3)] show ?case by (rule tun_inv_sym)
next
  case (tj_read_a xs A WA ys B WB w got out A')
  then have "tun_inv ia (tc_init ra ca) ib (tc_init rb cb) xs A WA ys B WB" by (simp add: tc_offered_append)
  then show ?case
    by (rule tun_inv_read [OF _ names]) (use tj_read_a iter in \<open>simp_all add: tc_offered_append\<close>)
next
  case (tj_read_b xs A WA ys B WB w got out B')
  then have "tun_inv ia (tc_init ra ca) ib (tc_init rb cb) xs A WA ys B WB" by (simp add: tc_offered_append)
  from tun_inv_sym [OF this] have "tun_inv ib (tc_init rb cb) ia (tc_init ra ca) (ys @ tun_handed got) B' WB xs A WA"
    by (rule tun_inv_read [OF _ names]) (use tj_read_b iter in \<open>simp_all add: tc_offered_append\<close>)
  then show ?case by (rule tun_inv_sym)
qed

lemma tun_can_write:
  "tun_inv ia (tc_init ra ca) ib b xs A WA ys B WB \<Longrightarrow> numeric_names gni \<Longrightarrow> tc_popped ia xs (tc_init ra ca) seg \<Longrightarrow>
   \<exists>r. tun_write gni seg A = Inr r"
  using tun_write_carries [of gni A seg] tc_popped_fits by (fastforce simp: tun_inv_def)

lemma tun_can_read:
  "tun_inv ia a ib b xs A WA ys B WB \<Longrightarrow> numeric_names gni \<Longrightarrow> numeric_hosts gai \<Longrightarrow> w \<in> set WB \<Longrightarrow>
   \<exists>r. tun_read gai gni w A = Inr r"
  using tun_read_carried [of gni gai A] by (fastforce simp: tun_inv_def tun_wire_def)

subsection \<open>Properties\<close>

text \<open>
  C2. TCP over IPv4 over TUN devices delivers. Two connections send their segments as IPv4
  datagrams; the network may lose, duplicate, delay and reorder the datagrams; one of the adapters
  may be listening. As long as each writer offers fewer than 2^32 - 2 bytes: every segment a
  connection has sent can be written and every datagram on the wire can be read without an
  exception; no call on a connection fails; the bytes delivered or readable at each end are a
  prefix of those written at the other; and an inbound stream that has ended is complete.
\<close>

theorem stack_delivers:
  assumes "tun_joint gai gni ia (tc_init ra ca) ib (tc_init rb cb) xs A WA ys B WB"
    and "numeric_names gni" and "numeric_hosts gai" and "hash_order ia" and "hash_order ib"
    and "tc_offered xs + 2 < 2 ^ 32" and "tc_offered ys + 2 < 2 ^ 32"
  shows "(\<forall>seg. tc_popped ia xs (tc_init ra ca) seg \<longrightarrow> (\<exists>r. tun_write gni seg A = Inr r)) \<and>
    (\<forall>seg. tc_popped ib ys (tc_init rb cb) seg \<longrightarrow> (\<exists>r. tun_write gni seg B = Inr r)) \<and>
    (\<forall>w \<in> set WB. \<exists>r. tun_read gai gni w A = Inr r) \<and> (\<forall>w \<in> set WA. \<exists>r. tun_read gai gni w B = Inr r) \<and>
    (\<exists>acc1 log1 out1 a acc2 log2 out2 b.
      tc_run ia xs (tc_start (tc_init ra ca)) = Inr (acc1, log1, out1, a) \<and>
      tc_run ib ys (tc_start (tc_init rb cb)) = Inr (acc2, log2, out2, b) \<and>
      tc_delivered acc1 a out2 b \<and> tc_delivered acc2 b out1 a)"
proof (intro conjI)
  note inv = tun_joint_inv [OF assms]
  note inv' = tun_inv_sym [OF inv]
  show "\<forall>seg. tc_popped ia xs (tc_init ra ca) seg \<longrightarrow> (\<exists>r. tun_write gni seg A = Inr r)"
    using tun_can_write [OF inv assms(2)] by blast
  show "\<forall>seg. tc_popped ib ys (tc_init rb cb) seg \<longrightarrow> (\<exists>r. tun_write gni seg B = Inr r)"
    using tun_can_write [OF inv' assms(2)] by blast
  show "\<forall>w \<in> set WB. \<exists>r. tun_read gai gni w A = Inr r" using tun_can_read [OF inv assms(2,3)] by blast
  show "\<forall>w \<in> set WA. \<exists>r. tun_read gai gni w B = Inr r" using tun_can_read [OF inv' assms(2,3)] by blast
  have "joint ia (tc_init ra ca) ib (tc_init rb cb) xs ys" using inv by (simp add: tun_inv_def)
  from joint_delivers [OF this assms(4-7)]
  show "\<exists>acc1 log1 out1 a acc2 log2 out2 b.
      tc_run ia xs (tc_start (tc_init ra ca)) = Inr (acc1, log1, out1, a) \<and>
      tc_run ib ys (tc_start (tc_init rb cb)) = Inr (acc2, log2, out2, b) \<and>
      tc_delivered acc1 a out2 b \<and> tc_delivered acc2 b out1 a" .
qed

theorem stack_delivers_witness:
  "let ra = 5; rb = 7; xs = [Tc_write [1, 2], Tc_pop]; A = ad_example False (inet 7 70) (inet 9 90);
       B = ad_example True (inet 0 90) (inet 0 0); iter = map fst
   in \<exists>WA. WA \<noteq> [] \<and>
    (\<forall>seg. tc_popped iter xs (tc_init ra cfg_default) seg \<longrightarrow> (\<exists>r. tun_write ipv4_names seg A = Inr r)) \<and>
    (\<forall>seg. tc_popped iter [] (tc_init rb cfg_default) seg \<longrightarrow> (\<exists>r. tun_write ipv4_names seg B = Inr r)) \<and>
    (\<forall>w \<in> set []. \<exists>r. tun_read ipv4_hosts ipv4_names w A = Inr r) \<and>
    (\<forall>w \<in> set WA. \<exists>r. tun_read ipv4_hosts ipv4_names w B = Inr r) \<and>
    (\<exists>acc1 log1 out1 a acc2 log2 out2 b.
      tc_run iter xs (tc_start (tc_init ra cfg_default)) = Inr (acc1, log1, out1, a) \<and>
      tc_run iter [] (tc_start (tc_init rb cfg_default)) = Inr (acc2, log2, out2, b) \<and>
      tc_delivered acc1 a out2 b \<and> tc_delivered acc2 b out1 a)"
proof -
  let ?a = "tc_init 5 cfg_default" and ?b = "tc_init 7 cfg_default" and ?xs = "[Tc_write [1, 2], Tc_pop]"
  let ?A = "ad_example False (inet 7 70) (inet 9 90)" and ?B = "ad_example True (inet 0 90) (inet 0 0)"
  let ?seg = "\<lparr>seg_header = th_default\<lparr>th_seqno := WrappingInt32 5, th_syn := True\<rparr>, seg_payload = buffer_of []\<rparr>"
  have popped: "tc_popped (map fst) ?xs ?a ?seg" by code_simp
  have ad: "ad_ipv4 ?A" "ad_ipv4 ?B" by (auto simp: ad_ipv4_def ad_example_def ad_config_def)
  from tun_write_carries [OF numeric_names_ipv4 ad(1) tc_popped_fits [OF popped]] obtain bl seg'
    where wr: "tun_write ipv4_names ?seg ?A = Inr ([bl], seg', ?A)" by blast
  have "tun_joint ipv4_hosts ipv4_names (map fst) ?a (map fst) ?b (([] @ [Tc_write [1, 2]]) @ [Tc_pop]) ?A [] [] ?B []"
    by (intro tun_joint.intros ad) simp_all
  then have "tun_joint ipv4_hosts ipv4_names (map fst) ?a (map fst) ?b ?xs ?A [] [] ?B []" by simp
  from tj_write_a [OF this popped wr]
  have j: "tun_joint ipv4_hosts ipv4_names (map fst) ?a (map fst) ?b ?xs ?A [buffer_list_concatenate bl] [] ?B []" by simp
  show ?thesis unfolding Let_def
    by (rule exI [of _ "[buffer_list_concatenate bl]"], rule conjI, simp,
        rule stack_delivers [OF j numeric_names_ipv4 numeric_hosts_ipv4])
      (simp_all add: hash_order_insertion)
qed

end
