(* ===== verification/Sponge_Delivery.thy ===== *)
theory Sponge_Delivery
  imports Sponge_Socket Stack
begin

text \<open>
  End to end: two applications talk through two \<^verbatim>\<open>TCPSpongeSocket\<close>s on TUN devices. \<open>ss_side\<close> says that
  the calls a socket has made on its connection are a run of \<open>tc_run\<close>; \<open>ss_inv\<close> adds the peer and what
  is in flight, so that the two runs and the network are one of the joint runs of \<open>Stack\<close>. Each rule of the event loop
  keeps \<open>ss_inv\<close>; the locale \<open>event_client\<close>, interpreted as \<open>sponge\<close>, lifts this to \<^verbatim>\<open>wait_next_event\<close>, and \<open>net_inv\<close> to
  the two loops in any interleaving.
\<close>

subsection \<open>The outbound stream stays open\<close>

definition tc_open :: "tcp_connection \<Rightarrow> bool" where
  "tc_open c \<longleftrightarrow> \<not> bs_end_flag (snd_stream (tc_sender c))"

lemma bs_read_end_flag: "bs_read n s = Inr (d, s') \<Longrightarrow> bs_end_flag s' = bs_end_flag s"
  by (auto simp: bs_read_def bs_pop_output_def Let_def bindE_eq_Inr_iff)

lemma snd_fill_window_end_flag:
  "snd_fill_window s = Inr s' \<Longrightarrow> bs_end_flag (snd_stream s') = bs_end_flag (snd_stream s)"
proof (induction s rule: snd_fill_window.induct)
  case (1 s)
  have round: "bs_end_flag (snd_stream s1) = bs_end_flag (snd_stream s)" if "snd_fill_round s = Inr (b, s1)" for b s1
    using that by (auto simp: snd_fill_round_eq bindE_eq_Inr_iff Let_def snd_after_def snd_sent_def split: if_splits dest: bs_read_end_flag)
  show ?case
  proof (cases "snd_window_left s \<noteq> 0 \<and> snd_st s \<noteq> FIN_SENT")
    case True
    with "1.prems" obtain b s1 where r: "snd_fill_round s = Inr (b, s1)" and s1: "if b then snd_fill_window s1 = Inr s' else s' = s1"
      by (auto simp: snd_fill_window.simps [of s] split: sum.splits if_splits)
    show ?thesis using round [OF r] s1 "1.IH" [OF True r refl] by (cases b) simp_all
  next
    case False
    with "1.prems" show ?thesis by (simp add: snd_fill_window.simps [of s] split: if_splits)
  qed
qed

lemma tc_fill_and_send_open: "keeps (tc_fill_and_send c) (\<lambda>c'. tc_open c' = tc_open c)"
  by (rule keepsI) (auto simp: tc_fill_and_send_def bindE_eq_Inr_iff tc_send_segment_def tc_open_def dest: snd_fill_window_end_flag)

lemma snd_ack_received_stream [simp]: "snd_stream (snd_ack_received ackno w s) = snd_stream s"
  by (simp add: snd_ack_received_def Let_def)

lemma snd_send_empty_stream [simp]: "snd_stream (snd_send_empty_segment s) = snd_stream s"
  by (simp add: snd_send_empty_segment_def Let_def)

lemma snd_tick_stream: "snd_tick ms s = Inr s' \<Longrightarrow> snd_stream s' = snd_stream s"
  by (auto simp: snd_tick_def snd_retransmit_def Let_def split: prod.splits if_splits list.splits)

lemma tc_open_frame [simp]:
  "tc_open (c\<lparr>tc_receiver := r\<rparr>) = tc_open c" "tc_open (c\<lparr>tc_ticks := n\<rparr>) = tc_open c" "tc_open (c\<lparr>tc_segments_out := q\<rparr>) = tc_open c"
  "tc_open (tc_send_segment c) = tc_open c" "tc_open (tc_try_close c) = tc_open c" "tc_open (tc_note_flags seg c) = tc_open c"
  "tc_open (tc_send_rst c) = tc_open c"
  by (simp_all add: tc_open_def tc_send_segment_def tc_note_flags_def tc_set_errors_def tc_send_rst_def Let_def)

lemma tc_open_sender: "snd_stream s = snd_stream (tc_sender c) \<Longrightarrow> tc_open (c\<lparr>tc_sender := s\<rparr>) = tc_open c"
  by (simp add: tc_open_def)

lemma tc_reply_open: "keeps (tc_reply seg c) (\<lambda>c'. tc_open c' = tc_open c)"
  by (rule keepsI) (auto simp: tc_reply_def bindE_eq_Inr_iff Let_def tc_open_def tc_send_segment_def
      split: if_splits option.splits dest: snd_fill_window_end_flag)

lemma tc_segment_received_open: "keeps (tc_segment_received iter seg c) (\<lambda>c'. tc_open c' = tc_open c)"
proof (rule keepsI)
  fix c' assume "tc_segment_received iter seg c = Inr c'"
  then obtain c1 where c1: "tc_reply seg c1 = Inr c'" "snd_stream (tc_sender c1) = snd_stream (tc_sender (tc_note_flags seg c))"
    by (auto simp: tc_segment_received_def Let_def bindE_eq_Inr_iff split: if_splits)
  have "tc_open c1 = tc_open (tc_note_flags seg c)" unfolding tc_open_def c1(2) ..
  with keepsD [OF tc_reply_open c1(1)] show "tc_open c' = tc_open c" by simp
qed

lemma tc_tick_open: "keeps (tc_tick ms c) (\<lambda>c'. tc_open c' = tc_open c)"
  unfolding tc_tick_def Let_def
proof (rule keeps_bindE [where Q = "\<lambda>c'. tc_open c' = tc_open c"], goal_cases)
  case 1
  then show ?case using tc_fill_and_send_open [of "c\<lparr>tc_ticks := tc_ticks c + ms\<rparr>"] by simp
next
  case (2 c1)
  then show ?case
    by (intro keeps_bindE [where Q = "\<lambda>s. snd_stream s = snd_stream (tc_sender c1)"] keepsI)
      (auto simp: snd_tick_stream tc_open_sender split: if_splits)
qed

lemma tc_step_open:
  assumes "tc_step iter x (acc, log, out, c) = Inr (acc', log', out', c')" and "x \<noteq> Tc_end_input_stream"
  shows "tc_open c' = tc_open c"
proof (cases x)
  case (Tc_write d)
  have "tc_open (c\<lparr>tc_sender := (tc_sender c)\<lparr>snd_stream := snd (bs_write d (snd_stream (tc_sender c)))\<rparr>\<rparr>) = tc_open c" by (simp add: tc_open_def)
  with Tc_write assms show ?thesis
    using keepsD [OF tc_fill_and_send_open] by (fastforce simp: tc_write_def Let_def bindE_eq_Inr_iff split_beta)
next
  case Tc_pop
  with assms show ?thesis by (auto split: list.splits)
qed (use assms keepsD [OF tc_fill_and_send_open] keepsD [OF tc_segment_received_open] keepsD [OF tc_tick_open] in
    \<open>auto simp: tc_connect_def bindE_eq_Inr_iff\<close>)

lemma tc_open_init [simp]: "tc_open (tc_init random cfg)"
  by (simp add: tc_open_def tc_init_def snd_init_def bs_init_def Let_def)

lemma tc_run_open:
  "tc_run iter xs (acc, log, out, c) = Inr (acc', log', out', c') \<Longrightarrow> Tc_end_input_stream \<notin> set xs \<Longrightarrow> tc_open c' = tc_open c"
  by (induction xs arbitrary: acc log out c) (auto simp: bindE_eq_Inr_iff dest: tc_step_open)

lemma tc_write_accepts:
  assumes "tc_open c" and "length d \<le> unat (tc_remaining_outbound_capacity c)" and "tc_write d c = Inr (n, c')"
  shows "n = sz d"
proof -
  have len: "length d < 2 ^ 64" using assms(2) unat_u64_lt [of "tc_remaining_outbound_capacity c"] by simp
  have "n = fst (bs_write d (snd_stream (tc_sender c)))" using assms(3) by (auto simp: tc_write_def Let_def bindE_eq_Inr_iff split_beta)
  then have "unat n = length d"
    using bs_write_count [OF len] assms(1,2) by (simp add: tc_open_def tc_remaining_outbound_capacity_def bs_room_def)
  then show ?thesis by (metis of_nat_unat_u64 sz_def)
qed

subsection \<open>Datagrams are small\<close>

lemma length_str_resize [simp]: "length (str_resize n s) = n"
  by (simp add: str_resize_def)

lemma ip_serialize_length: "ip_serialize h = Inr hdr \<Longrightarrow> length hdr = 4 * unat (ip_hlen h)"
  by (auto simp: ip_serialize_def Let_def split: if_splits)

lemma dg_serialize_small:
  assumes "dg_serialize d = Inr bl"
  shows "length (buffer_list_concatenate bl) < 2 ^ 31"
proof -
  have pay: "buffer_list_size (dg_payload d) = unat (ip_payload_length (dg_header d))"
    using assms unfolding dg_serialize_def by (metis Inl_Inr_False)
  obtain hdr h where hdr: "ip_serialize h = Inr hdr" and bl: "bl = [buffer_of hdr] @ dg_payload d"
    using assms pay unfolding dg_serialize_def by (auto simp: Let_def bindE_eq_Inr_iff)
  have "length hdr < 2000" using ip_serialize_length [OF hdr] unat_u8_lt [of "ip_hlen h"] by simp
  moreover have "length (buffer_list_concatenate (dg_payload d)) < 65536"
    using pay unat_u16_lt [of "ip_payload_length (dg_header d)"] by (simp only: buffer_list_size_eq)
  moreover have "length (buffer_list_concatenate bl) = length hdr + length (buffer_list_concatenate (dg_payload d))" by (simp add: bl)
  ultimately show ?thesis by simp
qed

lemma tun_write_small: "tun_write gni seg a = Inr (out, seg', a') \<Longrightarrow> \<exists>bl. out = [bl] \<and> a' = a \<and> length (buffer_list_concatenate bl) < 2 ^ 31"
  by (auto simp: tun_write_def bindE_eq_Inr_iff dest: dg_serialize_small)

subsection \<open>Hosts\<close>

text \<open>
  A host: its kernel with the clock, what its socket is configured with, the descriptors of the
  thread's end of the socket pair and of the TUN device, and how the kernel state is observed.
  \<open>hs_inbox\<close> are the datagrams the device may hand out. \<open>hs_ok\<close> is any property of kernel states
  that says that the application has written, and will write, fewer than 2^32 - 2 bytes.
\<close>

record 'w host =
  hs_sys :: "'w posix"
  hs_clock :: "'w \<Rightarrow> u64 \<times> 'w"
  hs_iter :: iteration
  hs_random :: u32
  hs_tcp :: tcp_config
  hs_pipe :: int
  hs_dev :: int
  hs_traffic :: "'w traffic"
  hs_inbox :: "'w \<Rightarrow> bytes set"
  hs_ok :: "'w \<Rightarrow> bool"

abbreviation hs_start :: "'w host \<Rightarrow> tcp_connection" where
  "hs_start h \<equiv> tc_init (hs_random h) (hs_tcp h)"

abbreviation hs_calls :: "getaddrinfo \<Rightarrow> getnameinfo \<Rightarrow> 'w host \<Rightarrow> (fd_adapter_base, 'w) adapter_calls" where
  "hs_calls gai gni h \<equiv> tun_calls (hs_sys h) gai gni"

abbreviation hs_from_app :: "'w host \<Rightarrow> 'w \<Rightarrow> bytes" where
  "hs_from_app h w \<equiv> concat (taken (hs_traffic h) (hs_pipe h) w)"

abbreviation hs_to_app :: "'w host \<Rightarrow> 'w \<Rightarrow> bytes" where
  "hs_to_app h w \<equiv> concat (given (hs_traffic h) (hs_pipe h) w)"

abbreviation hs_wire :: "'w host \<Rightarrow> 'w \<Rightarrow> bytes list" where
  "hs_wire h w \<equiv> given (hs_traffic h) (hs_dev h) w"

definition host_step :: "'w host \<Rightarrow> 'w \<Rightarrow> 'w \<Rightarrow> bool" where
  "host_step h w w' \<longleftrightarrow> (hs_ok h w \<longrightarrow> hs_ok h w') \<and> hs_inbox h w' \<subseteq> hs_inbox h w"

text \<open>
  What is relied on: the calls are those of a POSIX kernel; the device hands out datagrams of the
  inbox, each as a whole, and takes a write as a whole or not at all; reading the clock transfers nothing.
\<close>

definition host_kernel :: "'w host \<Rightarrow> bool" where
  "host_kernel h \<longleftrightarrow> posix_io (hs_sys h) (hs_traffic h) \<and> hs_pipe h \<noteq> hs_dev h \<and> hash_order (hs_iter h) \<and>
     (\<forall>fd n w. host_step h w (snd (snd (px_read (hs_sys h) fd n w)))) \<and>
     (\<forall>fd iov w. host_step h w (snd (px_writev (hs_sys h) fd iov w))) \<and>
     (\<forall>fd how w. host_step h w (snd (px_shutdown (hs_sys h) fd how w))) \<and>
     (\<forall>fds ms w. host_step h w (snd (snd (px_poll (hs_sys h) fds ms w)))) \<and>
     (\<forall>w. host_step h w (snd (hs_clock h w)) \<and> quiet (hs_traffic h) w (snd (hs_clock h w))) \<and>
     (\<forall>n w. 65536 \<le> n \<longrightarrow> 0 \<le> fst (px_read (hs_sys h) (hs_dev h) n w) \<longrightarrow>
        fst (snd (px_read (hs_sys h) (hs_dev h) n w)) \<in> hs_inbox h w) \<and>
     (\<forall>iov w. fst (px_writev (hs_sys h) (hs_dev h) iov w) < 0 \<or>
        fst (px_writev (hs_sys h) (hs_dev h) iov w) = int (length (concat (map fst iov)))) \<and>
     (\<forall>w. hs_ok h w \<longrightarrow> length (hs_from_app h w) + 2 < 2 ^ 32)"

lemma host_step_refl [simp]: "host_step h w w"
  by (simp add: host_step_def)

lemma host_step_trans: "host_step h w w' \<Longrightarrow> host_step h w' w'' \<Longrightarrow> host_step h w w''"
  by (auto simp: host_step_def)

subsection \<open>One socket and its peer\<close>

text \<open>
  The socket \<open>s\<close> of the host \<open>h\<close> has made the calls \<open>xs\<close> on its connection: what the connection has
  accepted is what was read from the application, and what was read from it went to the application.
\<close>

definition ss_side :: "'w host \<Rightarrow> tc_op list \<Rightarrow> (fd_adapter_base, 'w) sponge_socket \<Rightarrow> bool" where
  "ss_side h xs s \<longleftrightarrow> fdw_fd (ss_thread_data s) = hs_pipe h \<and> fdw_fd (ss_device s) = hs_dev h \<and> hs_ok h (ss_world s) \<and>
     tc_offered xs = length (hs_from_app h (ss_world s)) \<and> (Tc_end_input_stream \<in> set xs \<longrightarrow> ss_outbound_shutdown s) \<and>
     (\<exists>log c. ss_tcp s = Some c \<and>
        tc_run (hs_iter h) xs (tc_start (hs_start h)) = Inr (hs_from_app h (ss_world s), log, hs_to_app h (ss_world s), c))"

text \<open>The peer, which stands still during a turn of the socket; \<open>pe_seen\<close> are datagrams it has already been sent.\<close>

record peer =
  pe_iter :: iteration
  pe_random :: u32
  pe_tcp :: tcp_config
  pe_ops :: "tc_op list"
  pe_adapter :: fd_adapter_base
  pe_wire :: "bytes list"
  pe_seen :: "bytes list"

abbreviation pe_joint ::
  "getaddrinfo \<Rightarrow> getnameinfo \<Rightarrow> 'w host \<Rightarrow> peer \<Rightarrow> tc_op list \<Rightarrow> fd_adapter_base \<Rightarrow> bytes list \<Rightarrow> bool" where
  "pe_joint gai gni h p xs A W \<equiv>
     tun_joint gai gni (hs_iter h) (hs_start h) (pe_iter p) (tc_init (pe_random p) (pe_tcp p)) xs A W (pe_ops p) (pe_adapter p) (pe_wire p)"

definition ss_linked ::
  "getaddrinfo \<Rightarrow> getnameinfo \<Rightarrow> 'w host \<Rightarrow> peer \<Rightarrow> tc_op list \<Rightarrow> (fd_adapter_base, 'w) sponge_socket \<Rightarrow> bool" where
  "ss_linked gai gni h p xs s \<longleftrightarrow> pe_joint gai gni h p xs (ss_adapter s) (hs_wire h (ss_world s)) \<and>
     hs_inbox h (ss_world s) \<subseteq> set (pe_wire p) \<and> set (pe_seen p) \<subseteq> set (hs_wire h (ss_world s))"

definition ss_setting :: "getaddrinfo \<Rightarrow> getnameinfo \<Rightarrow> 'w host \<Rightarrow> peer \<Rightarrow> bool" where
  "ss_setting gai gni h p \<longleftrightarrow> host_kernel h \<and> numeric_names gni \<and> numeric_hosts gai \<and> hash_order (pe_iter p) \<and>
     tc_offered (pe_ops p) + 2 < 2 ^ 32"

definition ss_inv :: "getaddrinfo \<Rightarrow> getnameinfo \<Rightarrow> 'w host \<Rightarrow> peer \<Rightarrow> (fd_adapter_base, 'w) sponge_socket \<Rightarrow> bool" where
  "ss_inv gai gni h p s \<longleftrightarrow> ss_setting gai gni h p \<and> (\<exists>xs. ss_side h xs s \<and> ss_linked gai gni h p xs s)"

lemma ss_sideD:
  assumes "ss_side h xs s" and "host_kernel h"
  shows "tc_offered xs + 2 < 2 ^ 32" and "fdw_fd (ss_thread_data s) = hs_pipe h" and "fdw_fd (ss_device s) = hs_dev h"
  using assms by (simp_all add: ss_side_def host_kernel_def)

text \<open>A change that neither transfers bytes nor touches the connection or the adapter.\<close>

lemma ss_inv_frame:
  assumes inv: "ss_inv gai gni h p s" and same: "ss_tcp s' = ss_tcp s" "ss_adapter s' = ss_adapter s"
      "fdw_fd (ss_thread_data s') = fdw_fd (ss_thread_data s)" "fdw_fd (ss_device s') = fdw_fd (ss_device s)"
    and "ss_outbound_shutdown s \<longrightarrow> ss_outbound_shutdown s'"
    and "quiet (hs_traffic h) (ss_world s) (ss_world s')" "host_step h (ss_world s) (ss_world s')"
  shows "ss_inv gai gni h p s'"
proof -
  from inv obtain xs where "ss_side h xs s" "ss_linked gai gni h p xs s" "ss_setting gai gni h p" by (auto simp: ss_inv_def)
  moreover from this assms have "ss_side h xs s'" by (auto simp: ss_side_def quiet_def host_step_def)
  moreover from calculation assms have "ss_linked gai gni h p xs s'" by (auto simp: ss_linked_def quiet_def host_step_def)
  ultimately show ?thesis by (auto simp: ss_inv_def)
qed

lemma ss_inv_conn:
  assumes "ss_inv gai gni h p s"
  obtains c where "ss_tcp s = Some c" "ss_conn s = Inr c" "ss_value s = Inr c"
  using assms by (auto simp: ss_inv_def ss_side_def ss_conn_def ss_value_def)

text \<open>The history of the two sides has the invariant of the stack, so the next call is defined.\<close>

lemma pe_joint_inv:
  assumes "ss_setting gai gni h p" and "pe_joint gai gni h p xs A W" and "tc_offered xs + 2 < 2 ^ 32"
  shows "tun_inv (hs_iter h) (hs_start h) (pe_iter p) (tc_init (pe_random p) (pe_tcp p)) xs A W (pe_ops p) (pe_adapter p) (pe_wire p)"
  using assms by (intro tun_joint_inv [where gai = gai and gni = gni]) (simp_all add: ss_setting_def host_kernel_def)

lemma ss_step_defined:
  assumes set: "ss_setting gai gni h p" and joint: "pe_joint gai gni h p (xs @ [x]) A W" and off: "tc_offered (xs @ [x]) + 2 < 2 ^ 32"
    and run: "tc_run (hs_iter h) xs (tc_start (hs_start h)) = Inr st"
  shows "\<exists>st'. tc_step (hs_iter h) x st = Inr st' \<and> tc_run (hs_iter h) (xs @ [x]) (tc_start (hs_start h)) = Inr st'"
proof -
  have "joint (hs_iter h) (hs_start h) (pe_iter p) (tc_init (pe_random p) (pe_tcp p)) (xs @ [x]) (pe_ops p)"
    using pe_joint_inv [OF set joint off] by (simp add: tun_inv_def)
  from joint_runs [OF this] set off obtain st' where st': "tc_run (hs_iter h) (xs @ [x]) (tc_start (hs_start h)) = Inr st'"
    by (auto simp: joint_ok_def ss_setting_def host_kernel_def)
  moreover from this run have "tc_step (hs_iter h) x st = Inr st'" by (auto simp: tc_run_append bindE_eq_Inr_iff)
  ultimately show ?thesis by blast
qed

lemma ss_peer_defined:
  assumes "ss_inv gai gni h p s"
  shows "\<exists>name. ss_peer (hs_calls gai gni h) gni s = Inr name"
proof -
  from assms obtain xs where xs: "ss_side h xs s" "ss_linked gai gni h p xs s" and set: "ss_setting gai gni h p" by (auto simp: ss_inv_def)
  have "ad_ipv4 (ss_adapter s)"
    using pe_joint_inv [OF set, of xs] ss_sideD(1) [OF xs(1)] xs(2) set by (auto simp: ss_linked_def tun_inv_def ss_setting_def)
  with set show ?thesis
    by (auto simp: ss_peer_def tun_calls_def ad_ipv4_def addr_to_string_def addr_ip_port_inet ss_setting_def)
qed

subsection \<open>The rules keep the invariant\<close>

lemma host_kernelD:
  assumes "host_kernel h"
  shows "posix_io (hs_sys h) (hs_traffic h)" "hs_pipe h \<noteq> hs_dev h" "hash_order (hs_iter h)"
    "host_step h w (snd (snd (px_read (hs_sys h) fd n w)))" "host_step h w (snd (px_writev (hs_sys h) fd iov w))"
    "host_step h w (snd (px_shutdown (hs_sys h) fd how w))" "host_step h w (snd (snd (px_poll (hs_sys h) fds ms w)))"
    "host_step h w (snd (hs_clock h w))" "quiet (hs_traffic h) w (snd (hs_clock h w))"
    "65536 \<le> n \<Longrightarrow> 0 \<le> fst (px_read (hs_sys h) (hs_dev h) n w) \<Longrightarrow> fst (snd (px_read (hs_sys h) (hs_dev h) n w)) \<in> hs_inbox h w"
    "fst (px_writev (hs_sys h) (hs_dev h) iov w) < 0 \<or> fst (px_writev (hs_sys h) (hs_dev h) iov w) = int (length (concat (map fst iov)))"
    "hs_ok h w \<Longrightarrow> length (hs_from_app h w) + 2 < 2 ^ 32"
  using assms unfolding host_kernel_def by blast+

lemma ss_invE:
  assumes "ss_inv gai gni h p s"
  obtains xs log c where "ss_setting gai gni h p" "host_kernel h" "ss_tcp s = Some c" "hs_ok h (ss_world s)"
    "tc_run (hs_iter h) xs (tc_start (hs_start h)) = Inr (hs_from_app h (ss_world s), log, hs_to_app h (ss_world s), c)"
    "tc_offered xs = length (hs_from_app h (ss_world s))" "tc_offered xs + 2 < 2 ^ 32"
    "Tc_end_input_stream \<in> set xs \<longrightarrow> ss_outbound_shutdown s"
    "fdw_fd (ss_thread_data s) = hs_pipe h" "fdw_fd (ss_device s) = hs_dev h"
    "pe_joint gai gni h p xs (ss_adapter s) (hs_wire h (ss_world s))"
    "hs_inbox h (ss_world s) \<subseteq> set (pe_wire p)" "set (pe_seen p) \<subseteq> set (hs_wire h (ss_world s))"
proof -
  from assms obtain xs where set: "ss_setting gai gni h p" and xs: "ss_side h xs s" "ss_linked gai gni h p xs s" by (auto simp: ss_inv_def)
  then have k: "host_kernel h" by (simp add: ss_setting_def)
  from xs(1) obtain log c where c: "ss_tcp s = Some c"
    and run: "tc_run (hs_iter h) xs (tc_start (hs_start h)) = Inr (hs_from_app h (ss_world s), log, hs_to_app h (ss_world s), c)"
    by (auto simp: ss_side_def)
  have side: "hs_ok h (ss_world s)" "tc_offered xs = length (hs_from_app h (ss_world s))" "Tc_end_input_stream \<in> set xs \<longrightarrow> ss_outbound_shutdown s"
    using xs(1) unfolding ss_side_def by blast+
  have linked: "pe_joint gai gni h p xs (ss_adapter s) (hs_wire h (ss_world s))"
    "hs_inbox h (ss_world s) \<subseteq> set (pe_wire p)" "set (pe_seen p) \<subseteq> set (hs_wire h (ss_world s))"
    using xs(2) unfolding ss_linked_def by blast+
  show ?thesis by (rule that [OF set k c side(1) run side(2) ss_sideD(1) [OF xs(1) k] side(3) ss_sideD(2,3) [OF xs(1) k] linked])
qed

lemma ss_invI:
  assumes "ss_setting gai gni h p" "ss_tcp s = Some c" "hs_ok h (ss_world s)"
    "tc_run (hs_iter h) xs (tc_start (hs_start h)) = Inr (hs_from_app h (ss_world s), log, hs_to_app h (ss_world s), c)"
    "tc_offered xs = length (hs_from_app h (ss_world s))" "Tc_end_input_stream \<in> set xs \<longrightarrow> ss_outbound_shutdown s"
    "fdw_fd (ss_thread_data s) = hs_pipe h" "fdw_fd (ss_device s) = hs_dev h"
    "pe_joint gai gni h p xs (ss_adapter s) (hs_wire h (ss_world s))"
    "hs_inbox h (ss_world s) \<subseteq> set (pe_wire p)" "set (pe_seen p) \<subseteq> set (hs_wire h (ss_world s))"
  shows "ss_inv gai gni h p s"
  using assms unfolding ss_inv_def ss_side_def ss_linked_def by blast

lemma ss_note_acked_keeps:
  assumes inv: "ss_inv gai gni h p s"
  shows "\<exists>b. ss_note_acked (hs_calls gai gni h) gni s = Inr (s\<lparr>ss_fully_acked := b\<rparr>)"
proof -
  from inv obtain c where c: "ss_value s = Inr c" by (rule ss_inv_conn)
  from ss_peer_defined [OF inv] obtain name where name: "ss_peer (hs_calls gai gni h) gni s = Inr name" by blast
  let ?b = "fd_eof (ss_thread_data s) \<and> tc_bytes_in_flight c = 0 \<or> ss_fully_acked s"
  show ?thesis by (rule exI [of _ ?b]) (cases "ss_fully_acked s"; simp add: ss_note_acked_def c name)
qed

lemma ss_inv_acked [simp]: "ss_inv gai gni h p (s\<lparr>ss_fully_acked := b\<rparr>) = ss_inv gai gni h p s"
  by (simp add: ss_inv_def ss_side_def ss_linked_def)

text \<open>The device hands out a datagram of the peer.\<close>

lemma device_read:
  assumes k: "host_kernel h" and f: "fdw_fd f = hs_dev h"
  shows "outcome system_error (\<lambda>(d, f', w'). d \<in> hs_inbox h w \<and> host_step h w w' \<and> fdw_fd f' = fdw_fd f \<and>
      fdw_read_count f' = fdw_read_count f + 1 \<and> (\<forall>x. given (hs_traffic h) x w' = given (hs_traffic h) x w) \<and>
      taken (hs_traffic h) (hs_pipe h) w' = taken (hs_traffic h) (hs_pipe h) w) (file_recv (hs_sys h) f w)"
proof -
  let ?n = "unat BUFFER_SIZE"
  have n: "65536 \<le> ?n" by (simp add: BUFFER_SIZE_def)
  have "hs_pipe h \<noteq> fdw_fd f" using host_kernelD(2) [OF k] f by simp
  moreover have "d \<in> hs_inbox h w \<and> host_step h w w'" if "px_read (hs_sys h) (fdw_fd f) ?n w = (ret, d, w')" "0 \<le> ret" for ret d w'
    using host_kernelD(10) [OF k n, of w] host_kernelD(4) [OF k, of w "fdw_fd f" ?n] that f by simp
  ultimately show ?thesis unfolding file_recv_def
    by (intro outcome_mono [OF fd_read_ok [OF host_kernelD(1) [OF k], of "- 1" f w]]) (auto simp: fd_register_read_def)
qed

lemma tun_read_out: "tun_read gai gni d a = Inr (got, out, a') \<Longrightarrow> out = []"
  by (auto simp: tun_read_def bindE_eq_Inr_iff split: if_splits)

text \<open>What the adapter returns is given to the connection.\<close>

lemma ss_inv_read:
  assumes inv: "ss_inv gai gni h p s" and d: "d \<in> hs_inbox h (ss_world s)"
    and f: "fdw_fd f = fdw_fd (ss_device s)" and w: "host_step h (ss_world s) w"
      "\<And>x. given (hs_traffic h) x w = given (hs_traffic h) x (ss_world s)" "taken (hs_traffic h) (hs_pipe h) w = taken (hs_traffic h) (hs_pipe h) (ss_world s)"
  shows "\<exists>got a c. tun_read gai gni d (ss_adapter s) = Inr (got, [], a) \<and> ss_tcp s = Some c \<and>
    ensures (case got of None \<Rightarrow> Inr c | Some seg \<Rightarrow> tc_segment_received (hs_iter h) seg c)
      (\<lambda>c. ss_inv gai gni h p (s\<lparr>ss_adapter := a, ss_device := f, ss_world := w, ss_tcp := Some c\<rparr>))"
proof -
  from inv obtain xs log c where i: "ss_setting gai gni h p" "host_kernel h" "ss_tcp s = Some c" "hs_ok h (ss_world s)"
    "tc_run (hs_iter h) xs (tc_start (hs_start h)) = Inr (hs_from_app h (ss_world s), log, hs_to_app h (ss_world s), c)"
    "tc_offered xs = length (hs_from_app h (ss_world s))" "tc_offered xs + 2 < 2 ^ 32"
    "Tc_end_input_stream \<in> set xs \<longrightarrow> ss_outbound_shutdown s"
    "fdw_fd (ss_thread_data s) = hs_pipe h" "fdw_fd (ss_device s) = hs_dev h"
    "pe_joint gai gni h p xs (ss_adapter s) (hs_wire h (ss_world s))"
    "hs_inbox h (ss_world s) \<subseteq> set (pe_wire p)" "set (pe_seen p) \<subseteq> set (hs_wire h (ss_world s))" by (rule ss_invE)
  have names: "numeric_names gni" "numeric_hosts gai" using i(1) by (simp_all add: ss_setting_def)
  have wire: "d \<in> set (pe_wire p)" using d i(12) by blast
  from tun_can_read [OF pe_joint_inv [OF i(1,11,7)] names wire] obtain got a where rd: "tun_read gai gni d (ss_adapter s) = Inr (got, [], a)"
    using tun_read_out by (metis prod_cases3)
  note joint = tj_read_a [OF i(11) wire rd]
  have keep: "ss_inv gai gni h p (s\<lparr>ss_adapter := a, ss_device := f, ss_world := w, ss_tcp := Some c'\<rparr>)"
    if "tc_run (hs_iter h) (xs @ tun_handed got) (tc_start (hs_start h)) = Inr (hs_from_app h (ss_world s), log', hs_to_app h (ss_world s), c')" for c' log'
    by (rule ss_invI [OF i(1), where c = c' and xs = "xs @ tun_handed got" and log = log'])
      (use i joint that f w in \<open>auto simp: host_step_def tun_handed_def tc_offered_append split: option.splits\<close>)
  have "ensures (case got of None \<Rightarrow> Inr c | Some seg \<Rightarrow> tc_segment_received (hs_iter h) seg c)
      (\<lambda>c. ss_inv gai gni h p (s\<lparr>ss_adapter := a, ss_device := f, ss_world := w, ss_tcp := Some c\<rparr>))"
  proof (cases got)
    case None
    with keep i(5) show ?thesis by (simp add: tun_handed_def)
  next
    case (Some seg)
    then have x: "tun_handed got = [Tc_segment_received seg]" by (simp add: tun_handed_def)
    have "tc_offered (xs @ [Tc_segment_received seg]) + 2 < 2 ^ 32" using i(7) by (simp add: tc_offered_append)
    from ss_step_defined [OF i(1) joint [unfolded x] this i(5)] keep Some x show ?thesis
      by (auto simp: bindE_eq_Inr_iff)
  qed
  with rd i(3) show ?thesis by blast
qed

lemma ss_read_datagram_keeps:
  assumes inv: "ss_inv gai gni h p s"
  shows "outcome system_error (\<lambda>s'. ss_inv gai gni h p s' \<and> ss_outbound_shutdown s' = ss_outbound_shutdown s \<and>
      fdw_read_count (ss_device s') = fdw_read_count (ss_device s) + 1) (ss_read_datagram (hs_calls gai gni h) gni (hs_iter h) s)"
proof -
  have k: "host_kernel h" and f: "fdw_fd (ss_device s) = hs_dev h" using inv by (auto elim: ss_invE)
  note rd = device_read [OF k f, of "ss_world s"]
  show ?thesis
  proof (cases "file_recv (hs_sys h) (ss_device s) (ss_world s)")
    case (Inl e)
    with rd show ?thesis by (simp add: ss_read_datagram_def tun_calls_def dev_read_def)
  next
    case (Inr x)
    obtain d f w where x: "x = (d, f, w)" by (cases x)
    with rd Inr have d: "d \<in> hs_inbox h (ss_world s)" "host_step h (ss_world s) w" "fdw_fd f = fdw_fd (ss_device s)"
      "fdw_read_count f = fdw_read_count (ss_device s) + 1" "\<And>x. given (hs_traffic h) x w = given (hs_traffic h) x (ss_world s)"
      "taken (hs_traffic h) (hs_pipe h) w = taken (hs_traffic h) (hs_pipe h) (ss_world s)" by auto
    from ss_inv_read [OF inv d(1,3,2,5,6)] obtain got a c c' where got: "tun_read gai gni d (ss_adapter s) = Inr (got, [], a)" "ss_tcp s = Some c"
      "(case got of None \<Rightarrow> Inr c | Some seg \<Rightarrow> tc_segment_received (hs_iter h) seg c) = Inr c'"
      and inv': "ss_inv gai gni h p (s\<lparr>ss_adapter := a, ss_device := f, ss_world := w, ss_tcp := Some c'\<rparr>)"
      by (auto simp: ensures_iff)
    let ?s = "s\<lparr>ss_adapter := a, ss_device := f, ss_world := w, ss_tcp := Some c'\<rparr>"
    from ss_note_acked_keeps [OF inv'] obtain b where b: "ss_note_acked (hs_calls gai gni h) gni ?s = Inr (?s\<lparr>ss_fully_acked := b\<rparr>)" by blast
    have "ss_read_datagram (hs_calls gai gni h) gni (hs_iter h) s = ss_note_acked (hs_calls gai gni h) gni ?s"
    proof (cases got)
      case None
      with got(2,3) have "s\<lparr>ss_adapter := a, ss_device := f, ss_world := w\<rparr> = ?s" by (cases s) simp
      with None Inr x got(1) show ?thesis by (simp add: ss_read_datagram_def tun_calls_def dev_read_def)
    next
      case (Some seg)
      with Inr x got show ?thesis by (simp add: ss_read_datagram_def tun_calls_def dev_read_def ss_conn_def)
    qed
    with b inv' d(4) show ?thesis by simp
  qed
qed

text \<open>A call of the socket on its connection, with what the kernel has transferred for it.\<close>

definition ss_follows ::
  "getaddrinfo \<Rightarrow> getnameinfo \<Rightarrow> 'w host \<Rightarrow> peer \<Rightarrow> (fd_adapter_base, 'w) sponge_socket \<Rightarrow> tc_op \<Rightarrow> 'w \<Rightarrow> tc_history \<Rightarrow> bool" where
  "ss_follows gai gni h p s x w st \<longleftrightarrow>
     (\<forall>log c s'. st = (hs_from_app h w, log, hs_to_app h w, c) \<longrightarrow> ss_tcp s' = Some c \<longrightarrow> ss_world s' = w \<longrightarrow>
      ss_adapter s' = ss_adapter s \<longrightarrow> fdw_fd (ss_thread_data s') = fdw_fd (ss_thread_data s) \<longrightarrow>
      fdw_fd (ss_device s') = fdw_fd (ss_device s) \<longrightarrow> (x = Tc_end_input_stream \<or> ss_outbound_shutdown s \<longrightarrow> ss_outbound_shutdown s') \<longrightarrow>
      ss_inv gai gni h p s')"

lemma ss_followsD:
  "ss_follows gai gni h p s x w (hs_from_app h w, log, hs_to_app h w, c) \<Longrightarrow> ss_tcp s' = Some c \<Longrightarrow> ss_world s' = w \<Longrightarrow>
   ss_adapter s' = ss_adapter s \<Longrightarrow> fdw_fd (ss_thread_data s') = fdw_fd (ss_thread_data s) \<Longrightarrow>
   fdw_fd (ss_device s') = fdw_fd (ss_device s) \<Longrightarrow> (x = Tc_end_input_stream \<or> ss_outbound_shutdown s \<longrightarrow> ss_outbound_shutdown s') \<Longrightarrow>
   ss_inv gai gni h p s'"
  unfolding ss_follows_def by blast

lemma ss_call:
  assumes inv: "ss_inv gai gni h p s" and tcp: "ss_tcp s = Some c" and x: "tc_local x"
    and w: "host_step h (ss_world s) w" "hs_wire h w = hs_wire h (ss_world s)"
      "length (hs_from_app h w) = length (hs_from_app h (ss_world s)) + tc_offered [x]"
  shows "\<exists>log st. tc_step (hs_iter h) x (hs_from_app h (ss_world s), log, hs_to_app h (ss_world s), c) = Inr st \<and>
    ss_follows gai gni h p s x w st"
proof -
  from inv obtain xs log c0 where i: "ss_setting gai gni h p" "host_kernel h" "ss_tcp s = Some c0" "hs_ok h (ss_world s)"
    "tc_run (hs_iter h) xs (tc_start (hs_start h)) = Inr (hs_from_app h (ss_world s), log, hs_to_app h (ss_world s), c0)"
    "tc_offered xs = length (hs_from_app h (ss_world s))" "tc_offered xs + 2 < 2 ^ 32"
    "Tc_end_input_stream \<in> set xs \<longrightarrow> ss_outbound_shutdown s"
    "fdw_fd (ss_thread_data s) = hs_pipe h" "fdw_fd (ss_device s) = hs_dev h"
    "pe_joint gai gni h p xs (ss_adapter s) (hs_wire h (ss_world s))"
    "hs_inbox h (ss_world s) \<subseteq> set (pe_wire p)" "set (pe_seen p) \<subseteq> set (hs_wire h (ss_world s))" by (rule ss_invE)
  have c0: "c0 = c" using i(3) tcp by simp
  have ok: "hs_ok h w" "hs_inbox h w \<subseteq> set (pe_wire p)" using w(1) i(4,12) by (auto simp: host_step_def)
  have off: "tc_offered (xs @ [x]) = length (hs_from_app h w)" using w(3) i(6) by (simp add: tc_offered_append del: tc_offered.simps)
  then have bound: "tc_offered (xs @ [x]) + 2 < 2 ^ 32" using host_kernelD(12) [OF i(2) ok(1)] by simp
  note joint = tj_local_a [OF i(11) x]
  from ss_step_defined [OF i(1) joint bound i(5)] obtain st where
    st: "tc_step (hs_iter h) x (hs_from_app h (ss_world s), log, hs_to_app h (ss_world s), c0) = Inr st"
      "tc_run (hs_iter h) (xs @ [x]) (tc_start (hs_start h)) = Inr st" by blast
  have "ss_inv gai gni h p s'" if "st = (hs_from_app h w, log', hs_to_app h w, c')" "ss_tcp s' = Some c'" "ss_world s' = w"
      "ss_adapter s' = ss_adapter s" "fdw_fd (ss_thread_data s') = fdw_fd (ss_thread_data s)"
      "fdw_fd (ss_device s') = fdw_fd (ss_device s)" "x = Tc_end_input_stream \<or> ss_outbound_shutdown s \<longrightarrow> ss_outbound_shutdown s'" for log' c' s'
    by (rule ss_invI [OF i(1) that(2), where xs = "xs @ [x]" and log = log'])
      (use that st(2) ok off joint i(8,9,10,13) w(2) in \<open>auto simp del: tc_offered.simps\<close>)
  with st(1) show ?thesis unfolding c0 ss_follows_def by blast
qed

lemma ss_end_outbound_keeps:
  assumes inv: "ss_inv gai gni h p s"
  shows "\<exists>c. ss_end_outbound s = Inr (s\<lparr>ss_tcp := Some c, ss_outbound_shutdown := True\<rparr>) \<and>
    ss_inv gai gni h p (s\<lparr>ss_tcp := Some c, ss_outbound_shutdown := True\<rparr>)"
proof -
  from inv obtain c where c: "ss_tcp s = Some c" "ss_conn s = Inr c" by (rule ss_inv_conn)
  from ss_call [OF inv c(1), of Tc_end_input_stream "ss_world s"] obtain log st where
    st: "tc_step (hs_iter h) Tc_end_input_stream (hs_from_app h (ss_world s), log, hs_to_app h (ss_world s), c) = Inr st"
    and keep: "ss_follows gai gni h p s Tc_end_input_stream (ss_world s) st" by auto
  from st obtain c' where c': "tc_end_input_stream c = Inr c'" "st = (hs_from_app h (ss_world s), log, hs_to_app h (ss_world s), c')"
    by (auto simp: bindE_eq_Inr_iff)
  have "ss_inv gai gni h p (s\<lparr>ss_tcp := Some c', ss_outbound_shutdown := True\<rparr>)"
    by (rule ss_followsD [OF keep [unfolded c'(2)]]) simp_all
  with c(2) c'(1) show ?thesis by (auto simp: ss_end_outbound_def)
qed

lemma pipe_read:
  assumes k: "host_kernel h" and f: "fdw_fd f = hs_pipe h"
  shows "outcome system_error (\<lambda>(d, f', w'). length d \<le> unat limit \<and> host_step h w w' \<and> fdw_fd f' = fdw_fd f \<and>
      fdw_read_count f' = fdw_read_count f + 1 \<and> (\<forall>x. given (hs_traffic h) x w' = given (hs_traffic h) x w) \<and>
      taken (hs_traffic h) (hs_pipe h) w' = taken (hs_traffic h) (hs_pipe h) w @ [d]) (fd_read (hs_sys h) limit f w)"
proof -
  have "host_step h w w'" if "px_read (hs_sys h) (fdw_fd f) n w = (ret, d, w')" for n ret d w'
    using host_kernelD(4) [OF k, of w "fdw_fd f" n] that by simp
  then show ?thesis using f
    by (intro outcome_mono [OF fd_read_ok [OF host_kernelD(1) [OF k], of limit f w]]) (auto simp: fd_register_read_def)
qed

lemma ss_inv_open:
  assumes inv: "ss_inv gai gni h p s" and "\<not> ss_outbound_shutdown s" and "ss_tcp s = Some c"
  shows "tc_open c"
proof -
  from inv obtain xs log c0 where "ss_tcp s = Some c0" and run: "tc_run (hs_iter h) xs (tc_start (hs_start h)) = Inr (hs_from_app h (ss_world s), log, hs_to_app h (ss_world s), c0)"
    and "Tc_end_input_stream \<in> set xs \<longrightarrow> ss_outbound_shutdown s" by (rule ss_invE)
  with assms have "Tc_end_input_stream \<notin> set xs" "c0 = c" by auto
  with tc_run_open [OF run [unfolded tc_start_def]] show ?thesis by simp
qed

lemma ss_read_owner_keeps:
  assumes inv: "ss_inv gai gni h p s" and opened: "\<not> ss_outbound_shutdown s"
  shows "outcome system_error (\<lambda>s'. ss_inv gai gni h p s' \<and> fdw_read_count (ss_thread_data s') = fdw_read_count (ss_thread_data s) + 1)
    (ss_read_owner (hs_sys h) (hs_calls gai gni h) gni s)"
proof -
  have k: "host_kernel h" and f: "fdw_fd (ss_thread_data s) = hs_pipe h" using inv by (auto elim: ss_invE)
  from inv obtain c where c: "ss_tcp s = Some c" "ss_conn s = Inr c" by (rule ss_inv_conn)
  let ?cap = "tc_remaining_outbound_capacity c"
  note rd = pipe_read [OF k f, of ?cap "ss_world s"]
  show ?thesis
  proof (cases "fd_read (hs_sys h) ?cap (ss_thread_data s) (ss_world s)")
    case (Inl e)
    with rd c(2) show ?thesis by (simp add: ss_read_owner_def)
  next
    case (Inr x)
    obtain d f w where x: "x = (d, f, w)" by (cases x)
    with rd Inr have d: "length d \<le> unat ?cap" "host_step h (ss_world s) w" "fdw_fd f = fdw_fd (ss_thread_data s)"
      "fdw_read_count f = fdw_read_count (ss_thread_data s) + 1" "\<And>x. given (hs_traffic h) x w = given (hs_traffic h) x (ss_world s)"
      "hs_from_app h w = hs_from_app h (ss_world s) @ d" by auto
    have len: "length d < 2 ^ 64" using d(1) unat_u64_lt [of ?cap] by simp
    from ss_call [OF inv c(1), of "Tc_write d" w] d(2,5,6) obtain log st where
      st: "tc_step (hs_iter h) (Tc_write d) (hs_from_app h (ss_world s), log, hs_to_app h (ss_world s), c) = Inr st"
      and keep: "ss_follows gai gni h p s (Tc_write d) w st" by auto
    from st obtain n c' where wr: "tc_write d c = Inr (n, c')" and st': "st = (hs_from_app h (ss_world s) @ take (unat n) d, log, hs_to_app h (ss_world s), c')"
      by (auto simp: bindE_eq_Inr_iff)
    have n: "n = sz d" by (rule tc_write_accepts [OF ss_inv_open [OF inv opened c(1)] d(1) wr])
    let ?s = "s\<lparr>ss_thread_data := f, ss_world := w, ss_tcp := Some c'\<rparr>"
    have "ss_follows gai gni h p s (Tc_write d) w (hs_from_app h w, log, hs_to_app h w, c')" using keep st' n d(5,6) len by (simp add: unat_sz)
    from ss_followsD [OF this, of ?s] have inv': "ss_inv gai gni h p ?s" using d(3) by simp
    from ss_end_outbound_keeps [OF inv'] obtain c'' where e: "ss_end_outbound ?s = Inr (?s\<lparr>ss_tcp := Some c'', ss_outbound_shutdown := True\<rparr>)"
      "ss_inv gai gni h p (?s\<lparr>ss_tcp := Some c'', ss_outbound_shutdown := True\<rparr>)" by blast
    from ss_peer_defined [OF e(2)] obtain name where
      "ss_peer (hs_calls gai gni h) gni (?s\<lparr>ss_tcp := Some c'', ss_outbound_shutdown := True\<rparr>) = Inr name" by blast
    with Inr x c(2) wr n e inv' d(4) show ?thesis by (simp add: ss_read_owner_def Let_def)
  qed
qed

lemma pipe_write:
  assumes k: "host_kernel h" and f: "fdw_fd f = hs_pipe h" and len: "length d < 2 ^ 31"
  shows "outcome system_error (\<lambda>(n, f', w'). \<exists>chunks. prefix (concat chunks) d \<and> unat n = length (concat chunks) \<and>
      host_step h w w' \<and> fdw_fd f' = fdw_fd f \<and> fdw_write_count f' = fdw_write_count f + 1 \<and>
      (\<forall>x. taken (hs_traffic h) x w' = taken (hs_traffic h) x w) \<and> hs_wire h w' = hs_wire h w \<and>
      hs_to_app h w' = hs_to_app h w @ concat chunks) (fd_write (hs_sys h) (view_list_of_string d) False f w)"
proof -
  have "length (concat (view_list_of_string d)) < 2 ^ 31" using len by (simp add: view_list_of_string_def)
  note ok = fd_write_ok [OF host_kernelD(1) [OF k] this, where write_all = False and f = f and w = w]
  have step: "host_step h w w'" if "fd_write (hs_sys h) (view_list_of_string d) False f w = Inr (n, f', w')" for n f' w'
    by (rule fd_write_keeps [where R = "host_step h", OF host_kernelD(5) [OF k] host_step_trans that])
  show ?thesis
    by (rule outcome_mono [OF ok])
      (use step f host_kernelD(2) [OF k] in \<open>auto simp: view_list_of_string_def fd_gave_def\<close>)
qed

lemma pipe_shutdown:
  assumes k: "host_kernel h"
  shows "outcome system_error (\<lambda>(f', w'). quiet (hs_traffic h) w w' \<and> host_step h w w' \<and> fdw_fd f' = fdw_fd f \<and>
      fdw_write_count f' = fdw_write_count f + 1) (sock_shutdown (hs_sys h) SHUT_WR f w)"
proof -
  have "host_step h w w'" if "sock_shutdown (hs_sys h) SHUT_WR f w = Inr (f', w')" for f' w'
    using host_kernelD(6) [OF k, of w "fd_num f" SHUT_WR] that
    by (auto simp: sock_shutdown_def bindE_eq_Inr_iff Let_def split: prod.splits if_splits)
  then show ?thesis
    by (intro outcome_mono [OF sock_shutdown_ok [OF host_kernelD(1) [OF k], of SHUT_WR w f]]) (auto simp: SHUT_RD_def SHUT_WR_def)
qed

text \<open>Popping what was written is a read of as many bytes.\<close>

lemma bs_read_as_pop:
  assumes "prefix d (bs_peek_output (min m (bs_buffer_size st)) st)" and "unat n = length d"
  shows "bs_read n st = bindE (bs_pop_output n st) (\<lambda>st'. Inr (d, st'))"
proof -
  let ?str = "buffer_list_concatenate (bs_stream st)"
  have "length d \<le> unat (min m (bs_size st))" using prefix_length_le [OF assms(1)] by (simp add: bs_peek_output_def bs_buffer_size_def Let_def)
  then have n: "n \<le> bs_size st" using assms(2) by (auto simp: word_le_nat_alt min_def split: if_splits)
  then have "(if bs_size st \<le> n then bs_size st else n) = n" by auto
  moreover have "prefix d ?str" using assms(1) take_is_prefix prefix_order.trans unfolding bs_peek_output_def Let_def by blast
  then have "bs_peek_output n st = d" using assms(2) by (auto simp: bs_peek_output_def prefix_def)
  ultimately show ?thesis by (simp add: bs_read_def bs_buffer_size_def Let_def)
qed

lemma ss_inv_deliver:
  assumes inv: "ss_inv gai gni h p s" and c: "ss_tcp s = Some c" and m: "prefix d (bs_peek_output (min m (bs_buffer_size (rcv_stream_out (tc_receiver c)))) (rcv_stream_out (tc_receiver c)))"
    and n: "unat n = length d" and f: "fdw_fd f = fdw_fd (ss_thread_data s)" and w: "host_step h (ss_world s) w" "hs_wire h w = hs_wire h (ss_world s)"
      "hs_from_app h w = hs_from_app h (ss_world s)" "hs_to_app h w = hs_to_app h (ss_world s) @ d"
  shows "\<exists>st. bs_pop_output n (rcv_stream_out (tc_receiver c)) = Inr st \<and>
    ss_inv gai gni h p (s\<lparr>ss_thread_data := f, ss_world := w, ss_tcp := Some (ss_set_inbound st c)\<rparr>)"
proof -
  from ss_call [OF inv c, of "Tc_read n" w] w obtain log st where
    st: "tc_step (hs_iter h) (Tc_read n) (hs_from_app h (ss_world s), log, hs_to_app h (ss_world s), c) = Inr st"
    and keep: "ss_follows gai gni h p s (Tc_read n) w st" by auto
  from st bs_read_as_pop [OF m n] obtain in' where pop: "bs_pop_output n (rcv_stream_out (tc_receiver c)) = Inr in'"
    and st': "st = (hs_from_app h (ss_world s), log, hs_to_app h (ss_world s) @ d, ss_set_inbound in' c)"
    by (auto simp: bindE_eq_Inr_iff ss_set_inbound_def)
  have "ss_follows gai gni h p s (Tc_read n) w (hs_from_app h w, log, hs_to_app h w, ss_set_inbound in' c)" using keep st' w by simp
  from ss_followsD [OF this, of "s\<lparr>ss_thread_data := f, ss_world := w, ss_tcp := Some (ss_set_inbound in' c)\<rparr>"] f
  have "ss_inv gai gni h p (s\<lparr>ss_thread_data := f, ss_world := w, ss_tcp := Some (ss_set_inbound in' c)\<rparr>)" by simp
  with pop show ?thesis by blast
qed

lemma ss_write_owner_keeps:
  assumes inv: "ss_inv gai gni h p s"
  shows "outcome system_error (\<lambda>s'. ss_inv gai gni h p s' \<and> ss_outbound_shutdown s' = ss_outbound_shutdown s \<and>
      fdw_write_count (ss_thread_data s') \<noteq> fdw_write_count (ss_thread_data s)) (ss_write_owner (hs_sys h) (hs_calls gai gni h) gni s)"
proof -
  have k: "host_kernel h" and f: "fdw_fd (ss_thread_data s) = hs_pipe h" using inv by (auto elim: ss_invE)
  from inv obtain c where c: "ss_tcp s = Some c" "ss_conn s = Inr c" by (rule ss_inv_conn)
  let ?in = "rcv_stream_out (tc_receiver c)"
  let ?str = "bs_peek_output (min 65536 (bs_buffer_size ?in)) ?in"
  have "unat (min 65536 (bs_buffer_size ?in)) \<le> 65536" by (simp add: min_def word_le_nat_alt)
  then have "length ?str < 2 ^ 31" by (simp add: bs_peek_output_def Let_def)
  note wr = pipe_write [OF k f this, of "ss_world s"]
  show ?thesis
  proof (cases "fd_write (hs_sys h) (view_list_of_string ?str) False (ss_thread_data s) (ss_world s)")
    case (Inl e)
    with wr c(2) show ?thesis by (simp add: ss_write_owner_def Let_def)
  next
    case x: (Inr x)
    obtain n f w where x': "x = (n, f, w)" by (cases x)
    with wr x obtain chunks where d: "prefix (concat chunks) ?str" "unat n = length (concat chunks)" "host_step h (ss_world s) w"
      "fdw_fd f = fdw_fd (ss_thread_data s)" "fdw_write_count f = fdw_write_count (ss_thread_data s) + 1"
      "\<And>x. taken (hs_traffic h) x w = taken (hs_traffic h) x (ss_world s)" "hs_wire h w = hs_wire h (ss_world s)"
      "hs_to_app h w = hs_to_app h (ss_world s) @ concat chunks" by auto
    from ss_inv_deliver [OF inv c(1) d(1,2,4,3,7) _ d(8)] d(6) obtain st where st: "bs_pop_output n ?in = Inr st"
      and inv': "ss_inv gai gni h p (s\<lparr>ss_thread_data := f, ss_world := w, ss_tcp := Some (ss_set_inbound st c)\<rparr>)" by auto
    note fin = pipe_shutdown [OF k, of w f]
    show ?thesis
    proof (cases "sock_shutdown (hs_sys h) SHUT_WR f w")
      case (Inl e)
      with fin x x' c(2) st d(5) inv' show ?thesis by (simp add: ss_write_owner_def Let_def)
    next
      case y: (Inr y)
      obtain f' w' where y': "y = (f', w')" by (cases y)
      let ?s = "s\<lparr>ss_tcp := Some (ss_set_inbound st c), ss_thread_data := f', ss_world := w', ss_inbound_shutdown := True\<rparr>"
      from fin y y' have e: "quiet (hs_traffic h) w w'" "host_step h w w'" "fdw_fd f' = fdw_fd f" "fdw_write_count f' = fdw_write_count f + 1" by auto
      have inv2: "ss_inv gai gni h p ?s" by (rule ss_inv_frame [OF inv']) (use e in simp_all)
      from ss_peer_defined [OF inv2] obtain name where "ss_peer (hs_calls gai gni h) gni ?s = Inr name" by blast
      with inv2 y y' x x' c(2) st d(5) e(4) inv' show ?thesis by (simp add: ss_write_owner_def Let_def)
    qed
  qed
qed

text \<open>A datagram that is written is on the wire; the segment was popped, as far as the connection is concerned.\<close>

lemma device_write:
  assumes k: "host_kernel h" and f: "fdw_fd f = hs_dev h" and len: "length (buffer_list_concatenate bl) < 2 ^ 31"
  shows "outcome system_error (\<lambda>(f', w'). host_step h w w' \<and> fdw_fd f' = fdw_fd f \<and>
      (\<forall>x. taken (hs_traffic h) x w' = taken (hs_traffic h) x w) \<and> hs_wire h w' = hs_wire h w @ [buffer_list_concatenate bl] \<and>
      hs_to_app h w' = hs_to_app h w) (file_send (hs_sys h) bl f w)"
proof -
  have bl: "concat (view_list_of_buffers bl) = buffer_list_concatenate bl" by (simp add: view_list_of_buffers_def buffer_list_concatenate_eq)
  note ok = fd_write_whole [OF host_kernelD(1) [OF k], of "view_list_of_buffers bl" f w, unfolded bl f, OF len host_kernelD(11) [OF k]]
  have step: "host_step h w w'" if "fd_write (hs_sys h) (view_list_of_buffers bl) True f w = Inr (n, f', w')" for n f' w'
    by (rule fd_write_keeps [where R = "host_step h", OF host_kernelD(5) [OF k] host_step_trans that])
  show ?thesis unfolding file_send_def
    by (rule outcome_then [OF ok]) (use step f host_kernelD(2) [OF k] in \<open>auto simp: fd_gave_def\<close>)
qed

lemma ss_inv_send:
  assumes inv: "ss_inv gai gni h p s" and c: "ss_tcp s = Some c" "tc_segments_out c = seg # segs"
  shows "\<exists>bl seg'. tun_write gni seg (ss_adapter s) = Inr ([bl], seg', ss_adapter s) \<and> length (buffer_list_concatenate bl) < 2 ^ 31 \<and>
    (\<forall>f w. fdw_fd f = fdw_fd (ss_device s) \<longrightarrow> host_step h (ss_world s) w \<longrightarrow>
      (\<forall>x. taken (hs_traffic h) x w = taken (hs_traffic h) x (ss_world s)) \<longrightarrow>
      hs_wire h w = hs_wire h (ss_world s) @ [buffer_list_concatenate bl] \<longrightarrow> hs_to_app h w = hs_to_app h (ss_world s) \<longrightarrow>
      ss_inv gai gni h p (s\<lparr>ss_tcp := Some (c\<lparr>tc_segments_out := segs\<rparr>), ss_device := f, ss_world := w\<rparr>))"
proof -
  from inv obtain xs log c0 where i: "ss_setting gai gni h p" "host_kernel h" "ss_tcp s = Some c0" "hs_ok h (ss_world s)"
    "tc_run (hs_iter h) xs (tc_start (hs_start h)) = Inr (hs_from_app h (ss_world s), log, hs_to_app h (ss_world s), c0)"
    "tc_offered xs = length (hs_from_app h (ss_world s))" "tc_offered xs + 2 < 2 ^ 32"
    "Tc_end_input_stream \<in> set xs \<longrightarrow> ss_outbound_shutdown s"
    "fdw_fd (ss_thread_data s) = hs_pipe h" "fdw_fd (ss_device s) = hs_dev h"
    "pe_joint gai gni h p xs (ss_adapter s) (hs_wire h (ss_world s))"
    "hs_inbox h (ss_world s) \<subseteq> set (pe_wire p)" "set (pe_seen p) \<subseteq> set (hs_wire h (ss_world s))" by (rule ss_invE)
  have names: "numeric_names gni" using i(1) by (simp add: ss_setting_def)
  have run: "tc_run (hs_iter h) (xs @ [Tc_pop]) (tc_start (hs_start h)) =
      Inr (hs_from_app h (ss_world s), log @ [seg], hs_to_app h (ss_world s), c\<lparr>tc_segments_out := segs\<rparr>)"
    using i(3,5) c by (simp add: tc_run_append)
  then have popped: "tc_popped (hs_iter h) (xs @ [Tc_pop]) (hs_start h) seg" by (simp add: tc_popped_def)
  have joint: "pe_joint gai gni h p (xs @ [Tc_pop]) (ss_adapter s) (hs_wire h (ss_world s))" by (rule tj_local_a [OF i(11)]) simp
  have off: "tc_offered (xs @ [Tc_pop]) + 2 < 2 ^ 32" using i(7) by (simp add: tc_offered_append)
  from tun_can_write [OF pe_joint_inv [OF i(1) joint off] names popped] tun_write_small obtain bl seg' where
    wr: "tun_write gni seg (ss_adapter s) = Inr ([bl], seg', ss_adapter s)" "length (buffer_list_concatenate bl) < 2 ^ 31" by (metis prod_cases3)
  from tj_write_a [OF joint popped wr(1)]
  have joint': "pe_joint gai gni h p (xs @ [Tc_pop]) (ss_adapter s) (hs_wire h (ss_world s) @ [buffer_list_concatenate bl])" by simp
  have "ss_inv gai gni h p (s\<lparr>ss_tcp := Some (c\<lparr>tc_segments_out := segs\<rparr>), ss_device := f, ss_world := w\<rparr>)"
    if "fdw_fd f = fdw_fd (ss_device s)" "host_step h (ss_world s) w" "\<forall>x. taken (hs_traffic h) x w = taken (hs_traffic h) x (ss_world s)"
      "hs_wire h w = hs_wire h (ss_world s) @ [buffer_list_concatenate bl]" "hs_to_app h w = hs_to_app h (ss_world s)" for f w
    by (rule ss_invI [OF i(1), where c = "c\<lparr>tc_segments_out := segs\<rparr>" and xs = "xs @ [Tc_pop]" and log = "log @ [seg]"])
      (use that i run joint' in \<open>auto simp: host_step_def tc_offered_append\<close>)
  with wr show ?thesis by blast
qed

lemma ss_write_segments_keeps:
  "ss_inv gai gni h p s \<Longrightarrow> ss_tcp s = Some c \<Longrightarrow> tc_segments_out c = segs \<Longrightarrow>
   outcome system_error (\<lambda>(c', a', f', w'). ss_inv gai gni h p (s\<lparr>ss_tcp := Some c', ss_adapter := a', ss_device := f', ss_world := w'\<rparr>) \<and>
     tc_segments_out c' = []) (ss_write_segments (hs_calls gai gni h) segs c (ss_adapter s) (ss_device s) (ss_world s))"
proof (induction segs arbitrary: s c)
  case Nil
  have "ss_inv gai gni h p (s\<lparr>ss_tcp := Some c\<rparr>)" by (rule ss_inv_frame [OF Nil(1)]) (use Nil(2) in simp_all)
  with Nil show ?case by simp
next
  case (Cons seg segs)
  have k: "host_kernel h" and f: "fdw_fd (ss_device s) = hs_dev h" using Cons.prems(1) by (auto elim: ss_invE)
  from ss_inv_send [OF Cons.prems] obtain bl seg' where wr: "tun_write gni seg (ss_adapter s) = Inr ([bl], seg', ss_adapter s)"
    "length (buffer_list_concatenate bl) < 2 ^ 31"
    and keep: "\<And>f w. fdw_fd f = fdw_fd (ss_device s) \<Longrightarrow> host_step h (ss_world s) w \<Longrightarrow>
      \<forall>x. taken (hs_traffic h) x w = taken (hs_traffic h) x (ss_world s) \<Longrightarrow>
      hs_wire h w = hs_wire h (ss_world s) @ [buffer_list_concatenate bl] \<Longrightarrow> hs_to_app h w = hs_to_app h (ss_world s) \<Longrightarrow>
      ss_inv gai gni h p (s\<lparr>ss_tcp := Some (c\<lparr>tc_segments_out := segs\<rparr>), ss_device := f, ss_world := w\<rparr>)" by blast
  note dev = device_write [OF k f wr(2), of "ss_world s"]
  show ?case
  proof (cases "file_send (hs_sys h) bl (ss_device s) (ss_world s)")
    case (Inl e)
    with dev wr(1) show ?thesis by (simp add: tun_calls_def dev_write_def)
  next
    case (Inr x)
    obtain f w where x: "x = (f, w)" by (cases x)
    let ?s = "s\<lparr>ss_tcp := Some (c\<lparr>tc_segments_out := segs\<rparr>), ss_device := f, ss_world := w\<rparr>"
    have "ss_inv gai gni h p ?s" by (rule keep) (use dev Inr x in simp_all)
    from Cons.IH [OF this] Inr x wr(1) show ?thesis by (simp add: tun_calls_def dev_write_def)
  qed
qed

lemma ss_write_datagrams_keeps:
  assumes inv: "ss_inv gai gni h p s"
  shows "outcome system_error (\<lambda>s'. ss_inv gai gni h p s' \<and> ss_outbound_shutdown s' = ss_outbound_shutdown s \<and>
      ss_wants_datagram_out s' = Inr False) (ss_write_datagrams (hs_calls gai gni h) s)"
proof -
  from inv obtain c where c: "ss_tcp s = Some c" "ss_conn s = Inr c" by (rule ss_inv_conn)
  show ?thesis unfolding ss_write_datagrams_def c(2) bindE_simps
    by (rule outcome_bindE [OF ss_write_segments_keeps [OF inv c(1) refl]]) (auto simp: ss_wants_datagram_out_def ss_conn_def)
qed

lemma ss_tick_keeps:
  assumes inv: "ss_inv gai gni h p s"
  shows "\<exists>t s'. ss_tick (hs_calls gai gni h) (hs_clock h) base_time s = Inr (t, s') \<and> ss_inv gai gni h p s'"
proof -
  have k: "host_kernel h" using inv by (auto elim: ss_invE)
  from inv obtain c where c: "ss_tcp s = Some c" "ss_value s = Inr c" by (rule ss_inv_conn)
  obtain now w where clock: "hs_clock h (ss_world s) = (now, w)" by fastforce
  have w: "host_step h (ss_world s) w" "quiet (hs_traffic h) (ss_world s) w" using host_kernelD(8,9) [OF k, of "ss_world s"] clock by simp_all
  from ss_call [OF inv c(1), of "Tc_tick (now - base_time)" w] w obtain log st where
    st: "tc_step (hs_iter h) (Tc_tick (now - base_time)) (hs_from_app h (ss_world s), log, hs_to_app h (ss_world s), c) = Inr st"
    and keep: "ss_follows gai gni h p s (Tc_tick (now - base_time)) w st" by (auto simp: quiet_def)
  from st obtain c' where c': "tc_tick (now - base_time) c = Inr c'" "st = (hs_from_app h w, log, hs_to_app h w, c')"
    using w(2) by (auto simp: bindE_eq_Inr_iff quiet_def)
  let ?s = "s\<lparr>ss_tcp := Some c', ss_adapter := ss_adapter s, ss_device := ss_device s, ss_world := w\<rparr>"
  from ss_followsD [OF keep [unfolded c'(2)], of ?s] have "ss_inv gai gni h p ?s" by simp
  with inv c(2) clock c'(1) show ?thesis by (simp add: ss_tick_def tun_calls_def dev_tick_def base_tick_def ad_tick_def)
qed

subsection \<open>The rules as a client of the event loop\<close>

abbreviation hs_rules :: "getaddrinfo \<Rightarrow> getnameinfo \<Rightarrow> 'w host \<Rightarrow> (fd_adapter_base, 'w) sponge_socket rule list" where
  "hs_rules gai gni h \<equiv> ss_add_rules (hs_sys h) (hs_calls gai gni h) gni (hs_iter h) []"

text \<open>The second rule relies on its interest: the outbound stream has not ended.\<close>

definition ss_guard :: "(fd_adapter_base, 'w) sponge_socket rule \<Rightarrow> (fd_adapter_base, 'w) sponge_socket \<Rightarrow> bool" where
  "ss_guard r s \<longleftrightarrow> (rl_fd r = ss_thread_data \<and> rl_direction r = In \<longrightarrow> \<not> ss_outbound_shutdown s)"

lemma ss_rules_eq: "ss_add_rules sys ac gni iter [] =
   [\<lparr>rl_fd = ss_device, rl_direction = In, rl_callback = ss_read_datagram ac gni iter, rl_interest = ss_wants_datagram, rl_cancel = Inr\<rparr>,
    \<lparr>rl_fd = ss_thread_data, rl_direction = In, rl_callback = ss_read_owner sys ac gni, rl_interest = ss_wants_owner, rl_cancel = ss_end_outbound\<rparr>,
    \<lparr>rl_fd = ss_thread_data, rl_direction = Out, rl_callback = ss_write_owner sys ac gni, rl_interest = ss_wants_owner_out, rl_cancel = Inr\<rparr>,
    \<lparr>rl_fd = ss_device, rl_direction = Out, rl_callback = ss_write_datagrams ac, rl_interest = ss_wants_datagram_out, rl_cancel = Inr\<rparr>]"
  by (simp add: ss_add_rules_def el_add_rule_def)

lemma ss_fields_differ: "(ss_device :: ('a, 'w) sponge_socket \<Rightarrow> fd_wrapper) \<noteq> ss_thread_data"
proof -
  fix s :: "('a, 'w) sponge_socket" and f :: fd_wrapper
  let ?s = "s\<lparr>ss_device := f\<lparr>fdw_fd := 1\<rparr>, ss_thread_data := f\<lparr>fdw_fd := 0\<rparr>\<rparr>"
  have "fdw_fd (ss_device ?s) \<noteq> fdw_fd (ss_thread_data ?s)" by simp
  then show "(ss_device :: ('a, 'w) sponge_socket \<Rightarrow> fd_wrapper) \<noteq> ss_thread_data" by metis
qed

lemma ss_poll_keeps:
  assumes inv: "ss_inv gai gni h p s"
  shows "length (fst (snd (ss_poll (hs_sys h) fds ms s))) = length fds"
    and "ss_inv gai gni h p (snd (snd (ss_poll (hs_sys h) fds ms s)))"
    and "ss_outbound_shutdown (snd (snd (ss_poll (hs_sys h) fds ms s))) = ss_outbound_shutdown s"
proof -
  have k: "host_kernel h" using inv by (auto elim: ss_invE)
  obtain ret revents w where r: "px_poll (hs_sys h) fds ms (ss_world s) = (ret, revents, w)" by (cases "px_poll (hs_sys h) fds ms (ss_world s)")
  have "quiet (hs_traffic h) (ss_world s) (snd (snd (px_poll (hs_sys h) fds ms (ss_world s)))) \<and>
      length (fst (snd (px_poll (hs_sys h) fds ms (ss_world s)))) = length fds"
    using host_kernelD(1) [OF k] unfolding posix_io_def by blast
  moreover have "host_step h (ss_world s) w" using host_kernelD(7) [OF k, of "ss_world s" fds ms] r by simp
  ultimately have "ss_inv gai gni h p (s\<lparr>ss_world := w\<rparr>)" "length revents = length fds" using r by (auto intro: ss_inv_frame [OF inv])
  then show "length (fst (snd (ss_poll (hs_sys h) fds ms s))) = length fds" "ss_inv gai gni h p (snd (snd (ss_poll (hs_sys h) fds ms s)))"
    "ss_outbound_shutdown (snd (snd (ss_poll (hs_sys h) fds ms s))) = ss_outbound_shutdown s" by (simp_all add: ss_poll_def r)
qed

lemma ss_interests_defined:
  assumes inv: "ss_inv gai gni h p s" and r: "r \<in> set (hs_rules gai gni h)"
  shows "\<exists>b. rl_interest r s = Inr b" and "rl_interest r s = Inr True \<Longrightarrow> ss_guard r s"
proof -
  from inv obtain c where c: "ss_conn s = Inr c" by (rule ss_inv_conn)
  show "\<exists>b. rl_interest r s = Inr b"
    using r by (auto simp: ss_rules_eq ss_wants_datagram_def ss_wants_owner_def ss_wants_owner_out_def ss_wants_datagram_out_def c Let_def)
  show "rl_interest r s = Inr True \<Longrightarrow> ss_guard r s"
    using r by (auto simp: ss_rules_eq ss_guard_def ss_wants_owner_def c ss_fields_differ)
qed

lemma ss_callbacks_keep:
  assumes inv: "ss_inv gai gni h p s" and r: "r \<in> set (hs_rules gai gni h)" and guard: "ss_guard r s"
  shows "outcome system_error (\<lambda>s'. ss_inv gai gni h p s' \<and> (\<forall>r' \<in> set (hs_rules gai gni h). r' \<noteq> r \<longrightarrow> ss_guard r' s \<longrightarrow> ss_guard r' s') \<and>
    (service_count r s' \<noteq> service_count r s \<or> rl_interest r s' = Inr False)) (rl_callback r s)"
proof -
  let ?r = "\<lambda>i. hs_rules gai gni h ! i"
  from r consider "r = ?r 0" | "r = ?r 1" | "r = ?r 2" | "r = ?r 3" by (auto simp: ss_rules_eq)
  then show ?thesis
  proof cases
    case 1
    then show ?thesis
      by (auto intro!: outcome_mono [OF ss_read_datagram_keeps [OF inv]] simp: ss_rules_eq ss_guard_def service_count_def fd_read_count_def)
  next
    case 2
    then have opened: "\<not> ss_outbound_shutdown s" using guard by (simp add: ss_rules_eq ss_guard_def)
    from 2 show ?thesis
      by (auto intro!: outcome_mono [OF ss_read_owner_keeps [OF inv opened]]
          simp: ss_rules_eq ss_guard_def service_count_def fd_read_count_def ss_fields_differ)
  next
    case 3
    then show ?thesis
      by (auto intro!: outcome_mono [OF ss_write_owner_keeps [OF inv]] simp: ss_rules_eq ss_guard_def service_count_def fd_write_count_def)
  next
    case 4
    then show ?thesis
      by (auto intro!: outcome_mono [OF ss_write_datagrams_keeps [OF inv]] simp: ss_rules_eq ss_guard_def)
  qed
qed

lemma ss_cancels_keep:
  assumes inv: "ss_inv gai gni h p s" and r: "r \<in> set (hs_rules gai gni h)"
  shows "outcome system_error (\<lambda>s'. ss_inv gai gni h p s' \<and> (\<forall>r' \<in> set (hs_rules gai gni h). r' \<noteq> r \<longrightarrow> ss_guard r' s \<longrightarrow> ss_guard r' s')) (rl_cancel r s)"
proof (cases "r = hs_rules gai gni h ! 1")
  case True
  from ss_end_outbound_keeps [OF inv] obtain c where "ss_end_outbound s = Inr (s\<lparr>ss_tcp := Some c, ss_outbound_shutdown := True\<rparr>)"
    "ss_inv gai gni h p (s\<lparr>ss_tcp := Some c, ss_outbound_shutdown := True\<rparr>)" by blast
  with True show ?thesis by (auto simp: ss_rules_eq ss_guard_def ss_fields_differ)
next
  case False
  with r inv show ?thesis by (auto simp: ss_rules_eq)
qed

interpretation sponge: event_client "ss_poll (hs_sys h)" "\<lambda>s. px_errno (hs_sys h) (ss_world s)" "hs_rules gai gni h"
    "\<lambda>_. ss_inv gai gni h p" ss_guard system_error
  for gai gni and h :: "'w host" and p
proof
  show "distinct (hs_rules gai gni h)"
    by (simp add: ss_rules_eq ss_fields_differ ss_fields_differ [symmetric])
  show "system_error poll_error" by auto
next
  fix s :: "(fd_adapter_base, 'w) sponge_socket" and fds ms
  assume inv: "ss_inv gai gni h p s"
  show "length (fst (snd (ss_poll (hs_sys h) fds ms s))) = length fds" "ss_inv gai gni h p (snd (snd (ss_poll (hs_sys h) fds ms s)))"
    by (fact ss_poll_keeps [OF inv])+
  fix r assume "ss_guard r s"
  then show "ss_guard r (snd (snd (ss_poll (hs_sys h) fds ms s)))" by (simp add: ss_guard_def ss_poll_keeps [OF inv])
next
  fix r R and s :: "(fd_adapter_base, 'w) sponge_socket"
  assume "r \<in> R" "R \<subseteq> set (hs_rules gai gni h)" and inv: "ss_inv gai gni h p s"
  then have r: "r \<in> set (hs_rules gai gni h)" by blast
  show "\<exists>b. rl_interest r s = Inr b" "rl_interest r s = Inr True \<Longrightarrow> ss_guard r s" by (fact ss_interests_defined [OF inv r])+
  show "outcome system_error (\<lambda>s'. ss_inv gai gni h p s' \<and> (\<forall>r' \<in> set (hs_rules gai gni h). r' \<noteq> r \<longrightarrow> ss_guard r' s \<longrightarrow> ss_guard r' s')) (rl_cancel r s)"
    by (fact ss_cancels_keep [OF inv r])
  show "ss_guard r s \<Longrightarrow> outcome system_error (\<lambda>s'. ss_inv gai gni h p s' \<and>
    (\<forall>r' \<in> set (hs_rules gai gni h). r' \<noteq> r \<longrightarrow> ss_guard r' s \<longrightarrow> ss_guard r' s') \<and>
    (service_count r s' \<noteq> service_count r s \<or> rl_interest r s' = Inr False)) (rl_callback r s)"
    by (fact ss_callbacks_keep [OF inv r])
qed

abbreviation hs_turn ::
  "getaddrinfo \<Rightarrow> getnameinfo \<Rightarrow> 'w host \<Rightarrow> ('w \<Rightarrow> bool) \<Rightarrow> u64 \<Rightarrow> (fd_adapter_base, 'w) sponge_socket rule list \<Rightarrow> (fd_adapter_base, 'w) sponge_socket \<Rightarrow>
   (bool \<times> u64 \<times> (fd_adapter_base, 'w) sponge_socket rule list \<times> (fd_adapter_base, 'w) sponge_socket) result" where
  "hs_turn gai gni h abort base_time rules s \<equiv> ss_turn (hs_sys h) (hs_calls gai gni h) (hs_clock h) abort base_time rules s"

lemma ss_turn_keeps:
  assumes inv: "ss_inv gai gni h p s" and rules: "subseq rules (hs_rules gai gni h)"
  shows "outcome system_error (\<lambda>(_, _, rules', s'). ss_inv gai gni h p s' \<and> subseq rules' (hs_rules gai gni h))
    (hs_turn gai gni h abort base_time rules s)"
  unfolding ss_turn_def ss_wait_def
proof (rule outcome_bindE [OF sponge.wait_keeps [OF rules inv]])
  fix x :: "el_result \<times> (fd_adapter_base, 'a) sponge_socket rule list \<times> (fd_adapter_base, 'a) sponge_socket"
  assume x: "case x of (_, rules', s') \<Rightarrow> ss_inv gai gni h p s' \<and> subseq rules' (hs_rules gai gni h)"
  obtain ret rules' s' where x': "x = (ret, rules', s')" by (cases x)
  with x have "ss_inv gai gni h p s'" by simp
  from ss_tick_keeps [OF this] obtain t s'' where "ss_tick (hs_calls gai gni h) (hs_clock h) base_time s' = Inr (t, s'')" "ss_inv gai gni h p s''" by blast
  with x x' show "outcome system_error (\<lambda>(_, _, rules', s'). ss_inv gai gni h p s' \<and> subseq rules' (hs_rules gai gni h))
    (case x of (ret, rules, s) \<Rightarrow> if ret = Exit \<or> abort (ss_world s) then Inr (False, base_time, rules, s)
      else bindE (ss_tick (hs_calls gai gni h) (hs_clock h) base_time s) (\<lambda>(base_time, s). Inr (True, base_time, rules, s)))" by simp
qed

subsection \<open>Two hosts\<close>

text \<open>A socket as \<^verbatim>\<open>connect\<close> or \<^verbatim>\<open>listen_and_accept\<close> leave it when they start their loop.\<close>

definition fresh_socket :: "'w host \<Rightarrow> (fd_adapter_base, 'w) sponge_socket \<Rightarrow> bool" where
  "fresh_socket h s \<longleftrightarrow> fdw_fd (ss_thread_data s) = hs_pipe h \<and> fdw_fd (ss_device s) = hs_dev h \<and> hs_ok h (ss_world s) \<and>
     hs_inbox h (ss_world s) = {} \<and> hs_wire h (ss_world s) = [] \<and> hs_from_app h (ss_world s) = [] \<and> hs_to_app h (ss_world s) = []"

definition cfg_ipv4 :: "fd_adapter_config \<Rightarrow> bool" where
  "cfg_ipv4 cfg \<longleftrightarrow> (\<exists>ip port ip' port'. cfg_source cfg = inet ip port \<and> cfg_destination cfg = inet ip' port')"

definition ss_begun ::
  "getaddrinfo \<Rightarrow> getnameinfo \<Rightarrow> 'w host \<Rightarrow> (fd_adapter_base, 'w) sponge_socket rule list \<Rightarrow> (fd_adapter_base, 'w) sponge_socket \<Rightarrow> bool" where
  "ss_begun gai gni h rules s \<longleftrightarrow> (\<exists>s0 cfg. fresh_socket h s0 \<and> cfg_ipv4 cfg \<and>
     (ss_open_connect (hs_sys h) (hs_calls gai gni h) gni (hs_iter h) (hs_random h) (hs_tcp h) cfg [] s0 = Inr (rules, s) \<or>
      ss_open_listen (hs_sys h) (hs_calls gai gni h) gni (hs_iter h) (hs_random h) (hs_tcp h) cfg [] s0 = Inr (rules, s)))"

text \<open>
  Two hosts whose sockets take turns in any order. Between two turns the rest of a host may do
  anything that does not use the two descriptors: the application writes and reads at its end
  of the socket pair, and the device gets datagrams the other host has sent, at any time, in
  any order, any number of times, or never. The time base is any: each loop reads it anew.
\<close>

inductive ss_network ::
  "getaddrinfo \<Rightarrow> getnameinfo \<Rightarrow> 'v host \<Rightarrow> 'w host \<Rightarrow>
   (fd_adapter_base, 'v) sponge_socket rule list \<Rightarrow> (fd_adapter_base, 'v) sponge_socket \<Rightarrow>
   (fd_adapter_base, 'w) sponge_socket rule list \<Rightarrow> (fd_adapter_base, 'w) sponge_socket \<Rightarrow> bool"
  for gai gni ha hb where
  ssn_start: "ss_begun gai gni ha ra sa \<Longrightarrow> ss_begun gai gni hb rb sb \<Longrightarrow> ss_network gai gni ha hb ra sa rb sb"
| ssn_turn_a: "ss_network gai gni ha hb ra sa rb sb \<Longrightarrow> hs_turn gai gni ha abort base_time ra sa = Inr (go_on, next_time, ra', sa') \<Longrightarrow>
    ss_network gai gni ha hb ra' sa' rb sb"
| ssn_turn_b: "ss_network gai gni ha hb ra sa rb sb \<Longrightarrow> hs_turn gai gni hb abort base_time rb sb = Inr (go_on, next_time, rb', sb') \<Longrightarrow>
    ss_network gai gni ha hb ra sa rb' sb'"
| ssn_rest_a: "ss_network gai gni ha hb ra sa rb sb \<Longrightarrow> quiet (hs_traffic ha) (ss_world sa) w \<Longrightarrow> (hs_ok ha (ss_world sa) \<longrightarrow> hs_ok ha w) \<Longrightarrow>
    hs_inbox ha w \<subseteq> hs_inbox ha (ss_world sa) \<union> set (hs_wire hb (ss_world sb)) \<Longrightarrow> ss_network gai gni ha hb ra (sa\<lparr>ss_world := w\<rparr>) rb sb"
| ssn_rest_b: "ss_network gai gni ha hb ra sa rb sb \<Longrightarrow> quiet (hs_traffic hb) (ss_world sb) w \<Longrightarrow> (hs_ok hb (ss_world sb) \<longrightarrow> hs_ok hb w) \<Longrightarrow>
    hs_inbox hb w \<subseteq> hs_inbox hb (ss_world sb) \<union> set (hs_wire ha (ss_world sa)) \<Longrightarrow> ss_network gai gni ha hb ra sa rb (sb\<lparr>ss_world := w\<rparr>)"

definition net_inv ::
  "getaddrinfo \<Rightarrow> getnameinfo \<Rightarrow> 'v host \<Rightarrow> 'w host \<Rightarrow> (fd_adapter_base, 'v) sponge_socket \<Rightarrow> (fd_adapter_base, 'w) sponge_socket \<Rightarrow> bool" where
  "net_inv gai gni ha hb sa sb \<longleftrightarrow> (\<exists>xs ys. ss_side ha xs sa \<and> ss_side hb ys sb \<and>
     tun_joint gai gni (hs_iter ha) (hs_start ha) (hs_iter hb) (hs_start hb) xs (ss_adapter sa) (hs_wire ha (ss_world sa))
       ys (ss_adapter sb) (hs_wire hb (ss_world sb)) \<and>
     hs_inbox ha (ss_world sa) \<subseteq> set (hs_wire hb (ss_world sb)) \<and> hs_inbox hb (ss_world sb) \<subseteq> set (hs_wire ha (ss_world sa)))"

lemma net_invI:
  "ss_side ha xs sa \<Longrightarrow> ss_side hb ys sb \<Longrightarrow>
   tun_joint gai gni (hs_iter ha) (hs_start ha) (hs_iter hb) (hs_start hb) xs (ss_adapter sa) (hs_wire ha (ss_world sa))
     ys (ss_adapter sb) (hs_wire hb (ss_world sb)) \<Longrightarrow>
   hs_inbox ha (ss_world sa) \<subseteq> set (hs_wire hb (ss_world sb)) \<Longrightarrow> hs_inbox hb (ss_world sb) \<subseteq> set (hs_wire ha (ss_world sa)) \<Longrightarrow>
   net_inv gai gni ha hb sa sb"
  unfolding net_inv_def by blast

lemma net_inv_sym: "net_inv gai gni ha hb sa sb \<Longrightarrow> net_inv gai gni hb ha sb sa"
  unfolding net_inv_def using tun_joint_sym by blast

definition as_peer :: "'v host \<Rightarrow> 'w host \<Rightarrow> tc_op list \<Rightarrow> (fd_adapter_base, 'w) sponge_socket \<Rightarrow> 'v \<Rightarrow> peer" where
  "as_peer ha hb ys sb w = \<lparr>pe_iter = hs_iter hb, pe_random = hs_random hb, pe_tcp = hs_tcp hb, pe_ops = ys, pe_adapter = ss_adapter sb,
     pe_wire = hs_wire hb (ss_world sb), pe_seen = hs_wire ha w\<rparr>"

lemma net_inv_peer:
  assumes "net_inv gai gni ha hb sa sb" and "host_kernel ha" "host_kernel hb" "numeric_names gni" "numeric_hosts gai"
  obtains ys where "ss_inv gai gni ha (as_peer ha hb ys sb (ss_world sa)) sa"
    "\<And>sa'. ss_inv gai gni ha (as_peer ha hb ys sb (ss_world sa)) sa' \<Longrightarrow> net_inv gai gni ha hb sa' sb"
proof -
  from assms(1) obtain xs ys where i: "ss_side ha xs sa" "ss_side hb ys sb"
     "tun_joint gai gni (hs_iter ha) (hs_start ha) (hs_iter hb) (hs_start hb) xs (ss_adapter sa) (hs_wire ha (ss_world sa))
       ys (ss_adapter sb) (hs_wire hb (ss_world sb))"
     "hs_inbox ha (ss_world sa) \<subseteq> set (hs_wire hb (ss_world sb))" "hs_inbox hb (ss_world sb) \<subseteq> set (hs_wire ha (ss_world sa))"
    by (auto simp: net_inv_def)
  let ?p = "as_peer ha hb ys sb (ss_world sa)"
  have "ss_setting gai gni ha ?p" using assms ss_sideD(1) [OF i(2)] host_kernelD(3) [OF assms(3)] by (simp add: ss_setting_def as_peer_def)
  with i have "ss_inv gai gni ha ?p sa" by (auto simp: ss_inv_def ss_linked_def as_peer_def)
  moreover have "net_inv gai gni ha hb sa' sb" if "ss_inv gai gni ha ?p sa'" for sa'
    using that i(2,5) by (auto simp: ss_inv_def ss_linked_def as_peer_def intro: net_invI)
  ultimately show ?thesis by (rule that)
qed

lemma net_inv_turn:
  assumes inv: "net_inv gai gni ha hb sa sb" and "host_kernel ha" "host_kernel hb" "numeric_names gni" "numeric_hosts gai"
    and rules: "subseq ra (hs_rules gai gni ha)"
  shows "outcome system_error (\<lambda>(_, _, ra', sa'). net_inv gai gni ha hb sa' sb \<and> subseq ra' (hs_rules gai gni ha))
    (hs_turn gai gni ha abort base_time ra sa)"
proof -
  from net_inv_peer [OF assms(1-5)] obtain ys where ys: "ss_inv gai gni ha (as_peer ha hb ys sb (ss_world sa)) sa"
    "\<And>sa'. ss_inv gai gni ha (as_peer ha hb ys sb (ss_world sa)) sa' \<Longrightarrow> net_inv gai gni ha hb sa' sb" by blast
  show ?thesis by (rule outcome_mono [OF ss_turn_keeps [OF ys(1) rules]]) (auto intro: ys(2))
qed

lemma net_inv_rest:
  assumes "net_inv gai gni ha hb sa sb" and "quiet (hs_traffic ha) (ss_world sa) w" and "hs_ok ha (ss_world sa) \<longrightarrow> hs_ok ha w"
    and "hs_inbox ha w \<subseteq> hs_inbox ha (ss_world sa) \<union> set (hs_wire hb (ss_world sb))"
  shows "net_inv gai gni ha hb (sa\<lparr>ss_world := w\<rparr>) sb"
proof -
  from assms(1) obtain xs ys where i: "ss_side ha xs sa" "ss_side hb ys sb"
     "tun_joint gai gni (hs_iter ha) (hs_start ha) (hs_iter hb) (hs_start hb) xs (ss_adapter sa) (hs_wire ha (ss_world sa))
       ys (ss_adapter sb) (hs_wire hb (ss_world sb))"
     "hs_inbox ha (ss_world sa) \<subseteq> set (hs_wire hb (ss_world sb))" "hs_inbox hb (ss_world sb) \<subseteq> set (hs_wire ha (ss_world sa))"
    by (auto simp: net_inv_def)
  have "ss_side ha xs (sa\<lparr>ss_world := w\<rparr>)" using i(1) assms(2,3) by (auto simp: ss_side_def quiet_def)
  moreover have "hs_wire ha w = hs_wire ha (ss_world sa)" using assms(2) by (simp add: quiet_def)
  ultimately show ?thesis using i(2-5) assms(4) by (intro net_invI [of ha xs _ hb ys]) auto
qed

lemma ss_begun_side:
  assumes "ss_begun gai gni h rules s"
  shows "\<exists>xs. (xs = [] \<or> xs = [Tc_connect]) \<and> ss_side h xs s" and "ad_ipv4 (ss_adapter s)" and "hs_wire h (ss_world s) = []"
    and "hs_inbox h (ss_world s) = {}" and "rules = hs_rules gai gni h"
proof -
  from assms obtain s0 cfg where s0: "fresh_socket h s0" "cfg_ipv4 cfg" and
    s: "ss_open_connect (hs_sys h) (hs_calls gai gni h) gni (hs_iter h) (hs_random h) (hs_tcp h) cfg [] s0 = Inr (rules, s) \<or>
      ss_open_listen (hs_sys h) (hs_calls gai gni h) gni (hs_iter h) (hs_random h) (hs_tcp h) cfg [] s0 = Inr (rules, s)"
    by (auto simp: ss_begun_def)
  from s obtain c A where c: "c = hs_start h \<or> tc_connect (hs_start h) = Inr c" and A: "ad_cfg A = cfg"
    and eq: "rules = hs_rules gai gni h" "s = s0\<lparr>ss_tcp := Some c, ss_adapter := A\<rparr>"
  proof
    assume "ss_open_connect (hs_sys h) (hs_calls gai gni h) gni (hs_iter h) (hs_random h) (hs_tcp h) cfg [] s0 = Inr (rules, s)"
    then show thesis
      by (intro that [of "the (ss_tcp s)" "(ss_adapter s0)\<lparr>ad_cfg := cfg\<rparr>"])
        (auto simp: ss_open_connect_def ss_initialize_TCP_def ad_set_config_def tun_calls_def ss_conn_def bindE_eq_Inr_iff Let_def split: if_splits)
  next
    assume "ss_open_listen (hs_sys h) (hs_calls gai gni h) gni (hs_iter h) (hs_random h) (hs_tcp h) cfg [] s0 = Inr (rules, s)"
    then show thesis
      by (intro that [of "the (ss_tcp s)" "(ss_adapter s0)\<lparr>ad_cfg := cfg, ad_listen := True\<rparr>"])
        (auto simp: ss_open_listen_def ss_initialize_TCP_def ad_set_config_def ad_set_listening_def tun_calls_def Let_def split: if_splits)
  qed
  have side: "ss_side h xs s" if "tc_run (hs_iter h) xs (tc_start (hs_start h)) = Inr ([], [], [], c)" "tc_offered xs = 0" "Tc_end_input_stream \<notin> set xs" for xs
  proof -
    have w: "ss_world s = ss_world s0" "ss_thread_data s = ss_thread_data s0" "ss_device s = ss_device s0" "ss_tcp s = Some c" by (simp_all add: eq)
    have "hs_from_app h (ss_world s0) = []" "hs_to_app h (ss_world s0) = []" using s0(1) unfolding fresh_socket_def by blast+
    then show ?thesis unfolding ss_side_def w using s0(1) that unfolding fresh_socket_def by (simp only: list.size) blast
  qed
  show "\<exists>xs. (xs = [] \<or> xs = [Tc_connect]) \<and> ss_side h xs s"
    using c
  proof
    assume "c = hs_start h"
    then have "ss_side h [] s" by (intro side) (simp_all add: tc_start_def)
    then show ?thesis by blast
  next
    assume "tc_connect (hs_start h) = Inr c"
    then have "ss_side h [Tc_connect] s" by (intro side) (simp_all add: tc_start_def)
    then show ?thesis by blast
  qed
  show "ad_ipv4 (ss_adapter s)" using s0(2) by (auto simp: eq A ad_ipv4_def cfg_ipv4_def ad_config_def)
  show "hs_wire h (ss_world s) = []" "hs_inbox h (ss_world s) = {}" using s0(1) by (simp_all add: eq fresh_socket_def)
  show "rules = hs_rules gai gni h" by (fact eq(1))
qed

lemma net_inv_start:
  assumes a: "ss_begun gai gni ha ra sa" and b: "ss_begun gai gni hb rb sb"
  shows "net_inv gai gni ha hb sa sb"
proof -
  note a = ss_begun_side [OF a] and b = ss_begun_side [OF b]
  from a(1) b(1) obtain xs ys where xs: "xs = [] \<or> xs = [Tc_connect]" "ss_side ha xs sa" and ys: "ys = [] \<or> ys = [Tc_connect]" "ss_side hb ys sb" by blast
  let ?j = "\<lambda>xs ys. tun_joint gai gni (hs_iter ha) (hs_start ha) (hs_iter hb) (hs_start hb) xs (ss_adapter sa) [] ys (ss_adapter sb) []"
  have 0: "?j [] []" by (rule tj_start [OF a(2) b(2)])
  have "?j xs []" using 0 tj_local_a [OF 0, of Tc_connect] xs(1) by auto
  from this tj_local_b [OF this, of Tc_connect] ys(1) have "?j xs ys" by auto
  then show ?thesis using a(3,4) b(3,4) by (intro net_invI [OF xs(2) ys(2)]) simp_all
qed

lemma ss_network_inv:
  assumes "ss_network gai gni ha hb ra sa rb sb" and k: "host_kernel ha" "host_kernel hb" and n: "numeric_names gni" "numeric_hosts gai"
  shows "net_inv gai gni ha hb sa sb \<and> subseq ra (hs_rules gai gni ha) \<and> subseq rb (hs_rules gai gni hb)"
  using assms(1)
proof (induction rule: ss_network.induct)
  case (ssn_start ra sa rb sb)
  then show ?case using net_inv_start [OF ssn_start] ss_begun_side(5) [OF ssn_start(1)] ss_begun_side(5) [OF ssn_start(2)] by simp
next
  case (ssn_turn_a ra sa rb sb abort base_time go_on next_time ra' sa')
  then have "net_inv gai gni ha hb sa sb" "subseq ra (hs_rules gai gni ha)" by auto
  from outcome_D [OF net_inv_turn [OF this(1) k n this(2)] ssn_turn_a.hyps(2)] ssn_turn_a.IH show ?case by auto
next
  case (ssn_turn_b ra sa rb sb abort base_time go_on next_time rb' sb')
  then have "net_inv gai gni hb ha sb sa" "subseq rb (hs_rules gai gni hb)" by (auto intro: net_inv_sym)
  from outcome_D [OF net_inv_turn [OF this(1) k(2,1) n this(2)] ssn_turn_b.hyps(2)] ssn_turn_b.IH show ?case by (auto intro: net_inv_sym)
next
  case (ssn_rest_a ra sa rb sb w)
  then show ?case using net_inv_rest [OF _ ssn_rest_a.hyps(2-4)] by simp
next
  case (ssn_rest_b ra sa rb sb w)
  then have "net_inv gai gni hb ha sb sa" by (auto intro: net_inv_sym)
  from net_inv_rest [OF this ssn_rest_b.hyps(2-4)] ssn_rest_b.IH show ?case by (auto intro: net_inv_sym)
qed

lemma joint_inbound:
  assumes "joint ia (tc_init ra ca) ib (tc_init rb cb) xs ys" and iter: "hash_order ia" "hash_order ib"
    and off: "tc_offered xs + 2 < 2 ^ 32" "tc_offered ys + 2 < 2 ^ 32"
    and run: "tc_run ib ys (tc_start (tc_init rb cb)) = Inr (acc, log, out, b)"
  shows "bs_inv (rcv_stream_out (tc_receiver b))"
proof -
  from joint_runs [OF assms(1) iter off] obtain acc1 log1 out1 a where
    a: "tc_run ia xs (tc_start (tc_init ra ca)) = Inr (acc1, log1, out1, a)" and fed: "list_all (tc_from log1) (tc_received ys)"
    by (auto simp: joint_ok_def)
  from tc_run_fed [OF a off(2,1) iter(2) fed, of rb cb] run show ?thesis
    by (auto simp: rcv_ok_def ra_state_ok_def ra_inv_def ra_sync_def bs_tracks_def rcv_stream_out_def ra_stream_out_def)
qed

lemma net_inv_delivered:
  assumes inv: "net_inv gai gni ha hb sa sb" and k: "host_kernel ha" "host_kernel hb" and n: "numeric_names gni" "numeric_hosts gai"
  shows "prefix (hs_to_app hb (ss_world sb)) (hs_from_app ha (ss_world sa))"
    and "ss_tcp sb = Some b \<Longrightarrow> bs_eof (rcv_stream_out (tc_receiver b)) \<Longrightarrow> hs_to_app hb (ss_world sb) = hs_from_app ha (ss_world sa)"
proof -
  from inv obtain xs ys where xs: "ss_side ha xs sa" and ys: "ss_side hb ys sb" and
    joint: "tun_joint gai gni (hs_iter ha) (hs_start ha) (hs_iter hb) (hs_start hb) xs (ss_adapter sa) (hs_wire ha (ss_world sa))
       ys (ss_adapter sb) (hs_wire hb (ss_world sb))" by (auto simp: net_inv_def)
  note off = ss_sideD(1) [OF xs k(1)] ss_sideD(1) [OF ys k(2)]
  have j: "joint (hs_iter ha) (hs_start ha) (hs_iter hb) (hs_start hb) xs ys"
    using tun_joint_inv [OF joint n host_kernelD(3) [OF k(1)] host_kernelD(3) [OF k(2)] off] by (simp add: tun_inv_def)
  from xs obtain a log1 where a: "tc_run (hs_iter ha) xs (tc_start (hs_start ha)) = Inr (hs_from_app ha (ss_world sa), log1, hs_to_app ha (ss_world sa), a)"
    unfolding ss_side_def by blast
  from ys obtain b0 log where b0: "ss_tcp sb = Some b0"
    and run: "tc_run (hs_iter hb) ys (tc_start (hs_start hb)) = Inr (hs_from_app hb (ss_world sb), log, hs_to_app hb (ss_world sb), b0)"
    unfolding ss_side_def by blast
  have del: "tc_delivered (hs_from_app ha (ss_world sa)) a (hs_to_app hb (ss_world sb)) b0"
    using joint_delivers [OF j host_kernelD(3) [OF k(1)] host_kernelD(3) [OF k(2)] off] a run by simp
  let ?got = "hs_to_app hb (ss_world sb) @ bs_content (rcv_stream_out (tc_receiver b0))"
  have got: "?got = take (length ?got) (hs_from_app ha (ss_world sa))"
    "bs_input_ended (rcv_stream_out (tc_receiver b0)) \<Longrightarrow> ?got = hs_from_app ha (ss_world sa)"
    using del unfolding tc_delivered_def Let_def by blast+
  have "prefix ?got (hs_from_app ha (ss_world sa))" by (subst got(1)) (rule take_is_prefix)
  then show "prefix (hs_to_app hb (ss_world sb)) (hs_from_app ha (ss_world sa))" by (rule append_prefixD)
  assume "ss_tcp sb = Some b" "bs_eof (rcv_stream_out (tc_receiver b))"
  with b0 have "bs_input_ended (rcv_stream_out (tc_receiver b0))" "bs_size (rcv_stream_out (tc_receiver b0)) = 0"
    by (simp_all add: bs_eof_def bs_input_ended_def)
  with got(2) bs_content_empty_iff [OF joint_inbound [OF j host_kernelD(3) [OF k(1)] host_kernelD(3) [OF k(2)] off run]]
  show "hs_to_app hb (ss_world sb) = hs_from_app ha (ss_world sa)" by simp
qed

subsection \<open>A host\<close>

text \<open>A kernel for the examples: an application that has written some bytes, and a device with a queue of datagrams.\<close>

record small_kernel =
  sk_app :: bytes
  sk_datagrams :: "bytes list"
  sk_taken :: "int \<Rightarrow> bytes list"
  sk_given :: "int \<Rightarrow> bytes list"

definition small_posix :: "small_kernel posix" where
  "small_posix =
     \<lparr>px_errno = (\<lambda>w. 11), px_close = (\<lambda>fd w. (0, w)),
      px_read = (\<lambda>fd n w.
        if fd = 5 then
          case sk_datagrams w of
            [] \<Rightarrow> (-1, [], w)
          | d # ds \<Rightarrow> if length d \<le> n
              then (int (length d), d, w\<lparr>sk_datagrams := ds, sk_taken := (sk_taken w)(fd := sk_taken w fd @ [d])\<rparr>) else (-1, [], w\<lparr>sk_datagrams := ds\<rparr>)
        else if fd = 4 \<and> sk_app w \<noteq> [] then
          let d = take n (sk_app w)
          in (int (length d), d, w\<lparr>sk_app := drop n (sk_app w), sk_taken := (sk_taken w)(fd := sk_taken w fd @ [d])\<rparr>)
        else (-1, [], w)),
      px_writev = (\<lambda>fd iov w. let d = concat (map fst iov) in
        (int (length d), w\<lparr>sk_given := (sk_given w)(fd := sk_given w fd @ [d])\<rparr>)),
      px_getfl = (\<lambda>fd w. (0, w)), px_setfl = (\<lambda>fd n w. (0, w)), px_shutdown = (\<lambda>fd how w. (0, w)),
      px_poll = (\<lambda>fds ms w. (int (length fds), map pfd_events fds, w))\<rparr>"

definition small_host :: "u32 \<Rightarrow> small_kernel host" where
  "small_host random =
     \<lparr>hs_sys = small_posix, hs_clock = (\<lambda>w. (0, w)), hs_iter = map fst, hs_random = random, hs_tcp = cfg_default,
      hs_pipe = 4, hs_dev = 5, hs_traffic = \<lparr>taken = (\<lambda>fd w. sk_taken w fd), given = (\<lambda>fd w. sk_given w fd)\<rparr>,
      hs_inbox = (\<lambda>w. set (sk_datagrams w)), hs_ok = (\<lambda>w. length (concat (sk_taken w 4)) + length (sk_app w) < 1000)\<rparr>"

lemma host_kernel_small: "host_kernel (small_host random)"
  by (auto simp: host_kernel_def small_host_def small_posix_def posix_io_def posix_read_def posix_writev_def quiet_def host_step_def
      hash_order_insertion Let_def split: list.splits if_splits)

definition small_socket :: "bytes \<Rightarrow> (fd_adapter_base, small_kernel) sponge_socket" where
  "small_socket app =
     (let f = \<lparr>fdw_fd = 3, fdw_eof = False, fdw_closed = False, fdw_read_count = 0, fdw_write_count = 0\<rparr> in
      \<lparr>ss_owner = f, ss_thread_data = f\<lparr>fdw_fd := 4\<rparr>, ss_adapter = ad_example False (inet 0 0) (inet 0 0), ss_device = f\<lparr>fdw_fd := 5\<rparr>,
       ss_tcp = None, ss_inbound_shutdown = False, ss_outbound_shutdown = False, ss_fully_acked = False,
       ss_world = \<lparr>sk_app = app, sk_datagrams = [], sk_taken = (\<lambda>_. []), sk_given = (\<lambda>_. [])\<rparr>\<rparr>)"

lemma small_connect:
  obtains c where "tc_connect (tc_init 5 cfg_default) = Inr c" "tc_state c = st_of_official State_SYN_SENT"
proof -
  have "case tc_connect (tc_init 5 cfg_default) of Inl _ \<Rightarrow> False | Inr c \<Rightarrow> tc_state c = st_of_official State_SYN_SENT" by code_simp
  then show ?thesis by (auto split: sum.splits intro: that)
qed

lemma small_sockets_begin:
  obtains ra sa rb sb where "ss_begun ipv4_hosts ipv4_names (small_host 5) ra sa" "ss_begun ipv4_hosts ipv4_names (small_host 7) rb sb"
    "sk_app (ss_world sa) = [1, 2, 3]"
proof -
  let ?cfg = "\<lambda>a b. \<lparr>cfg_source = a, cfg_destination = b, cfg_loss_rate_dn = 0, cfg_loss_rate_up = 0\<rparr>"
  let ?A = "?cfg (inet 7 70) (inet 9 90)" and ?B = "?cfg (inet 0 90) (inet 0 0)"
  have fresh: "fresh_socket (small_host r) (small_socket app)" if "length app < 1000" for r app
    using that by (simp add: fresh_socket_def small_host_def small_socket_def Let_def)
  have cfg: "cfg_ipv4 ?A" "cfg_ipv4 ?B" by (auto simp: cfg_ipv4_def)
  have name: "addr_to_string ipv4_names (inet 9 90) = Inr (dotted_quad 9 @ '':'' @ nat_dec (unat (90 :: u16)))"
    by (simp add: addr_to_string_def addr_ip_port_inet [OF numeric_names_ipv4])
  let ?sa = "small_socket [1, 2, 3]" and ?sb = "small_socket []"
  obtain c where c: "tc_connect (tc_init 5 cfg_default) = Inr c" "tc_state c = st_of_official State_SYN_SENT"
    by (rule small_connect)
  let ?h = "small_host 5"
  have "ss_open_connect (hs_sys ?h) (hs_calls ipv4_hosts ipv4_names ?h) ipv4_names (hs_iter ?h) (hs_random ?h) (hs_tcp ?h) ?A [] ?sa =
      Inr (hs_rules ipv4_hosts ipv4_names ?h, ?sa\<lparr>ss_adapter := ad_set_config ?A (ss_adapter ?sa), ss_tcp := Some c\<rparr>)"
    using c name by (simp add: ss_open_connect_def ss_initialize_TCP_def ss_conn_def st_neq_def tun_calls_def Let_def small_host_def small_socket_def)
  then have a: "ss_begun ipv4_hosts ipv4_names ?h (hs_rules ipv4_hosts ipv4_names ?h) (?sa\<lparr>ss_adapter := ad_set_config ?A (ss_adapter ?sa), ss_tcp := Some c\<rparr>)"
    unfolding ss_begun_def using fresh [of "[1, 2, 3]" 5] cfg(1) by fastforce
  let ?h = "small_host 7"
  have "\<exists>rb sb. ss_open_listen (hs_sys ?h) (hs_calls ipv4_hosts ipv4_names ?h) ipv4_names (hs_iter ?h) (hs_random ?h) (hs_tcp ?h) ?B [] ?sb = Inr (rb, sb)"
    by (simp add: ss_open_listen_def ss_initialize_TCP_def small_socket_def Let_def)
  then obtain rb sb where "ss_begun ipv4_hosts ipv4_names ?h rb sb"
    unfolding ss_begun_def using fresh [of "[]" 7] cfg(2) by fastforce
  moreover have "sk_app (ss_world (?sa\<lparr>ss_adapter := ad, ss_tcp := conn\<rparr>)) = [1, 2, 3]" for ad conn
    by (simp add: small_socket_def Let_def)
  ultimately show ?thesis using a by (intro that)
qed

subsection \<open>Properties\<close>

text \<open>
  C3. Applications talk reliably through two \<^verbatim>\<open>TCPSpongeSocket\<close>s on TUN devices. Each socket was left by
  \<^verbatim>\<open>connect\<close> or \<^verbatim>\<open>listen_and_accept\<close>; then the event loops of the two take turns in any order, while
  the network loses, duplicates, delays and reorders datagrams, the applications write and read
  at any pace, and every read and write on the socket pair may transfer any part of what was asked
  for. As long as each application writes fewer than 2^32 - 2 bytes: what a socket has handed to its
  application is a prefix of what the other socket has read from its own; it is all of it when the inbound stream is at
  its end; and the next turn of either loop returns or throws the error of a system call: no call of
  the stack fails, no busy wait is reported, nothing is undefined.
\<close>

theorem sockets_deliver:
  assumes "ss_network gai gni ha hb ra sa rb sb" and "host_kernel ha" and "host_kernel hb" and "numeric_names gni" and "numeric_hosts gai"
  shows "prefix (hs_to_app hb (ss_world sb)) (hs_from_app ha (ss_world sa)) \<and>
    prefix (hs_to_app ha (ss_world sa)) (hs_from_app hb (ss_world sb)) \<and>
    (\<forall>b. ss_tcp sb = Some b \<longrightarrow> bs_eof (rcv_stream_out (tc_receiver b)) \<longrightarrow> hs_to_app hb (ss_world sb) = hs_from_app ha (ss_world sa)) \<and>
    (\<forall>a. ss_tcp sa = Some a \<longrightarrow> bs_eof (rcv_stream_out (tc_receiver a)) \<longrightarrow> hs_to_app ha (ss_world sa) = hs_from_app hb (ss_world sb)) \<and>
    outcome system_error (\<lambda>_. True) (hs_turn gai gni ha abort base_time ra sa) \<and>
    outcome system_error (\<lambda>_. True) (hs_turn gai gni hb abort' base_time' rb sb)"
proof -
  from ss_network_inv [OF assms] have inv: "net_inv gai gni ha hb sa sb" and rules: "subseq ra (hs_rules gai gni ha)" "subseq rb (hs_rules gai gni hb)"
    by blast+
  note inv' = net_inv_sym [OF inv]
  have "outcome system_error (\<lambda>_. True) (hs_turn gai gni ha abort base_time ra sa)"
    by (rule outcome_mono [OF net_inv_turn [OF inv assms(2-5) rules(1)]]) simp_all
  moreover have "outcome system_error (\<lambda>_. True) (hs_turn gai gni hb abort' base_time' rb sb)"
    by (rule outcome_mono [OF net_inv_turn [OF inv' assms(3,2,4,5) rules(2)]]) simp_all
  ultimately show ?thesis
    using net_inv_delivered [OF inv assms(2-5)] net_inv_delivered [OF inv' assms(3,2,4,5)] by blast
qed

theorem sockets_deliver_witness:
  "let ha = small_host 5; hb = small_host 7; gai = ipv4_hosts; gni = ipv4_names
   in \<exists>ra sa rb sb. ss_network gai gni ha hb ra sa rb sb \<and> sk_app (ss_world sa) = [1, 2, 3] \<and>
    prefix (hs_to_app hb (ss_world sb)) (hs_from_app ha (ss_world sa)) \<and>
    prefix (hs_to_app ha (ss_world sa)) (hs_from_app hb (ss_world sb)) \<and>
    (\<forall>b. ss_tcp sb = Some b \<longrightarrow> bs_eof (rcv_stream_out (tc_receiver b)) \<longrightarrow> hs_to_app hb (ss_world sb) = hs_from_app ha (ss_world sa)) \<and>
    (\<forall>a. ss_tcp sa = Some a \<longrightarrow> bs_eof (rcv_stream_out (tc_receiver a)) \<longrightarrow> hs_to_app ha (ss_world sa) = hs_from_app hb (ss_world sb)) \<and>
    outcome system_error (\<lambda>_. True) (hs_turn gai gni ha (\<lambda>_. False) 0 ra sa) \<and>
    outcome system_error (\<lambda>_. True) (hs_turn gai gni hb (\<lambda>_. False) 0 rb sb)"
proof -
  let ?ha = "small_host 5" and ?hb = "small_host 7" and ?gai = ipv4_hosts and ?gni = ipv4_names
  obtain ra sa rb sb where start: "ss_begun ?gai ?gni ?ha ra sa" "ss_begun ?gai ?gni ?hb rb sb" "sk_app (ss_world sa) = [1, 2, 3]"
    by (rule small_sockets_begin)
  have net: "ss_network ?gai ?gni ?ha ?hb ra sa rb sb" by (rule ssn_start [OF start(1,2)])
  show ?thesis unfolding Let_def
    by (rule exI [of _ ra], rule exI [of _ sa], rule exI [of _ rb], rule exI [of _ sb], rule conjI, rule net, rule conjI, rule start(3),
        rule sockets_deliver [OF net host_kernel_small host_kernel_small numeric_names_ipv4 numeric_hosts_ipv4])
qed

end
