(* ===== verification/Router.thy ===== *)
theory Router
  imports Network_Interface
begin

text \<open>
  The router of \<^verbatim>\<open>libsponge/router.{hh,cc}\<close>: interfaces that keep what they receive
  (\<^verbatim>\<open>AsyncNetworkInterface\<close>, a \<^verbatim>\<open>NetworkInterface\<close> with one more queue), a table of routes, and
  \<^verbatim>\<open>route\<close>, which forwards every received datagram on the interface of the longest prefix that
  matches its destination. The debugging output of \<^verbatim>\<open>add_route\<close> is left out.
\<close>

record async_network_interface =
  ai_ni :: network_interface
  ai_datagrams_out :: "ipv4_datagram list"

definition ai_init :: "network_interface \<Rightarrow> async_network_interface" where
  "ai_init interface = \<lparr>ai_ni = interface, ai_datagrams_out = []\<rparr>"

definition ai_recv_frame :: "ethernet_frame \<Rightarrow> async_network_interface \<Rightarrow> async_network_interface result" where
  "ai_recv_frame frame ai =
     bindE (ni_recv_frame frame (ai_ni ai)) (\<lambda>(optional_dgram, ni).
       let ai = ai\<lparr>ai_ni := ni\<rparr> in
       case optional_dgram of
         None \<Rightarrow> Inr ai
       | Some d \<Rightarrow> Inr (ai\<lparr>ai_datagrams_out := ai_datagrams_out ai @ [d]\<rparr>))"

text \<open>A route: prefix, prefix length, next hop if any, and interface number.\<close>

type_synonym route = "u32 \<times> u8 \<times> address option \<times> u64"

record router =
  rt_interfaces :: "async_network_interface list"
  rt_routerTable :: "route list"

definition rt_init :: router where
  "rt_init = \<lparr>rt_interfaces = [], rt_routerTable = []\<rparr>"

definition construct_binary_with_ones :: "int \<Rightarrow> u64 result" where
  "construct_binary_with_ones n =
     (if n < 0 \<or> n > 32 then Inl (Undefined_behaviour ''shift count out of range'')
      else Inr (push_bit (nat (32 - n)) (push_bit (nat n) 1 - 1)))"

definition rt_add_interface :: "async_network_interface \<Rightarrow> router \<Rightarrow> u64 \<times> router" where
  "rt_add_interface interface r =
     (let r = r\<lparr>rt_interfaces := rt_interfaces r @ [interface]\<rparr>
      in (sz (rt_interfaces r) - 1, r))"

definition rt_interface :: "u64 \<Rightarrow> router \<Rightarrow> async_network_interface result" where
  "rt_interface N r =
     (if unat N < length (rt_interfaces r) then Inr (rt_interfaces r ! unat N) else Inl (Out_of_range ''vector::at''))"

definition rt_add_route :: "u32 \<Rightarrow> u8 \<Rightarrow> address option \<Rightarrow> u64 \<Rightarrow> router \<Rightarrow> router" where
  "rt_add_route route_prefix prefix_length next_hop interface_num r =
     r\<lparr>rt_routerTable := rt_routerTable r @ [(route_prefix, prefix_length, next_hop, interface_num)]\<rparr>"

text \<open>
  The loop of \<^verbatim>\<open>route_one_datagram\<close> over the table from position \<open>i\<close> on. As in the code the
  index found is an \<^verbatim>\<open>int\<close>, here a 32-bit word whose value \<open>-1\<close> says that there is none.
\<close>

fun rt_scan :: "u32 \<Rightarrow> route list \<Rightarrow> nat \<Rightarrow> 32 word \<Rightarrow> u64 \<Rightarrow> (32 word \<times> u64) result" where
  "rt_scan dst [] i index maxPrefix = Inr (index, maxPrefix)"
| "rt_scan dst ((route_prefix, prefix_length, _, _) # table) i index maxPrefix =
     bindE (construct_binary_with_ones (uint prefix_length)) (\<lambda>ones.
       let bitMask = ucast ones :: u32 in
       if route_prefix AND bitMask \<noteq> dst AND bitMask then rt_scan dst table (i + 1) index maxPrefix
       else if ucast prefix_length \<ge> maxPrefix then rt_scan dst table (i + 1) (of_nat i) (ucast prefix_length)
       else rt_scan dst table (i + 1) index maxPrefix)"

definition rt_send :: "u64 \<Rightarrow> ipv4_datagram \<Rightarrow> address \<Rightarrow> router \<Rightarrow> router result" where
  "rt_send num dgram next_hop r =
     (if unat num < length (rt_interfaces r) then
        let ai = rt_interfaces r ! unat num in
        bindE (ni_send_datagram dgram next_hop (ai_ni ai)) (\<lambda>ni.
          Inr (r\<lparr>rt_interfaces := (rt_interfaces r)[unat num := ai\<lparr>ai_ni := ni\<rparr>]\<rparr>))
      else Inl (Undefined_behaviour ''interface number out of range''))"

definition rt_route_one_datagram :: "ipv4_datagram \<Rightarrow> router \<Rightarrow> router result" where
  "rt_route_one_datagram dgram r =
     (if ip_ttl (dg_header dgram) \<le> 1 then Inr r
      else
        let dgram = dgram\<lparr>dg_header := (dg_header dgram)\<lparr>ip_ttl := ip_ttl (dg_header dgram) - 1\<rparr>\<rparr> in
        bindE (rt_scan (ip_dst (dg_header dgram)) (rt_routerTable r) 0 (-1) 0) (\<lambda>(index, _).
          if index = -1 then Inr r
          else
            let position = unat (scast index :: u64) in
            if position < length (rt_routerTable r) then
              let (_, _, hop, num) = rt_routerTable r ! position in
              bindE (addr_from_ipv4_numeric (ip_dst (dg_header dgram))) (\<lambda>next_hop.
                let next_hop = (case hop of None \<Rightarrow> next_hop | Some a \<Rightarrow> a)
                in rt_send num dgram next_hop r)
            else Inl (Undefined_behaviour ''route number out of range'')))"

definition rt_pop :: "nat \<Rightarrow> router \<Rightarrow> router" where
  "rt_pop i r = r\<lparr>rt_interfaces := (rt_interfaces r)[i := (rt_interfaces r ! i)
     \<lparr>ai_datagrams_out := tl (ai_datagrams_out (rt_interfaces r ! i))\<rparr>]\<rparr>"

subsection \<open>Routing keeps the queues\<close>

definition rt_queues :: "router \<Rightarrow> ipv4_datagram list list" where
  "rt_queues r = map ai_datagrams_out (rt_interfaces r)"

lemma rt_queues_same: "ai_datagrams_out ai = ai_datagrams_out (xs ! i) \<Longrightarrow>
    map ai_datagrams_out (xs[i := ai]) = map ai_datagrams_out xs"
  by (cases "i < length xs") (auto simp: map_update list_update_same_conv list_update_beyond)

lemma rt_send_frame:
  assumes "rt_send num d hop r = Inr r'"
  shows "rt_queues r' = rt_queues r" "rt_routerTable r' = rt_routerTable r"
  using assms by (auto simp: rt_send_def rt_queues_def bindE_eq_Inr_iff Let_def rt_queues_same split: if_splits)

lemma rt_route_one_frame:
  assumes "rt_route_one_datagram d r = Inr r'"
  shows "rt_queues r' = rt_queues r" "rt_routerTable r' = rt_routerTable r"
  using assms
  by (auto simp: rt_route_one_datagram_def bindE_eq_Inr_iff Let_def rt_send_frame split: if_splits prod.splits)

lemma rt_queues_nth: "i < length (rt_interfaces r) \<Longrightarrow> ai_datagrams_out (rt_interfaces r ! i) = rt_queues r ! i"
  by (simp add: rt_queues_def)

lemma length_rt_queues [simp]: "length (rt_queues r) = length (rt_interfaces r)"
  by (simp add: rt_queues_def)

lemma rt_queues_pop: "i < length (rt_interfaces r) \<Longrightarrow> rt_queues (rt_pop i r) = (rt_queues r)[i := tl (rt_queues r ! i)]"
  by (simp add: rt_queues_def rt_pop_def map_update)

text \<open>The loop that empties the queue of one interface; every round takes one datagram from it.\<close>

function rt_drain :: "nat \<Rightarrow> router \<Rightarrow> router result" where
  "rt_drain i r =
     (if i < length (rt_interfaces r) then
        case ai_datagrams_out (rt_interfaces r ! i) of
          [] \<Rightarrow> Inr r
        | dgram # _ \<Rightarrow> bindE (rt_route_one_datagram dgram r) (\<lambda>r. rt_drain i (rt_pop i r))
      else Inr r)"
  by pat_completeness auto
termination
proof (relation "measure (\<lambda>(i, r). length (ai_datagrams_out (rt_interfaces r ! i)))")
  fix i r d q r'
  assume i: "i < length (rt_interfaces r)" and q: "ai_datagrams_out (rt_interfaces r ! i) = d # q"
    and r': "rt_route_one_datagram d r = Inr r'"
  have qs: "rt_queues r' = rt_queues r" by (rule rt_route_one_frame [OF r'])
  then have len: "length (rt_interfaces r') = length (rt_interfaces r)" using length_rt_queues by metis
  have "rt_queues (rt_pop i r') ! i = q" using i q len by (simp add: rt_queues_pop qs rt_queues_nth)
  then have "ai_datagrams_out (rt_interfaces (rt_pop i r') ! i) = q"
    using i len by (simp add: rt_queues_nth [symmetric] rt_pop_def)
  with q show "((i, rt_pop i r'), i, r) \<in> measure (\<lambda>(i, r). length (ai_datagrams_out (rt_interfaces r ! i)))" by simp
qed simp

declare rt_drain.simps [simp del]

fun rt_route_from :: "nat list \<Rightarrow> router \<Rightarrow> router result" where
  "rt_route_from [] r = Inr r"
| "rt_route_from (i # is) r = bindE (rt_drain i r) (rt_route_from is)"

definition rt_route :: "router \<Rightarrow> router result" where
  "rt_route r = rt_route_from [0..<length (rt_interfaces r)] r"

subsection \<open>The longest prefix\<close>

text \<open>
  The reference: a route matches when the destination has its prefix, and of the routes that
  match one with the longest prefix is taken, the latest added if there are several.
\<close>

fun route_matches :: "u32 \<Rightarrow> route \<Rightarrow> bool" where
  "route_matches dst (route_prefix, prefix_length, _, _) \<longleftrightarrow>
     drop_bit (32 - unat prefix_length) route_prefix = drop_bit (32 - unat prefix_length) dst"

declare route_matches.simps [simp del]

definition route_length :: "route \<Rightarrow> nat" where
  "route_length t = unat (fst (snd t))"

definition last_max :: "('a \<Rightarrow> nat) \<Rightarrow> 'a list \<Rightarrow> 'a option" where
  "last_max f xs =
     (let longest = filter (\<lambda>x. \<forall>y \<in> set xs. f y \<le> f x) xs
      in if longest = [] then None else Some (last longest))"

definition longest_prefix_match :: "u32 \<Rightarrow> route list \<Rightarrow> route option" where
  "longest_prefix_match dst table = last_max route_length (filter (route_matches dst) table)"

lemma ones_mask:
  assumes "n \<le> 32"
  shows "\<exists>m. construct_binary_with_ones (int n) = Inr m \<and>
    ((p AND ucast m = d AND ucast m) \<longleftrightarrow> drop_bit (32 - n) p = drop_bit (32 - n) (d :: u32))"
proof -
  define m :: u64 where "m = push_bit (32 - n) (push_bit n 1 - 1)"
  have "push_bit n 1 - 1 = (mask n :: u64)" by (simp add: mask_eq_exp_minus_1 push_bit_eq_mult)
  then have m: "m = push_bit (32 - n) (mask n)" by (simp add: m_def)
  have bits: "bit (ucast m :: u32) i \<longleftrightarrow> 32 - n \<le> i \<and> i < 32" for i
    unfolding m using assms by (auto simp: bit_simps)
  have "(p AND ucast m = d AND ucast m) \<longleftrightarrow> (\<forall>i. 32 - n \<le> i \<and> i < 32 \<longrightarrow> bit p i = bit d i)"
    by (auto simp: bit_eq_iff bits bit_and_iff)
  also have "\<dots> \<longleftrightarrow> drop_bit (32 - n) p = drop_bit (32 - n) d"
  proof
    assume *: "\<forall>i. 32 - n \<le> i \<and> i < 32 \<longrightarrow> bit p i = bit d i"
    show "drop_bit (32 - n) p = drop_bit (32 - n) d"
    proof (rule bit_word_eqI)
      fix i
      show "bit (drop_bit (32 - n) p) i = bit (drop_bit (32 - n) d) i"
        using * bit_imp_le_length [of p "32 - n + i"] bit_imp_le_length [of d "32 - n + i"]
        by (cases "32 - n + i < 32") (auto simp: bit_drop_bit_eq)
    qed
  next
    assume *: "drop_bit (32 - n) p = drop_bit (32 - n) d"
    then have "bit (drop_bit (32 - n) p) j = bit (drop_bit (32 - n) d) j" for j by simp
    then have "bit p (32 - n + j) = bit d (32 - n + j)" for j by (simp add: bit_drop_bit_eq)
    then show "\<forall>i. 32 - n \<le> i \<and> i < 32 \<longrightarrow> bit p i = bit d i"
      by (metis le_add_diff_inverse)
  qed
  finally show ?thesis
    using assms by (intro exI [of _ m]) (simp add: construct_binary_with_ones_def nat_diff_distrib m_def)
qed

lemma last_max_None [simp]: "last_max f xs = None \<longleftrightarrow> xs = []"
proof
  assume *: "last_max f xs = None"
  show "xs = []"
  proof (rule ccontr)
    assume "xs \<noteq> []"
    then have "Max (f ` set xs) \<in> f ` set xs" by (intro Max_in) auto
    then obtain x where "x \<in> set xs" "f x = Max (f ` set xs)" by (metis imageE)
    with * show False by (auto simp: last_max_def Let_def filter_empty_conv split: if_splits)
  qed
qed (simp add: last_max_def)

lemma last_max_Some: "last_max f xs = Some x \<Longrightarrow> x \<in> set xs \<and> (\<forall>y \<in> set xs. f y \<le> f x)"
  using last_in_set [of "filter (\<lambda>x. \<forall>y \<in> set xs. f y \<le> f x) xs"]
  by (auto simp: last_max_def Let_def split: if_splits)

lemma last_max_snoc:
  "last_max f (xs @ [x]) =
     (case last_max f xs of None \<Rightarrow> Some x | Some y \<Rightarrow> if f y \<le> f x then Some x else Some y)"
proof (cases "last_max f xs")
  case None
  then have "xs = []" by simp
  then show ?thesis by (simp add: last_max_def)
next
  case (Some y)
  note y = last_max_Some [OF this]
  show ?thesis
  proof (cases "f y \<le> f x")
    case True
    then have "\<forall>z \<in> set xs. f z \<le> f x" using y by (meson le_trans)
    with Some True show ?thesis by (simp add: last_max_def [of f "xs @ [x]"])
  next
    case False
    then have "filter (\<lambda>z. f x \<le> f z \<and> (\<forall>y \<in> set xs. f y \<le> f z)) xs = filter (\<lambda>z. \<forall>y \<in> set xs. f y \<le> f z) xs"
      using y by (intro filter_cong refl) (meson le_trans nat_le_linear)
    moreover have "\<not> (\<forall>z \<in> set xs. f z \<le> f x)" using False y by blast
    ultimately show ?thesis using Some False by (auto simp: last_max_def Let_def conj_commute split: if_splits)
  qed
qed

lemma longest_prefix_match_Some:
  assumes "longest_prefix_match dst table = Some t"
  shows "t \<in> set table" "route_matches dst t"
    "\<forall>t' \<in> set table. route_matches dst t' \<longrightarrow> route_length t' \<le> route_length t"
  using last_max_Some [OF assms [unfolded longest_prefix_match_def]] by (simp_all del: split_paired_All)

lemma longest_prefix_match_snoc:
  "longest_prefix_match dst (table @ [t]) =
     (if route_matches dst t then
        case longest_prefix_match dst table of
          None \<Rightarrow> Some t
        | Some s \<Rightarrow> if route_length s \<le> route_length t then Some t else Some s
      else longest_prefix_match dst table)"
  by (simp add: longest_prefix_match_def last_max_snoc)

text \<open>The loop finds the reference's route.\<close>

lemma unat_prefix_length: "unat (ucast (n :: u8) :: u64) = unat n"
  using unat_u8_lt [of n] by (simp add: unsigned_ucast_eq take_bit_nat_eq_self_iff)

definition rt_found :: "u32 \<Rightarrow> route list \<Rightarrow> 32 word \<Rightarrow> u64 \<Rightarrow> bool" where
  "rt_found dst table index maxPrefix \<longleftrightarrow>
     (case longest_prefix_match dst table of
        None \<Rightarrow> index = -1 \<and> maxPrefix = 0
      | Some t \<Rightarrow> \<exists>k < length table. table ! k = t \<and> index = of_nat k \<and> unat maxPrefix = route_length t)"

lemma rt_found_skip:
  "rt_found dst xs index m \<Longrightarrow> longest_prefix_match dst (xs @ [t]) = longest_prefix_match dst xs \<Longrightarrow>
   rt_found dst (xs @ [t]) index m"
  by (fastforce simp: rt_found_def nth_append split: option.splits)

lemma rt_found_take:
  "longest_prefix_match dst (xs @ [t]) = Some t \<Longrightarrow> rt_found dst (xs @ [t]) (of_nat (length xs)) (ucast (fst (snd t)))"
  by (auto simp: rt_found_def route_length_def unat_prefix_length intro!: exI [of _ "length xs"])

lemma rt_scan_found:
  assumes "rt_found dst xs index m" and "\<forall>t \<in> set ys. route_length t \<le> 32"
  shows "ensures (rt_scan dst ys (length xs) index m) (\<lambda>(index', m'). rt_found dst (xs @ ys) index' m')"
  using assms
proof (induction ys arbitrary: xs index m)
  case (Cons t ys)
  obtain p n hop num where t: "t = (p, n, hop, num)" by (cases t)
  have len: "unat n \<le> 32" "route_length t = unat n" using Cons.prems(2) by (simp_all add: t route_length_def)
  from ones_mask [OF len(1), where p = p and d = dst] obtain ones where ones: "construct_binary_with_ones (uint n) = Inr ones"
    and match: "p AND ucast ones = dst AND ucast ones \<longleftrightarrow> route_matches dst t"
    by (auto simp: t route_matches.simps)
  have max: "m \<le> ucast n \<longleftrightarrow> unat m \<le> route_length t"
    by (simp add: len(2) word_le_nat_alt unat_prefix_length)
  have IH: "ensures (rt_scan dst ys (length xs + 1) index' m') (\<lambda>(index', m'). rt_found dst (xs @ t # ys) index' m')"
    if "rt_found dst (xs @ [t]) index' m'" for index' m'
    using Cons.IH [OF that] Cons.prems(2) by simp
  show ?case
  proof (cases "route_matches dst t \<and> unat m \<le> route_length t")
    case True
    have "longest_prefix_match dst (xs @ [t]) = Some t"
      using True Cons.prems(1) by (auto simp: longest_prefix_match_snoc rt_found_def split: option.splits)
    from rt_found_take [OF this] have "rt_found dst (xs @ [t]) (of_nat (length xs)) (ucast n)" by (simp add: t)
    from IH [OF this] True match max show ?thesis by (simp add: t ones Let_def)
  next
    case False
    have "longest_prefix_match dst (xs @ [t]) = longest_prefix_match dst xs"
      using False Cons.prems(1) by (auto simp: longest_prefix_match_snoc rt_found_def split: option.splits)
    from IH [OF rt_found_skip [OF Cons.prems(1) this]] False match max show ?thesis by (auto simp: t ones Let_def)
  qed
qed simp

definition rt_hop :: "u32 \<Rightarrow> route \<Rightarrow> address" where
  "rt_hop dst t = (case fst (snd (snd t)) of None \<Rightarrow> inet dst 0 | Some a \<Rightarrow> a)"

definition dg_hop_down :: "ipv4_datagram \<Rightarrow> ipv4_datagram" where
  "dg_hop_down d = d\<lparr>dg_header := (dg_header d)\<lparr>ip_ttl := ip_ttl (dg_header d) - 1\<rparr>\<rparr>"

lemma scast_index: "k < 2 ^ 31 \<Longrightarrow> unat (scast (of_nat k :: 32 word) :: u64) = k \<and> (of_nat k :: 32 word) \<noteq> -1"
proof -
  assume k: "k < 2 ^ 31"
  then have u: "unat (of_nat k :: 32 word) = k" by (simp add: unat_of_nat take_bit_eq_mod)
  have "sint (of_nat k :: 32 word) = int k"
    using k by (simp add: signed_of_nat signed_take_bit_int_eq_self)
  then have "(scast (of_nat k :: 32 word) :: u64) = of_nat k" by (simp add: scast_eq)
  moreover have "unat (of_nat k :: u64) = k" using k by (simp add: unat_of_nat take_bit_eq_mod)
  moreover have "(of_nat k :: 32 word) \<noteq> -1"
  proof
    assume "(of_nat k :: 32 word) = -1"
    then have "k = unat (-1 :: 32 word)" using u by simp
    also have "\<dots> = 2 ^ 32 - 1" by (simp add: unsigned_minus_1_eq_mask mask_eq_exp_minus_1)
    finally show False using k by simp
  qed
  ultimately show ?thesis by simp
qed

text \<open>What becomes of a datagram: the interface, the datagram with its lifetime counted down, and the next hop.\<close>

definition rt_forward :: "route list \<Rightarrow> ipv4_datagram \<Rightarrow> (nat \<times> ipv4_datagram \<times> address) option" where
  "rt_forward table d =
     (if ip_ttl (dg_header d) \<le> 1 then None
      else case longest_prefix_match (ip_dst (dg_header d)) table of
             None \<Rightarrow> None
           | Some t \<Rightarrow> Some (unat (snd (snd (snd t))), dg_hop_down d, rt_hop (ip_dst (dg_header d)) t))"

definition rt_deliver :: "nat \<Rightarrow> ipv4_datagram \<Rightarrow> address \<Rightarrow> router \<Rightarrow> router result" where
  "rt_deliver i d hop r =
     (if i < length (rt_interfaces r) then
        bindE (ni_send_datagram d hop (ai_ni (rt_interfaces r ! i))) (\<lambda>ni.
          Inr (r\<lparr>rt_interfaces := (rt_interfaces r)[i := (rt_interfaces r ! i)\<lparr>ai_ni := ni\<rparr>]\<rparr>))
      else Inl (Undefined_behaviour ''interface number out of range''))"

definition rt_table_ok :: "route list \<Rightarrow> bool" where
  "rt_table_ok table \<longleftrightarrow> length table < 2 ^ 31 \<and> list_all (\<lambda>t. route_length t \<le> 32) table"

lemma rt_route_one_eq:
  assumes "rt_table_ok (rt_routerTable r)"
  shows "rt_route_one_datagram d r =
    (case rt_forward (rt_routerTable r) d of None \<Rightarrow> Inr r | Some (i, d', hop) \<Rightarrow> rt_deliver i d' hop r)"
proof -
  let ?dst = "ip_dst (dg_header d)" and ?table = "rt_routerTable r"
  have "rt_found ?dst [] (-1) 0" by (simp add: rt_found_def longest_prefix_match_def last_max_def)
  from rt_scan_found [OF this, of ?table] assms obtain index m where
    scan: "rt_scan ?dst ?table 0 (-1) 0 = Inr (index, m)" and found: "rt_found ?dst ?table index m"
    by (auto simp: ensures_iff rt_table_ok_def list_all_iff)
  show ?thesis
  proof (cases "longest_prefix_match ?dst ?table")
    case None
    with found scan show ?thesis by (simp add: rt_found_def rt_route_one_datagram_def rt_forward_def Let_def)
  next
    case (Some t)
    with found obtain k where k: "k < length ?table" "?table ! k = t" "index = of_nat k"
      by (auto simp: rt_found_def)
    with assms scast_index [of k] have "unat (scast index :: u64) = k" "index \<noteq> -1" by (simp_all add: rt_table_ok_def)
    with k scan Some show ?thesis
      by (cases t) (simp add: rt_route_one_datagram_def rt_forward_def rt_deliver_def rt_send_def Let_def dg_hop_down_def rt_hop_def)
  qed
qed

subsection \<open>Routing everything\<close>

fun ni_send_all :: "(ipv4_datagram \<times> address) list \<Rightarrow> network_interface \<Rightarrow> network_interface result" where
  "ni_send_all [] ni = Inr ni"
| "ni_send_all ((d, hop) # ds) ni = bindE (ni_send_datagram d hop ni) (ni_send_all ds)"

lemma ni_send_all_append: "ni_send_all (xs @ ys) ni = bindE (ni_send_all xs ni) (ni_send_all ys)"
proof (induction xs arbitrary: ni)
  case (Cons x xs)
  then show ?case by (cases x; cases "ni_send_datagram (fst x) (snd x) ni") simp_all
qed simp

text \<open>The share of interface \<open>i\<close> in the datagrams to route.\<close>

fun rt_share :: "route list \<Rightarrow> nat \<Rightarrow> ipv4_datagram list \<Rightarrow> (ipv4_datagram \<times> address) list" where
  "rt_share table i [] = []"
| "rt_share table i (d # ds) =
     (case rt_forward table d of
        None \<Rightarrow> rt_share table i ds
      | Some (j, d', hop) \<Rightarrow> if j = i then (d', hop) # rt_share table i ds else rt_share table i ds)"

lemma rt_share_append: "rt_share table i (xs @ ys) = rt_share table i xs @ rt_share table i ys"
  by (induction xs) (auto split: option.split)

definition rt_moved :: "ipv4_datagram list \<Rightarrow> router \<Rightarrow> router \<Rightarrow> bool" where
  "rt_moved ds r r' \<longleftrightarrow> rt_routerTable r' = rt_routerTable r \<and> length (rt_interfaces r') = length (rt_interfaces r) \<and>
     (\<forall>i < length (rt_interfaces r).
        ni_send_all (rt_share (rt_routerTable r) i ds) (ai_ni (rt_interfaces r ! i)) = Inr (ai_ni (rt_interfaces r' ! i)))"

lemma rt_moved_Nil: "rt_moved [] r r"
  by (simp add: rt_moved_def)

lemma rt_moved_append: "rt_moved ds r r1 \<Longrightarrow> rt_moved es r1 r2 \<Longrightarrow> rt_moved (ds @ es) r r2"
  by (auto simp: rt_moved_def rt_share_append ni_send_all_append)

lemma rt_pop_simps [simp]:
  "j < length (rt_interfaces r) \<Longrightarrow> ai_ni (rt_interfaces (rt_pop i r) ! j) = ai_ni (rt_interfaces r ! j)"
  "length (rt_interfaces (rt_pop i r)) = length (rt_interfaces r)"
  "rt_routerTable (rt_pop i r) = rt_routerTable r"
  by (cases "i = j") (simp_all add: rt_pop_def)

lemma rt_moved_pop: "rt_moved ds r r' \<Longrightarrow> rt_moved ds r (rt_pop i r')"
  by (simp add: rt_moved_def)

text \<open>A router that can route: valid routes, IPv4 next hops, IPv4 interfaces.\<close>

definition rt_ok :: "router \<Rightarrow> bool" where
  "rt_ok r \<longleftrightarrow> rt_table_ok (rt_routerTable r) \<and>
     list_all (\<lambda>(_, _, hop, num). unat num < length (rt_interfaces r) \<and>
       (case hop of None \<Rightarrow> True | Some a \<Rightarrow> \<exists>ip. addr_ipv4_numeric a = Inr ip)) (rt_routerTable r) \<and>
     list_all (\<lambda>ai. \<exists>ip. addr_ipv4_numeric (ni_ip_address (ai_ni ai)) = Inr ip) (rt_interfaces r)"

lemma dg_wf_hop_down [simp]: "dg_wf (dg_hop_down d) = dg_wf d"
  by (simp add: dg_wf_def dg_hop_down_def ip_wf_def)

lemma ni_send_ok:
  assumes "addr_ipv4_numeric hop = Inr ip" and "addr_ipv4_numeric (ni_ip_address ni) = Inr my" and "dg_wf d"
  shows "\<exists>ni'. ni_send_datagram d hop ni = Inr ni' \<and> ni_ip_address ni' = ni_ip_address ni"
proof (cases "ni_cacheMap ni ip")
  case None
  from ni_send_unknown [OF assms(1) None assms(2), of d] show ?thesis by fastforce
next
  case (Some m)
  obtain bl where "dg_serialize d = Inr bl" using dg_wf_serialize [OF assms(3)] by blast
  with ni_send_cached [OF assms(1), of ni] Some show ?thesis by (cases m) simp
qed

lemma rt_forward_ok:
  assumes "rt_ok r" and "rt_forward (rt_routerTable r) d = Some (i, d', hop)"
  shows "i < length (rt_interfaces r)" "d' = dg_hop_down d" "\<exists>ip. addr_ipv4_numeric hop = Inr ip"
proof -
  from assms(2) obtain t where t: "longest_prefix_match (ip_dst (dg_header d)) (rt_routerTable r) = Some t"
    "i = unat (snd (snd (snd t)))" "d' = dg_hop_down d" "hop = rt_hop (ip_dst (dg_header d)) t"
    by (auto simp: rt_forward_def split: if_splits option.splits)
  from longest_prefix_match_Some(1) [OF t(1)] assms(1)
  show "i < length (rt_interfaces r)" "d' = dg_hop_down d" "\<exists>ip. addr_ipv4_numeric hop = Inr ip"
    by (auto simp: rt_ok_def list_all_iff t(2-4) rt_hop_def split: option.split)
qed

lemma rt_route_one_ok:
  assumes ok: "rt_ok r" and wf: "dg_wf d"
  shows "\<exists>r'. rt_route_one_datagram d r = Inr r' \<and> rt_ok r' \<and> rt_moved [d] r r' \<and> rt_queues r' = rt_queues r"
proof (cases "rt_forward (rt_routerTable r) d")
  case None
  with ok show ?thesis
    by (intro exI [of _ r]) (simp add: rt_route_one_eq rt_ok_def rt_moved_def)
next
  case (Some f)
  obtain i d' hop where f: "f = (i, d', hop)" by (cases f)
  note fwd = rt_forward_ok [OF ok Some [unfolded f]]
  let ?ai = "rt_interfaces r ! i"
  obtain ip where ip: "addr_ipv4_numeric hop = Inr ip" using fwd(3) by blast
  obtain my where my: "addr_ipv4_numeric (ni_ip_address (ai_ni ?ai)) = Inr my"
    using ok fwd(1) by (auto simp: rt_ok_def list_all_length)
  have "dg_wf d'" using wf fwd(2) by simp
  from ni_send_ok [OF ip my this] obtain ni' where ni': "ni_send_datagram d' hop (ai_ni ?ai) = Inr ni'"
    "ni_ip_address ni' = ni_ip_address (ai_ni ?ai)" by blast
  let ?r = "r\<lparr>rt_interfaces := (rt_interfaces r)[i := ?ai\<lparr>ai_ni := ni'\<rparr>]\<rparr>"
  have eq: "rt_route_one_datagram d r = Inr ?r"
    using ok Some f fwd(1) ni'(1) by (simp add: rt_route_one_eq rt_ok_def rt_deliver_def)
  moreover have "rt_ok ?r"
    using ok fwd(1) my ni'(2) by (auto simp: rt_ok_def list_all_length nth_list_update)
  moreover have "rt_moved [d] r ?r"
    using Some f fwd(1) ni'(1) by (auto simp: rt_moved_def nth_list_update)
  ultimately show ?thesis using rt_route_one_frame(1) [OF eq] by blast
qed

lemma rt_ok_pop: "rt_ok r \<Longrightarrow> rt_ok (rt_pop i r)"
  by (simp add: rt_ok_def list_all_length)

lemma rt_drain_ok:
  assumes "rt_ok r" and "i < length (rt_interfaces r)" and "list_all dg_wf (rt_queues r ! i)"
  shows "\<exists>r'. rt_drain i r = Inr r' \<and> rt_ok r' \<and> rt_moved (rt_queues r ! i) r r' \<and> rt_queues r' = (rt_queues r)[i := []]"
  using assms
proof (induction "rt_queues r ! i" arbitrary: r)
  case Nil
  then have "(rt_queues r)[i := []] = rt_queues r" by (metis list_update_id)
  with Nil show ?case
    by (intro exI [of _ r]) (simp add: rt_drain.simps [of i r] rt_queues_nth rt_moved_Nil flip: Nil.hyps)
next
  case (Cons d q)
  have wf: "dg_wf d" "list_all dg_wf q" using Cons.prems(3) by (simp_all flip: Cons.hyps(2))
  from rt_route_one_ok [OF Cons.prems(1) wf(1)] obtain r1 where
    r1: "rt_route_one_datagram d r = Inr r1" "rt_ok r1" "rt_moved [d] r r1" "rt_queues r1 = rt_queues r" by blast
  have len: "length (rt_interfaces r1) = length (rt_interfaces r)" using r1(3) by (simp add: rt_moved_def)
  let ?r = "rt_pop i r1"
  have qs: "rt_queues ?r = (rt_queues r)[i := q]"
    using Cons.prems(2) len by (simp add: rt_queues_pop r1(4) flip: Cons.hyps(2))
  have "\<exists>r'. rt_drain i ?r = Inr r' \<and> rt_ok r' \<and> rt_moved (rt_queues ?r ! i) ?r r' \<and> rt_queues r' = (rt_queues ?r)[i := []]"
    by (rule Cons.hyps(1)) (use Cons.prems(2) len wf r1(2) in \<open>simp_all add: qs rt_ok_pop\<close>)
  then obtain r' where r': "rt_drain i ?r = Inr r'" "rt_ok r'" "rt_moved q ?r r'" "rt_queues r' = (rt_queues r)[i := []]"
    using Cons.prems(2) by (auto simp: qs)
  have "rt_drain i r = rt_drain i ?r"
    using Cons.prems(2) r1(1) by (simp add: rt_drain.simps [of i r] rt_queues_nth flip: Cons.hyps(2))
  moreover have "rt_moved (d # q) r r'" using rt_moved_append [OF rt_moved_pop [OF r1(3)] r'(3)] by simp
  ultimately show ?case using r' by (auto simp flip: Cons.hyps(2))
qed

lemma map_const_update: "map (\<lambda>_. c) (xs[k := x]) = map (\<lambda>_. c) xs"
  by (simp add: map_replicate_const)

lemma rt_route_from_ok:
  assumes "rt_ok r" and "\<forall>q \<in> set (rt_queues r). list_all dg_wf q" and "k + n = length (rt_interfaces r)"
    and "\<forall>j < k. rt_queues r ! j = []"
  shows "\<exists>r'. rt_route_from [k..<k + n] r = Inr r' \<and> rt_moved (concat (drop k (rt_queues r))) r r' \<and>
    rt_queues r' = map (\<lambda>_. []) (rt_queues r)"
  using assms
proof (induction n arbitrary: k r)
  case 0
  then have "rt_queues r = map (\<lambda>_. []) (rt_queues r)" by (intro nth_equalityI) auto
  with 0 show ?case by (intro exI [of _ r]) (simp add: rt_moved_Nil)
next
  case (Suc n)
  then have k: "k < length (rt_interfaces r)" by simp
  then have "list_all dg_wf (rt_queues r ! k)" using Suc.prems(2) by simp
  from rt_drain_ok [OF Suc.prems(1) k this] obtain r1 where r1: "rt_drain k r = Inr r1" "rt_ok r1"
    "rt_moved (rt_queues r ! k) r r1" "rt_queues r1 = (rt_queues r)[k := []]" by blast
  have "\<exists>r'. rt_route_from [Suc k..<Suc k + n] r1 = Inr r' \<and> rt_moved (concat (drop (Suc k) (rt_queues r1))) r1 r' \<and>
      rt_queues r' = map (\<lambda>_. []) (rt_queues r1)"
  proof (rule Suc.IH)
    show "\<forall>q \<in> set (rt_queues r1). list_all dg_wf q"
      using Suc.prems(2) set_update_subset_insert [of "rt_queues r" k "[]"] by (auto simp: r1(4))
    show "Suc k + n = length (rt_interfaces r1)" using r1(3) Suc.prems(3) by (simp add: rt_moved_def)
    show "\<forall>j < Suc k. rt_queues r1 ! j = []" using Suc.prems(4) k by (auto simp: r1(4) less_Suc_eq nth_list_update)
  qed (rule r1(2))
  then obtain r' where r': "rt_route_from [Suc k..<Suc k + n] r1 = Inr r'" "rt_moved (concat (drop (Suc k) (rt_queues r))) r1 r'"
    "rt_queues r' = map (\<lambda>_. []) (rt_queues r)" by (auto simp: r1(4) map_const_update simp del: upt_Suc)
  have "drop k (rt_queues r) = rt_queues r ! k # drop (Suc k) (rt_queues r)" using k by (simp add: Cons_nth_drop_Suc)
  then have "rt_moved (concat (drop k (rt_queues r))) r r'" using rt_moved_append [OF r1(3) r'(2)] by simp
  moreover have "rt_route_from [k..<k + Suc n] r = Inr r'" using r1(1) r'(1) by (simp add: upt_conv_Cons del: upt_Suc)
  ultimately show ?case using r'(3) by blast
qed

subsection \<open>Properties\<close>

text \<open>
  C29. The router forwards by the longest matching prefix. With at most \<open>2 ^ 31 - 1\<close> routes whose
  prefix lengths are at most 32, the loop over bit masks decides as the reference does: a
  datagram whose lifetime is used up, or that no route matches, changes nothing; any other is
  given, its lifetime counted down by one, to the interface of the longest matching prefix (the
  latest such route), with the route's next hop, or the destination itself if it has none.
\<close>

theorem routes_by_longest_prefix:
  assumes "length (rt_routerTable r) < 2 ^ 31" and "\<forall>t \<in> set (rt_routerTable r). route_length t \<le> 32"
  shows "rt_route_one_datagram d r =
    (if ip_ttl (dg_header d) \<le> 1 then Inr r
     else case longest_prefix_match (ip_dst (dg_header d)) (rt_routerTable r) of
            None \<Rightarrow> Inr r
          | Some (_, _, hop, num) \<Rightarrow>
              rt_send num (d\<lparr>dg_header := (dg_header d)\<lparr>ip_ttl := ip_ttl (dg_header d) - 1\<rparr>\<rparr>)
                (case hop of None \<Rightarrow> inet (ip_dst (dg_header d)) 0 | Some a \<Rightarrow> a) r)"
proof -
  have "rt_table_ok (rt_routerTable r)" using assms by (simp add: rt_table_ok_def list_all_iff)
  then show ?thesis
    by (simp add: rt_route_one_eq rt_forward_def rt_deliver_def rt_send_def rt_hop_def dg_hop_down_def Let_def split: option.split)
qed

theorem routes_by_longest_prefix_witness:
  "let r = rt_add_route 0x0A010000 16 None 1 (rt_add_route 0x0A000000 8 None 0 rt_init);
       d = dg_default\<lparr>dg_header := ip_default\<lparr>ip_dst := 0x0A010203\<rparr>\<rparr>
   in rt_route_one_datagram d r =
    (if ip_ttl (dg_header d) \<le> 1 then Inr r
     else case longest_prefix_match (ip_dst (dg_header d)) (rt_routerTable r) of
            None \<Rightarrow> Inr r
          | Some (_, _, hop, num) \<Rightarrow>
              rt_send num (d\<lparr>dg_header := (dg_header d)\<lparr>ip_ttl := ip_ttl (dg_header d) - 1\<rparr>\<rparr>)
                (case hop of None \<Rightarrow> inet (ip_dst (dg_header d)) 0 | Some a \<Rightarrow> a) r) \<and>
      longest_prefix_match 0x0A010203 (rt_routerTable r) = Some (0x0A010000, 16, None, 1)"
proof -
  let ?r = "rt_add_route 0x0A010000 16 None 1 (rt_add_route 0x0A000000 8 None 0 rt_init)"
  have "longest_prefix_match 0x0A010203 (rt_routerTable ?r) = Some (0x0A010000, 16, None, 1)" by code_simp
  moreover have "length (rt_routerTable ?r) < 2 ^ 31" "\<forall>t \<in> set (rt_routerTable ?r). route_length t \<le> 32"
    by (simp_all add: rt_add_route_def rt_init_def route_length_def)
  ultimately show ?thesis unfolding Let_def by (intro conjI routes_by_longest_prefix)
qed

text \<open>
  C30. Routing terminates, empties every queue and loses nothing. For a router with valid routes,
  IPv4 next hops and IPv4 interfaces whose received datagrams can be serialized, \<^verbatim>\<open>route\<close>
  returns without an exception, no interface has received datagrams left, and every interface
  is in the state it reaches by sending, in order, exactly the datagrams of all queues that the
  longest prefix assigns to it, their lifetime counted down.
\<close>

theorem route_forwards_all:
  assumes "rt_ok r" and "\<forall>ai \<in> set (rt_interfaces r). list_all dg_wf (ai_datagrams_out ai)"
  shows "\<exists>r'. rt_route r = Inr r' \<and> length (rt_interfaces r') = length (rt_interfaces r) \<and>
    (\<forall>i < length (rt_interfaces r). ai_datagrams_out (rt_interfaces r' ! i) = [] \<and>
      ni_send_all (rt_share (rt_routerTable r) i (concat (map ai_datagrams_out (rt_interfaces r)))) (ai_ni (rt_interfaces r ! i)) =
        Inr (ai_ni (rt_interfaces r' ! i)))"
proof -
  have "\<forall>q \<in> set (rt_queues r). list_all dg_wf q" using assms(2) by (simp add: rt_queues_def)
  from rt_route_from_ok [OF assms(1) this, of 0] obtain r' where r': "rt_route r = Inr r'"
    "rt_moved (concat (rt_queues r)) r r'" "rt_queues r' = map (\<lambda>_. []) (rt_queues r)"
    by (auto simp: rt_route_def)
  have "ai_datagrams_out (rt_interfaces r' ! i) = []" if "i < length (rt_interfaces r)" for i
    using that r'(2,3) by (simp add: rt_queues_nth rt_moved_def)
  with r'(1,2) show ?thesis by (auto simp: rt_moved_def rt_queues_def)
qed

theorem route_forwards_all_witness:
  "let ai = (\<lambda>ip. ai_init (ni_init (replicate 6 1) (inet ip 0)));
       d = \<lparr>dg_header = ip_default\<lparr>ip_len := 22, ip_dst := 0x0A010203\<rparr>, dg_payload = [buffer_of [1, 2]]\<rparr>;
       r = \<lparr>rt_interfaces = [(ai 7)\<lparr>ai_datagrams_out := [d, d]\<rparr>, ai 9],
            rt_routerTable = [(0x0A000000, 8, None, 1), (0, 0, Some (inet 8 0), 0)]\<rparr>
   in \<exists>r'. rt_route r = Inr r' \<and> length (rt_interfaces r') = length (rt_interfaces r) \<and>
    (\<forall>i < length (rt_interfaces r). ai_datagrams_out (rt_interfaces r' ! i) = [] \<and>
      ni_send_all (rt_share (rt_routerTable r) i (concat (map ai_datagrams_out (rt_interfaces r)))) (ai_ni (rt_interfaces r ! i)) =
        Inr (ai_ni (rt_interfaces r' ! i)))"
  unfolding Let_def
  by (rule route_forwards_all)
    (simp_all add: rt_ok_def rt_table_ok_def route_length_def ai_init_def ni_init_def dg_wf_def ip_wf_def ip_default_def
      buffer_list_concatenate_eq)

text \<open>
  C31. A datagram that was accepted although its header is malformed makes the router throw.
  \<^verbatim>\<open>IPv4Datagram::parse\<close> drops the verdict of the header's parser, so an interface hands on a
  datagram of another IP version whose length fields are consistent; when it is forwarded to a
  next hop whose Ethernet address is known, \<^verbatim>\<open>serialize\<close> throws, and the exception leaves
  \<^verbatim>\<open>route_one_datagram\<close> and with it \<^verbatim>\<open>route\<close>. The witness receives such a frame from the wire.
\<close>

theorem malformed_datagram_stops_router:
  assumes "length (rt_routerTable r) < 2 ^ 31" and "\<forall>t \<in> set (rt_routerTable r). route_length t \<le> 32"
    and "ip_ver (dg_header d) \<noteq> 4" and "buffer_list_size (dg_payload d) = unat (ip_payload_length (dg_header d))"
    and "ip_ttl (dg_header d) > 1"
    and "longest_prefix_match (ip_dst (dg_header d)) (rt_routerTable r) = Some (p, n, hop, num)"
    and "unat num < length (rt_interfaces r)"
    and "addr_ipv4_numeric (case hop of None \<Rightarrow> inet (ip_dst (dg_header d)) 0 | Some a \<Rightarrow> a) = Inr ip"
    and "ni_cacheMap (ai_ni (rt_interfaces r ! unat num)) ip = Some (mac, t)"
  shows "rt_route_one_datagram d r = Inl (Runtime_error ''wrong IP version'')"
proof -
  have "dg_serialize (dg_hop_down d) = Inl (Runtime_error ''wrong IP version'')"
    using assms(3,4) by (simp add: dg_serialize_def dg_hop_down_def ip_serialize_def ip_payload_length_def Let_def)
  moreover have "rt_table_ok (rt_routerTable r)" using assms by (simp add: rt_table_ok_def list_all_iff)
  ultimately show ?thesis
    using assms by (simp add: rt_route_one_eq rt_forward_def rt_deliver_def rt_hop_def ni_send_datagram_def)
qed

theorem malformed_datagram_stops_router_witness:
  "let ai = ai_init ((ni_init (replicate 6 1) (inet 7 0))\<lparr>ni_cacheMap := [9 \<mapsto> (replicate 6 3, 1000)]\<rparr>);
       frame = \<lparr>ef_header = \<lparr>eh_dst = replicate 6 1, eh_src = replicate 6 2, eh_type = TYPE_IPv4\<rparr>,
                ef_payload = [buffer_of [0x65, 0, 0, 20, 0, 0, 0, 0, 64, 6, 0, 0, 0, 0, 0, 5, 0, 0, 0, 9]]\<rparr>
   in \<exists>d. ni_recv_frame frame (ai_ni ai) = Inr (Some d, ai_ni ai) \<and>
     rt_route_one_datagram d \<lparr>rt_interfaces = [ai], rt_routerTable = [(0, 0, None, 0)]\<rparr> =
       Inl (Runtime_error ''wrong IP version'')"
proof -
  let ?b = "buffer_of [0x65, 0, 0, 20, 0, 0, 0, 0, 64, 6, 0, 0, 0, 0, 0, 5, 0, 0, 0, 9]"
  let ?ai = "ai_init ((ni_init (replicate 6 1) (inet 7 0))\<lparr>ni_cacheMap := [9 \<mapsto> (replicate 6 3, 1000)]\<rparr>)"
  let ?frame = "\<lparr>ef_header = \<lparr>eh_dst = replicate 6 1, eh_src = replicate 6 2, eh_type = TYPE_IPv4\<rparr>, ef_payload = [?b]\<rparr>"
  have "case dg_parse ?b dg_default of Inl _ \<Rightarrow> False | Inr (res, d) \<Rightarrow> res = NoError \<and>
      ip_ver (dg_header d) \<noteq> 4 \<and> buffer_list_size (dg_payload d) = unat (ip_payload_length (dg_header d)) \<and>
      ip_ttl (dg_header d) > 1 \<and> ip_dst (dg_header d) = 9" by code_simp
  then obtain d where d: "dg_parse ?b dg_default = Inr (NoError, d)" "ip_ver (dg_header d) \<noteq> 4"
    "buffer_list_size (dg_payload d) = unat (ip_payload_length (dg_header d))" "ip_ttl (dg_header d) > 1"
    "ip_dst (dg_header d) = 9" by (auto split: sum.splits)
  have "longest_prefix_match 9 [(0, 0, None, 0)] = Some (0, 0, None, 0)" by code_simp
  then have "rt_route_one_datagram d \<lparr>rt_interfaces = [?ai], rt_routerTable = [(0, 0, None, 0)]\<rparr> =
       Inl (Runtime_error ''wrong IP version'')"
    by (intro malformed_datagram_stops_router [where p = 0 and n = 0 and hop = None and num = 0 and ip = 9])
      (use d in \<open>simp_all add: route_length_def ai_init_def ni_init_def\<close>)
  moreover have "ni_recv_frame ?frame (ai_ni ?ai) = Inr (Some d, ai_ni ?ai)"
    using d(1) by (simp add: ni_recv_frame_def buffer_list_concatenate_eq ai_init_def ni_init_def)
  ultimately show ?thesis by (auto simp: Let_def)
qed

end
