(* ===== verification/Ethernet_Path.thy ===== *)
theory Ethernet_Path
  imports Adapters
begin

text \<open>
  A TCP segment on its way through \<^verbatim>\<open>TCPOverIPv4OverEthernetAdapter\<close>: the composition of the
  TCP, IPv4, ARP and Ethernet layers at both ends, byte strings on the wire between them.
\<close>

lemma ni_recv_frame_cong:
  "ef_header f' = ef_header f \<Longrightarrow> buffer_list_concatenate (ef_payload f') = buffer_list_concatenate (ef_payload f) \<Longrightarrow>
   ni_recv_frame f' ni = ni_recv_frame f ni"
  by (simp add: ni_recv_frame_def)

lemma ea_read_frame:
  assumes "eh_wf (ef_header f)"
  shows "ea_read gai gni (buffer_list_concatenate (ef_serialize f)) ea =
    bindE (ni_recv_frame f (ea_interface ea)) (\<lambda>(ip_dgram, ni).
      case ip_dgram of
        None \<Rightarrow> Inr (None, map ef_serialize (ni_frames_out ni), ea\<lparr>ea_interface := ni\<lparr>ni_frames_out := []\<rparr>\<rparr>)
      | Some d \<Rightarrow> bindE (unwrap_tcp_in_ip gai gni d (ea_base ea)) (\<lambda>(seg, base).
          Inr (seg, map ef_serialize (ni_frames_out ni), ea\<lparr>ea_interface := ni\<lparr>ni_frames_out := []\<rparr>, ea_base := base\<rparr>)))"
proof -
  from ef_serialized [OF assms, of ef_default] obtain f' where
    "ef_parse (buffer_of (buffer_list_concatenate (ef_serialize f))) ef_default = Inr (NoError, f')"
    "ef_header f' = ef_header f" "buffer_list_concatenate (ef_payload f') = buffer_list_concatenate (ef_payload f)" by blast
  then show ?thesis
    using ni_recv_frame_cong [of f' f "ea_interface ea"]
    by (simp add: ea_read_def ea_send_pending_eq Let_def cong: option.case_cong)
qed

lemma ni_recv_frame_payload: "ni_recv_frame f ni = Inr (Some d, ni') \<Longrightarrow> \<exists>p. dg_payload d = [p]"
  by (auto simp: ni_recv_frame_def bindE_eq_Inr_iff split: if_splits dest: dg_parse_payload)

lemma wrapped_dg_wf:
  "ip_wf (dg_header d) \<Longrightarrow>
   unat (ip_len (dg_header d)) = 4 * unat (ip_hlen (dg_header d)) + length (buffer_list_concatenate (dg_payload d)) \<Longrightarrow> dg_wf d"
  by (simp add: dg_wf_def)

text \<open>The end that is asked, and the end that is told, as adapters.\<close>

definition ea_quiet :: "eth_adapter \<Rightarrow> u32 \<Rightarrow> u32 \<Rightarrow> bool" where
  "ea_quiet ea my ip \<longleftrightarrow> addr_ipv4_numeric (ni_ip_address (ea_interface ea)) = Inr my \<and>
     length (ni_ethernet_address (ea_interface ea)) = 6 \<and> ni_frames_out (ea_interface ea) = [] \<and> ni_pending ip (ea_interface ea) = []"

lemma ea_read_question:
  assumes B: "ea_quiet B n_B n_A" and A: "ea_quiet A n_A n_B"
    and s: "arp_serialize (ni_question (ea_interface A) n_A n_B) = Inr s"
    and request: "request = \<lparr>ef_header = \<lparr>eh_dst = ETHERNET_BROADCAST, eh_src = ni_ethernet_address (ea_interface A),
      eh_type = TYPE_ARP\<rparr>, ef_payload = buffer_list_of s\<rparr>"
  shows "\<exists>b reply ni. ea_read gai gni (buffer_list_concatenate (ef_serialize request)) B =
      Inr (None, [ef_serialize reply], B\<lparr>ea_interface := ni\<rparr>) \<and> ni_frames_out ni = [] \<and>
    ni_ethernet_address ni = ni_ethernet_address (ea_interface B) \<and>
    ni_tells b reply (ni_ethernet_address (ea_interface A)) \<and> eh_wf (ef_header reply) \<and>
    sender_ip_address b = n_B \<and> sender_ethernet_address b = ni_ethernet_address (ea_interface B) \<and> opcode b = OPCODE_REPLY"
proof -
  have wf: "eh_wf (ef_header request)" using A by (simp add: request eh_wf_def ea_quiet_def ETHERNET_BROADCAST_def)
  have my: "addr_ipv4_numeric (ni_ip_address (ea_interface B)) = Inr n_B"
    and len: "length (ni_ethernet_address (ea_interface A)) = 6" "length (ni_ethernet_address (ea_interface B)) = 6"
    and q: "ni_pending n_A (ea_interface B) = []" "ni_frames_out (ea_interface B) = []"
    using A B by (simp_all add: ea_quiet_def)
  have "list_all dg_wf (ni_pending n_A (ea_interface B))" by (simp add: q)
  from ni_recv_question [OF my len this s request] obtain b reply ni where
    ni: "ni_recv_frame request (ea_interface B) = Inr (None, ni)" "ni_frames_out ni = [reply]"
      "ni_ethernet_address ni = ni_ethernet_address (ea_interface B)"
    and b: "ni_tells b reply (ni_ethernet_address (ea_interface A))" "eh_wf (ef_header reply)"
      "sender_ip_address b = n_B" "sender_ethernet_address b = ni_ethernet_address (ea_interface B)" "opcode b = OPCODE_REPLY"
    by (auto simp: q)
  show ?thesis
    by (rule exI [of _ b], rule exI [of _ reply], rule exI [of _ "ni\<lparr>ni_frames_out := []\<rparr>"])
      (use ni b in \<open>simp add: ea_read_frame [OF wf]\<close>)
qed

lemma ea_read_told:
  assumes b: "opcode b = OPCODE_REPLY" and A: "addr_ipv4_numeric (ni_ip_address (ea_interface A)) = Inr n_A"
    and tells: "ni_tells b reply (ni_ethernet_address (ea_interface A))" and wf: "eh_wf (ef_header reply)"
    and q: "ni_pending (sender_ip_address b) (ea_interface A) = [d]" "ni_frames_out (ea_interface A) = []" "dg_wf d"
  shows "\<exists>f ni. ea_read gai gni (buffer_list_concatenate (ef_serialize reply)) A =
      Inr (None, [ef_serialize f], A\<lparr>ea_interface := ni\<rparr>) \<and>
    ni_carries (ni_ethernet_address (ea_interface A)) f (sender_ip_address b, sender_ethernet_address b, d)"
proof -
  have "list_all dg_wf (ni_pending (sender_ip_address b) (ea_interface A))" using q by simp
  from ni_recv_told [OF b A tells this] obtain f ni where "ni_recv_frame reply (ea_interface A) = Inr (None, ni)"
    "ni_frames_out ni = [f]" "ni_carries (ni_ethernet_address (ea_interface A)) f (sender_ip_address b, sender_ethernet_address b, d)"
    by (auto simp: q list_all2_Cons2)
  then show ?thesis by (intro exI [of _ f] exI [of _ "ni\<lparr>ni_frames_out := []\<rparr>"]) (simp add: ea_read_frame [OF wf])
qed

lemma ea_write_asks:
  assumes A: "ea_quiet A n_A n_B" and hop: "addr_ipv4_numeric (ea_next_hop A) = Inr n_B"
    and none: "ni_cacheMap (ea_interface A) n_B = None" "ni_arpRequests (ea_interface A) n_B = None"
    and wrap: "wrap_tcp_in_ip gni seg (ea_base A) = Inr (d, seg')"
  shows "\<exists>s ni. arp_serialize (ni_question (ea_interface A) n_A n_B) = Inr s \<and>
    ea_write gni seg A = Inr ([ef_serialize \<lparr>ef_header = \<lparr>eh_dst = ETHERNET_BROADCAST,
      eh_src = ni_ethernet_address (ea_interface A), eh_type = TYPE_ARP\<rparr>, ef_payload = buffer_list_of s\<rparr>], seg', A\<lparr>ea_interface := ni\<rparr>) \<and>
    ni_frames_out ni = [] \<and> ni_pending n_B ni = [d] \<and> ni_ethernet_address ni = ni_ethernet_address (ea_interface A) \<and>
    ni_ip_address ni = ni_ip_address (ea_interface A)"
proof -
  have my: "addr_ipv4_numeric (ni_ip_address (ea_interface A)) = Inr n_A"
    and q: "ni_pending n_B (ea_interface A) = []" "ni_frames_out (ea_interface A) = []"
    using A by (simp_all add: ea_quiet_def)
  from ni_send_asks [OF hop none my, of d] obtain s where s: "arp_serialize (ni_question (ea_interface A) n_A n_B) = Inr s"
    and send: "ni_send_datagram d (ea_next_hop A) (ea_interface A) =
      Inr ((ea_interface A)\<lparr>ni_frames_out := ni_frames_out (ea_interface A) @
              [\<lparr>ef_header = \<lparr>eh_dst = ETHERNET_BROADCAST, eh_src = ni_ethernet_address (ea_interface A), eh_type = TYPE_ARP\<rparr>,
                ef_payload = buffer_list_of s\<rparr>],
            ni_arpRequests := (ni_arpRequests (ea_interface A))(n_B \<mapsto> 5000),
            ni_datagramQueue := (ni_datagramQueue (ea_interface A))(n_B \<mapsto> ni_pending n_B (ea_interface A) @ [d])\<rparr>)"
    by blast
  let ?ni = "(ea_interface A)\<lparr>ni_frames_out := [], ni_arpRequests := (ni_arpRequests (ea_interface A))(n_B \<mapsto> 5000),
      ni_datagramQueue := (ni_datagramQueue (ea_interface A))(n_B \<mapsto> [d])\<rparr>"
  have "ea_write gni seg A = Inr ([ef_serialize \<lparr>ef_header = \<lparr>eh_dst = ETHERNET_BROADCAST,
      eh_src = ni_ethernet_address (ea_interface A), eh_type = TYPE_ARP\<rparr>, ef_payload = buffer_list_of s\<rparr>], seg', A\<lparr>ea_interface := ?ni\<rparr>)"
    using wrap send q by (simp add: ea_write_def ea_send_pending_eq Let_def)
  with s show ?thesis by (intro exI [of _ s] exI [of _ ?ni]) (simp add: ni_pending_def)
qed

lemma ea_read_carried:
  assumes f: "ni_carries src f (ip, ni_ethernet_address (ea_interface B), d)" and wf: "dg_wf d"
    and len: "length src = 6" "length (ni_ethernet_address (ea_interface B)) = 6" and q: "ni_frames_out (ea_interface B) = []"
    and parse: "\<forall>b seg0. buffer_str b = buffer_list_concatenate (dg_payload d) \<longrightarrow>
      (\<exists>seg'. seg_parse b (ip_pseudo_cksum (dg_header d)) seg0 = Inr (NoError, seg') \<and>
        seg_header seg' = (seg_header seg)\<lparr>th_cksum := c\<rparr> \<and> buffer_str (seg_payload seg') = buffer_str (seg_payload seg))"
  shows "\<exists>d' p seg' c'. dg_header d' = (dg_header d)\<lparr>ip_cksum := c'\<rparr> \<and> dg_payload d' = [p] \<and>
    seg_parse p (ip_pseudo_cksum (dg_header d')) seg_default = Inr (NoError, seg') \<and>
    seg_header seg' = (seg_header seg)\<lparr>th_cksum := c\<rparr> \<and> buffer_str (seg_payload seg') = buffer_str (seg_payload seg) \<and>
    ea_read gai gni (buffer_list_concatenate (ef_serialize f)) B =
      bindE (unwrap_tcp_in_ip gai gni d' (ea_base B)) (\<lambda>(seg, base). Inr (seg, [], B\<lparr>ea_base := base\<rparr>))"
proof -
  from ni_recv_carried [OF f wf] obtain c' d' where d': "ni_recv_frame f (ea_interface B) = Inr (Some d', ea_interface B)"
    "dg_header d' = (dg_header d)\<lparr>ip_cksum := c'\<rparr>"
    "buffer_list_concatenate (dg_payload d') = buffer_list_concatenate (dg_payload d)" by blast
  obtain p where p: "dg_payload d' = [p]" using ni_recv_frame_payload [OF d'(1)] by blast
  with d'(3) parse obtain seg' where seg': "seg_parse p (ip_pseudo_cksum (dg_header d)) seg_default = Inr (NoError, seg')"
    "seg_header seg' = (seg_header seg)\<lparr>th_cksum := c\<rparr>" "buffer_str (seg_payload seg') = buffer_str (seg_payload seg)"
    by (auto simp: buffer_list_concatenate_eq)
  have "eh_wf (ef_header f)" using f len by (simp add: eh_wf_def)
  then have "ea_read gai gni (buffer_list_concatenate (ef_serialize f)) B =
      bindE (unwrap_tcp_in_ip gai gni d' (ea_base B)) (\<lambda>(seg, base). Inr (seg, [], B\<lparr>ea_base := base\<rparr>))"
    using d'(1) q by (simp add: ea_read_frame) (simp add: q [symmetric])
  with d'(2) p seg' show ?thesis by (intro exI [of _ d'] exI [of _ p] exI [of _ seg'] exI [of _ c']) simp
qed

text \<open>The adapter \<open>b\<close> takes the segment: it is connected to the sender, or it listens and the segment asks for a connection.\<close>

definition ad_expects :: "fd_adapter_base \<Rightarrow> tcp_segment \<Rightarrow> u32 \<Rightarrow> u16 \<Rightarrow> u32 \<Rightarrow> u16 \<Rightarrow> bool" where
  "ad_expects b seg ip_A port_A ip_B port_B \<longleftrightarrow>
     (if ad_listening b then (\<exists>ip. cfg_source (ad_config b) = inet ip port_B) \<and> th_syn (seg_header seg) \<and> \<not> th_rst (seg_header seg)
      else cfg_source (ad_config b) = inet ip_B port_B \<and> cfg_destination (ad_config b) = inet ip_A port_A)"

lemma unwrap_expected:
  assumes names: "numeric_names gni" "numeric_hosts gai" and b: "ad_expects b seg ip_A port_A ip_B port_B"
    and h: "ip_src (dg_header d) = ip_A" "ip_dst (dg_header d) = ip_B" "ip_proto (dg_header d) = PROTO_TCP"
    and p: "dg_payload d = [p]" "seg_parse p (ip_pseudo_cksum (dg_header d)) seg_default = Inr (NoError, seg')"
    and seg': "seg_header seg' = (seg_header (seg_between port_A port_B seg))\<lparr>th_cksum := c\<rparr>"
  shows "\<exists>b'. unwrap_tcp_in_ip gai gni d b = Inr (Some seg', b') \<and> \<not> ad_listening b' \<and>
    cfg_source (ad_config b') = inet ip_B port_B \<and> cfg_destination (ad_config b') = inet ip_A port_A"
proof (cases "ad_listening b")
  case True
  with b obtain ip where ip: "cfg_source (ad_config b) = inet ip port_B" and syn: "th_syn (seg_header seg)" "\<not> th_rst (seg_header seg)"
    by (auto simp: ad_expects_def)
  show ?thesis
    using unwrap_listening [OF ip names True p] h seg' syn by (simp add: ad_listening_def ad_config_def)
next
  case False
  with b have cfg: "cfg_source (ad_config b) = inet ip_B port_B" "cfg_destination (ad_config b) = inet ip_A port_A"
    by (simp_all add: ad_expects_def)
  show ?thesis using unwrap_connected [OF cfg names(1) False p, of gai] h seg' cfg False by simp
qed

subsection \<open>Properties\<close>

text \<open>
  C34. A segment reaches its destination over Ethernet. Adapter \<open>A\<close> writes a segment while it does
  not know the Ethernet address of its next hop, which is adapter \<open>B\<close>: a request goes out; \<open>B\<close>
  reads it and writes a reply; \<open>A\<close> reads the reply and writes the datagram in a frame; \<open>B\<close> reads
  the frame and returns the segment, with the same payload and header but for ports and
  checksum, and is then connected to \<open>A\<close>, whether it was before or was listening and the segment
  is a SYN. No other frames are written, and no call throws.
\<close>

theorem ethernet_adapters_deliver:
  assumes "numeric_names gni" and "numeric_hosts gai" and "seg_fits seg"
    and "cfg_source (ea_config A) = inet ip_A port_A" and "cfg_destination (ea_config A) = inet ip_B port_B"
    and "ad_expects (ea_base B) seg ip_A port_A ip_B port_B"
    and "ea_quiet A n_A n_B" and "ea_quiet B n_B n_A" and "addr_ipv4_numeric (ea_next_hop A) = Inr n_B"
    and "ni_cacheMap (ea_interface A) n_B = None" and "ni_arpRequests (ea_interface A) n_B = None"
  shows "\<exists>request reply frame A1 A2 B1 B2 seg'.
    ea_write gni seg A = Inr ([request], seg_between port_A port_B seg, A1) \<and>
    ea_read gai gni (buffer_list_concatenate request) B = Inr (None, [reply], B1) \<and>
    ea_read gai gni (buffer_list_concatenate reply) A1 = Inr (None, [frame], A2) \<and>
    ea_read gai gni (buffer_list_concatenate frame) B1 = Inr (Some seg', [], B2) \<and> seg_carried seg seg' \<and>
    \<not> ad_listening (ea_base B2) \<and> cfg_source (ea_config B2) = inet ip_B port_B \<and> cfg_destination (ea_config B2) = inet ip_A port_A"
proof -
  from wrap_tcp_in_ip_ok [OF assms(4,5) [unfolded ea_config_def] assms(1,3)] obtain d c where
    d: "wrap_tcp_in_ip gni seg (ea_base A) = Inr (d, seg_between port_A port_B seg)" "ip_wf (dg_header d)"
      "ip_proto (dg_header d) = PROTO_TCP" "ip_src (dg_header d) = ip_A" "ip_dst (dg_header d) = ip_B"
      "unat (ip_len (dg_header d)) = 4 * unat (ip_hlen (dg_header d)) + length (buffer_list_concatenate (dg_payload d))"
    and parse: "\<forall>b seg0. buffer_str b = buffer_list_concatenate (dg_payload d) \<longrightarrow>
      (\<exists>seg'. seg_parse b (ip_pseudo_cksum (dg_header d)) seg0 = Inr (NoError, seg') \<and>
        seg_header seg' = (seg_header (seg_between port_A port_B seg))\<lparr>th_cksum := c\<rparr> \<and>
        buffer_str (seg_payload seg') = buffer_str (seg_payload seg))"
    by (elim exE conjE) (rule that)
  have wf: "dg_wf d" by (rule wrapped_dg_wf) (use d in simp_all)
  from ea_write_asks [OF assms(7,9,10,11) d(1)] obtain s nA where s: "arp_serialize (ni_question (ea_interface A) n_A n_B) = Inr s"
    and wr: "ea_write gni seg A = Inr ([ef_serialize \<lparr>ef_header = \<lparr>eh_dst = ETHERNET_BROADCAST,
      eh_src = ni_ethernet_address (ea_interface A), eh_type = TYPE_ARP\<rparr>, ef_payload = buffer_list_of s\<rparr>],
      seg_between port_A port_B seg, A\<lparr>ea_interface := nA\<rparr>)"
    and nA: "ni_frames_out nA = []" "ni_pending n_B nA = [d]" "ni_ethernet_address nA = ni_ethernet_address (ea_interface A)"
      "addr_ipv4_numeric (ni_ip_address nA) = Inr n_A" using assms(7) by (auto simp: ea_quiet_def)
  from ea_read_question [OF assms(8,7) s refl, of gai gni] obtain b reply nB where
    q: "ea_read gai gni (buffer_list_concatenate (ef_serialize \<lparr>ef_header = \<lparr>eh_dst = ETHERNET_BROADCAST,
      eh_src = ni_ethernet_address (ea_interface A), eh_type = TYPE_ARP\<rparr>, ef_payload = buffer_list_of s\<rparr>)) B =
      Inr (None, [ef_serialize reply], B\<lparr>ea_interface := nB\<rparr>)"
    and nB: "ni_frames_out nB = []" "ni_ethernet_address nB = ni_ethernet_address (ea_interface B)"
    and b: "ni_tells b reply (ni_ethernet_address (ea_interface A))" "eh_wf (ef_header reply)" "sender_ip_address b = n_B"
      "sender_ethernet_address b = ni_ethernet_address (ea_interface B)" "opcode b = OPCODE_REPLY" by blast
  from ea_read_told [of b "A\<lparr>ea_interface := nA\<rparr>" n_A reply d gai gni] b nA wf obtain f nA' where
    r: "ea_read gai gni (buffer_list_concatenate (ef_serialize reply)) (A\<lparr>ea_interface := nA\<rparr>) =
      Inr (None, [ef_serialize f], A\<lparr>ea_interface := nA'\<rparr>)"
    and f: "ni_carries (ni_ethernet_address (ea_interface A)) f (n_B, ni_ethernet_address nB, d)" using nB by auto
  have len: "length (ni_ethernet_address (ea_interface A)) = 6" "length (ni_ethernet_address nB) = 6"
    using assms(7,8) nB by (simp_all add: ea_quiet_def)
  from ea_read_carried [of "ni_ethernet_address (ea_interface A)" f n_B "B\<lparr>ea_interface := nB\<rparr>" d c "seg_between port_A port_B seg" gai gni]
    f wf len nB parse obtain d' p seg' c' where
    d': "dg_header d' = (dg_header d)\<lparr>ip_cksum := c'\<rparr>" "dg_payload d' = [p]"
      "seg_parse p (ip_pseudo_cksum (dg_header d')) seg_default = Inr (NoError, seg')"
      "seg_header seg' = (seg_header (seg_between port_A port_B seg))\<lparr>th_cksum := c\<rparr>"
      "buffer_str (seg_payload seg') = buffer_str (seg_payload seg)"
    and fin: "ea_read gai gni (buffer_list_concatenate (ef_serialize f)) (B\<lparr>ea_interface := nB\<rparr>) =
      bindE (unwrap_tcp_in_ip gai gni d' (ea_base B)) (\<lambda>(seg, base). Inr (seg, [], B\<lparr>ea_interface := nB, ea_base := base\<rparr>))"
    by auto
  from unwrap_expected [OF assms(1,2,6), of d' p seg' c] d d' obtain b' where b':
    "unwrap_tcp_in_ip gai gni d' (ea_base B) = Inr (Some seg', b')" "\<not> ad_listening b'"
    "cfg_source (ad_config b') = inet ip_B port_B" "cfg_destination (ad_config b') = inet ip_A port_A" by auto
  have "seg_carried seg seg'" using d'(4,5) by (simp add: seg_carried_def)
  moreover have "ea_read gai gni (buffer_list_concatenate (ef_serialize f)) (B\<lparr>ea_interface := nB\<rparr>) =
      Inr (Some seg', [], B\<lparr>ea_interface := nB, ea_base := b'\<rparr>)" using fin b'(1) by simp
  ultimately show ?thesis using wr q r b' by (fastforce simp: ea_config_def)
qed

theorem ethernet_adapters_deliver_witness:
  "let seg = \<lparr>seg_header = th_default\<lparr>th_syn := True\<rparr>, seg_payload = buffer_of [1, 2, 3]\<rparr>;
       A = snd (ea_init (ad_example False (inet 7 70) (inet 9 90)) (replicate 6 1) (inet 7 0) (inet 9 0));
       B = snd (ea_init (ad_example True (inet 0 90) (inet 0 0)) (replicate 6 2) (inet 9 0) (inet 7 0))
   in \<exists>request reply frame A1 A2 B1 B2 seg'.
    ea_write ipv4_names seg A = Inr ([request], seg_between 70 90 seg, A1) \<and>
    ea_read ipv4_hosts ipv4_names (buffer_list_concatenate request) B = Inr (None, [reply], B1) \<and>
    ea_read ipv4_hosts ipv4_names (buffer_list_concatenate reply) A1 = Inr (None, [frame], A2) \<and>
    ea_read ipv4_hosts ipv4_names (buffer_list_concatenate frame) B1 = Inr (Some seg', [], B2) \<and> seg_carried seg seg' \<and>
    \<not> ad_listening (ea_base B2) \<and> cfg_source (ea_config B2) = inet 9 90 \<and> cfg_destination (ea_config B2) = inet 7 70"
  unfolding Let_def
  by (rule ethernet_adapters_deliver [OF numeric_names_ipv4 numeric_hosts_ipv4, where n_A = 7 and n_B = 9])
    (auto simp: seg_fits_def th_wf_def th_default_def ea_init_def ea_config_def ad_example_def ad_config_def ad_expects_def
      ad_listening_def ea_quiet_def ni_init_def ni_pending_def)

end
