(* ===== verification/Stream_Copy.thy ===== *)
theory Stream_Copy
  imports Event_Loop Sockets Byte_Stream
begin

text \<open>
  \<^verbatim>\<open>bidirectional_stream_copy\<close> (\<^verbatim>\<open>apps/bidirectional_stream_copy.cc\<close>): the loop of the command-line
  programs that copies the standard input to a socket and the socket to the standard output. The
  local variables of the function are the fields of \<open>copier\<close>.
\<close>

definition max_copy_length :: u64 where "max_copy_length = 65536"
definition copy_buffer_size :: u64 where "copy_buffer_size = 1048576"

record 'w copier =
  cp_input :: fd_wrapper
  cp_output :: fd_wrapper
  cp_socket :: fd_wrapper
  cp_outbound :: byte_stream
  cp_inbound :: byte_stream
  cp_outbound_shutdown :: bool
  cp_inbound_shutdown :: bool
  cp_world :: 'w

subsection \<open>The four rules\<close>

definition cp_read_input :: "'w posix \<Rightarrow> 'w copier \<Rightarrow> 'w copier result" where
  "cp_read_input sys s =
     bindE (fd_read sys (bs_remaining_capacity (cp_outbound s)) (cp_input s) (cp_world s)) (\<lambda>(data, f, w).
       let s = s\<lparr>cp_input := f, cp_world := w, cp_outbound := snd (bs_write data (cp_outbound s))\<rparr>
       in Inr (if fd_eof (cp_input s) then s\<lparr>cp_outbound := bs_end_input (cp_outbound s)\<rparr> else s))"

definition cp_wants_input :: "'w copier \<Rightarrow> bool result" where
  "cp_wants_input s = Inr (\<not> bs_error (cp_outbound s) \<and> bs_remaining_capacity (cp_outbound s) > 0 \<and> \<not> bs_error (cp_inbound s))"

definition cp_end_outbound :: "'w copier \<Rightarrow> 'w copier result" where
  "cp_end_outbound s = Inr (s\<lparr>cp_outbound := bs_end_input (cp_outbound s)\<rparr>)"

definition cp_write_socket :: "'w posix \<Rightarrow> 'w copier \<Rightarrow> 'w copier result" where
  "cp_write_socket sys s =
     (let bytes_to_write = min max_copy_length (bs_buffer_size (cp_outbound s)) in
      bindE (fd_write sys (view_list_of_string (bs_peek_output bytes_to_write (cp_outbound s))) False (cp_socket s) (cp_world s))
        (\<lambda>(bytes_written, f, w).
      bindE (bs_pop_output bytes_written (cp_outbound s)) (\<lambda>outbound.
      let s = s\<lparr>cp_socket := f, cp_world := w, cp_outbound := outbound\<rparr> in
      if bs_eof (cp_outbound s) then
        bindE (sock_shutdown sys SHUT_WR (cp_socket s) (cp_world s)) (\<lambda>(f, w).
          Inr (s\<lparr>cp_socket := f, cp_world := w, cp_outbound_shutdown := True\<rparr>))
      else Inr s)))"

definition cp_wants_socket_out :: "'w copier \<Rightarrow> bool result" where
  "cp_wants_socket_out s =
     Inr (\<not> bs_buffer_empty (cp_outbound s) \<or> bs_eof (cp_outbound s) \<and> \<not> cp_outbound_shutdown s)"

definition cp_read_socket :: "'w posix \<Rightarrow> 'w copier \<Rightarrow> 'w copier result" where
  "cp_read_socket sys s =
     bindE (fd_read sys (bs_remaining_capacity (cp_inbound s)) (cp_socket s) (cp_world s)) (\<lambda>(data, f, w).
       let s = s\<lparr>cp_socket := f, cp_world := w, cp_inbound := snd (bs_write data (cp_inbound s))\<rparr>
       in Inr (if fd_eof (cp_socket s) then s\<lparr>cp_inbound := bs_end_input (cp_inbound s)\<rparr> else s))"

definition cp_wants_socket_in :: "'w copier \<Rightarrow> bool result" where
  "cp_wants_socket_in s =
     Inr (\<not> bs_error (cp_inbound s) \<and> bs_remaining_capacity (cp_inbound s) > 0 \<and> \<not> bs_error (cp_outbound s))"

definition cp_end_inbound :: "'w copier \<Rightarrow> 'w copier result" where
  "cp_end_inbound s = Inr (s\<lparr>cp_inbound := bs_end_input (cp_inbound s)\<rparr>)"

definition cp_write_output :: "'w posix \<Rightarrow> 'w copier \<Rightarrow> 'w copier result" where
  "cp_write_output sys s =
     (let bytes_to_write = min max_copy_length (bs_buffer_size (cp_inbound s)) in
      bindE (fd_write sys (view_list_of_string (bs_peek_output bytes_to_write (cp_inbound s))) False (cp_output s) (cp_world s))
        (\<lambda>(bytes_written, f, w).
      bindE (bs_pop_output bytes_written (cp_inbound s)) (\<lambda>inbound.
      let s = s\<lparr>cp_output := f, cp_world := w, cp_inbound := inbound\<rparr> in
      if bs_eof (cp_inbound s) then
        bindE (fdw_close sys (cp_output s) (cp_world s)) (\<lambda>(f, w).
          Inr (s\<lparr>cp_output := f, cp_world := w, cp_inbound_shutdown := True\<rparr>))
      else Inr s)))"

definition cp_wants_output :: "'w copier \<Rightarrow> bool result" where
  "cp_wants_output s =
     Inr (\<not> bs_buffer_empty (cp_inbound s) \<or> bs_eof (cp_inbound s) \<and> \<not> cp_inbound_shutdown s)"

definition cp_rules :: "'w posix \<Rightarrow> 'w copier rule list" where
  "cp_rules sys =
     el_add_rule cp_output Out (cp_write_output sys) cp_wants_output cp_end_inbound
    (el_add_rule cp_socket In (cp_read_socket sys) cp_wants_socket_in cp_end_inbound
    (el_add_rule cp_socket Out (cp_write_socket sys) cp_wants_socket_out cp_end_outbound
    (el_add_rule cp_input In (cp_read_input sys) cp_wants_input cp_end_outbound [])))"

subsection \<open>The loop\<close>

definition cp_poll :: "'w posix \<Rightarrow> pollfd list \<Rightarrow> int \<Rightarrow> 'w copier \<Rightarrow> int \<times> u16 list \<times> 'w copier" where
  "cp_poll sys fds ms s = (let (ret, revents, w) = px_poll sys fds ms (cp_world s) in (ret, revents, s\<lparr>cp_world := w\<rparr>))"

definition cp_wait :: "'w posix \<Rightarrow> 'w copier rule list \<Rightarrow> 'w copier \<Rightarrow> (el_result \<times> 'w copier rule list \<times> 'w copier) result" where
  "cp_wait sys rules s = wait_next_event (cp_poll sys) (\<lambda>s. px_errno sys (cp_world s)) (-1) rules s"

definition cp_init :: "'w posix \<Rightarrow> fd_wrapper \<Rightarrow> 'w \<Rightarrow> 'w copier result" where
  "cp_init sys socket w =
     bindE (fdw_init 0) (\<lambda>input.
     bindE (fdw_init 1) (\<lambda>output.
     bindE (fd_set_blocking sys False socket w) (\<lambda>w.
     bindE (fd_set_blocking sys False input w) (\<lambda>w.
     bindE (fd_set_blocking sys False output w) (\<lambda>w.
       Inr \<lparr>cp_input = input, cp_output = output, cp_socket = socket, cp_outbound = bs_init copy_buffer_size,
            cp_inbound = bs_init copy_buffer_size, cp_outbound_shutdown = False, cp_inbound_shutdown = False,
            cp_world = w\<rparr>)))))"

text \<open>The loop may run for ever: \<^const>\<open>None\<close>.\<close>

partial_function (option) cp_loop :: "'w posix \<Rightarrow> 'w copier rule list \<Rightarrow> 'w copier \<Rightarrow> 'w copier result option" where
  "cp_loop sys rules s =
     (case cp_wait sys rules s of
        Inl e \<Rightarrow> Some (Inl e)
      | Inr (res, rules, s) \<Rightarrow> if res = Exit then Some (Inr s) else cp_loop sys rules s)"

definition bidirectional_stream_copy :: "'w posix \<Rightarrow> fd_wrapper \<Rightarrow> 'w \<Rightarrow> 'w copier result option" where
  "bidirectional_stream_copy sys socket w =
     (case cp_init sys socket w of Inl e \<Rightarrow> Some (Inl e) | Inr s \<Rightarrow> cp_loop sys (cp_rules sys) s)"

subsection \<open>What is copied\<close>

text \<open>
  \<open>copied t src dst lost st w\<close>: what was written to \<open>dst\<close>, followed by what the stream \<open>st\<close> holds, is
  a prefix of what was read from \<open>src\<close>, and all of it unless the writer is \<open>lost\<close>, which ends the stream.
\<close>

definition copied :: "'w traffic \<Rightarrow> int \<Rightarrow> int \<Rightarrow> bool \<Rightarrow> byte_stream \<Rightarrow> 'w \<Rightarrow> bool" where
  "copied t src dst lost st w \<longleftrightarrow> bs_inv st \<and>
     prefix (concat (given t dst w) @ bs_content st) (concat (taken t src w)) \<and>
     (lost \<and> bs_input_ended st \<or> concat (given t dst w) @ bs_content st = concat (taken t src w))"

text \<open>
  One direction of the copy. \<open>reading\<close> and \<open>writing\<close> say whether its two rules are registered,
  \<open>eof\<close> whether its source is at the end of file, \<open>shut\<close> whether its end has been passed on. The
  writer is lost when its rule is cancelled before that. A stream whose writer is not lost ends only when no
  more is read, and what is passed on last is the end.
\<close>

definition flow :: "'w traffic \<Rightarrow> int \<Rightarrow> int \<Rightarrow> bool \<Rightarrow> bool \<Rightarrow> bool \<Rightarrow> bool \<Rightarrow> byte_stream \<Rightarrow> 'w \<Rightarrow> bool" where
  "flow t src dst reading writing eof shut st w \<longleftrightarrow> copied t src dst (\<not> writing \<and> \<not> shut) st w \<and>
     (bs_input_ended st \<and> (writing \<or> shut) \<longrightarrow> \<not> reading \<or> eof) \<and>
     (shut \<longrightarrow> bs_input_ended st \<and> bs_content st = [])"

lemma flow_frame: "taken t src w' = taken t src w \<Longrightarrow> given t dst w' = given t dst w \<Longrightarrow>
    flow t src dst reading writing eof shut st w' = flow t src dst reading writing eof shut st w"
  by (simp add: flow_def copied_def)

lemma flow_stop_reading:
  "flow t src dst reading writing eof shut st w \<Longrightarrow> flow t src dst False writing eof shut (bs_end_input st) w"
  by (auto simp: flow_def copied_def)

lemma flow_stop_writing:
  "flow t src dst reading True eof shut st w \<Longrightarrow> flow t src dst reading False eof shut (bs_end_input st) w"
  by (auto simp: flow_def copied_def)

lemma flow_read:
  assumes fl: "flow t src dst True writing False shut st w"
    and w: "taken t src w' = taken t src w @ [d]" "given t dst w' = given t dst w"
    and d: "length d \<le> unat (bs_remaining_capacity st)"
  defines "st' \<equiv> snd (bs_write d st)"
  shows "flow t src dst True writing eof shut (if eof then bs_end_input st' else st') w'"
proof -
  have len: "length d < 2 ^ 64" using d unat_u64_lt [of "bs_remaining_capacity st"] by simp
  have inv: "bs_inv st" using fl by (simp add: flow_def copied_def)
  show ?thesis
  proof (cases "bs_end_flag st")
    case True
    then have st': "st' = st" by (simp add: st'_def bs_write_ended)
    from True fl have "\<not> writing" "\<not> shut" by (auto simp: flow_def bs_input_ended_def)
    with True fl w show ?thesis by (auto simp: st' flow_def copied_def bs_input_ended_def intro: prefix_order.trans)
  next
    case False
    with fl have eq: "concat (given t dst w) @ bs_content st = concat (taken t src w)" and "\<not> shut"
      by (auto simp: flow_def copied_def bs_input_ended_def)
    have "bs_content st' = bs_content st @ d"
      using bs_write_content [OF len False] d by (simp add: st'_def bs_room_def)
    then have "concat (given t dst w') @ bs_content st' = concat (taken t src w')" using eq w by (metis append_assoc concat_append concat.simps append_Nil2)
    moreover have "bs_inv st'" "bs_end_flag st' = bs_end_flag st" using bs_write_inv [OF inv len] by (simp_all add: st'_def bs_write_def Let_def)
    ultimately show ?thesis using False \<open>\<not> shut\<close> by (simp add: flow_def copied_def bs_input_ended_def)
  qed
qed

lemma flow_write:
  assumes fl: "flow t src dst reading True eof shut st w"
    and w: "taken t src w' = taken t src w" "given t dst w' = given t dst w @ chunks"
    and chunks: "prefix (concat chunks) (bs_peek_output m st)" and n: "unat n = length (concat chunks)"
  shows "\<exists>st'. bs_pop_output n st = Inr st' \<and> flow t src dst reading True eof shut st' w' \<and>
    (bs_eof st' \<longrightarrow> flow t src dst reading True eof True st' w')"
proof -
  have inv: "bs_inv st" using fl by (simp add: flow_def copied_def)
  have p: "prefix (concat chunks) (bs_content st)"
    using chunks take_is_prefix prefix_order.trans unfolding bs_peek_output_def bs_content_def Let_def by blast
  then obtain rest where rest: "bs_content st = concat chunks @ rest" by (auto simp: prefix_def)
  then have "n \<le> bs_size st" using n bs_inv_length [OF inv] by (simp add: word_le_nat_alt)
  from bs_pop_output_spec [OF inv this] obtain st' where st': "bs_pop_output n st = Inr st'" "bs_inv st'"
    "bs_content st' = drop (unat n) (bs_content st)" "bs_end_flag st' = bs_end_flag st" by blast
  with rest n have r: "bs_content st' = rest" by simp
  have "bs_eof st' \<longrightarrow> bs_content st' = []" using bs_content_empty_iff [OF st'(2)] by (simp add: bs_eof_def)
  with fl w rest r st'(2,4) have "flow t src dst reading True eof shut st' w'" "bs_eof st' \<longrightarrow> flow t src dst reading True eof True st' w'"
    by (auto simp: flow_def copied_def bs_input_ended_def bs_eof_def)
  with st'(1) show ?thesis by blast
qed

lemma flow_account:
  assumes "flow t src dst reading writing eof shut st w"
  shows "prefix (concat (given t dst w)) (concat (taken t src w))"
    and "\<not> writing \<and> \<not> shut \<and> bs_input_ended st \<or> concat (taken t src w) = concat (given t dst w) @ bs_content st"
    and "shut \<longrightarrow> bs_content st = []"
  using assms by (auto simp: flow_def copied_def dest: append_prefixD)

lemma flow_complete:
  assumes "flow t src dst reading writing eof shut st w" and "writing \<or> shut" and "writing \<Longrightarrow> bs_size st = 0"
  shows "concat (given t dst w) = concat (taken t src w)"
  using assms bs_content_empty_iff [of st] by (auto simp: flow_def copied_def)

abbreviation cp_rule :: "'w posix \<Rightarrow> nat \<Rightarrow> 'w copier rule" where
  "cp_rule sys i \<equiv> cp_rules sys ! i"

lemma cp_rules_eq: "cp_rules sys =
   [\<lparr>rl_fd = cp_input, rl_direction = In, rl_callback = cp_read_input sys, rl_interest = cp_wants_input, rl_cancel = cp_end_outbound\<rparr>,
    \<lparr>rl_fd = cp_socket, rl_direction = Out, rl_callback = cp_write_socket sys, rl_interest = cp_wants_socket_out, rl_cancel = cp_end_outbound\<rparr>,
    \<lparr>rl_fd = cp_socket, rl_direction = In, rl_callback = cp_read_socket sys, rl_interest = cp_wants_socket_in, rl_cancel = cp_end_inbound\<rparr>,
    \<lparr>rl_fd = cp_output, rl_direction = Out, rl_callback = cp_write_output sys, rl_interest = cp_wants_output, rl_cancel = cp_end_inbound\<rparr>]"
  by (simp add: cp_rules_def el_add_rule_def)

lemma cp_fields_differ: "(cp_input :: 'w copier \<Rightarrow> fd_wrapper) \<noteq> cp_socket" "(cp_socket :: 'w copier \<Rightarrow> fd_wrapper) \<noteq> cp_output"
proof -
  fix s :: "'w copier" and f :: fd_wrapper
  let ?s = "s\<lparr>cp_socket := f\<lparr>fdw_fd := 1\<rparr>, cp_input := f\<lparr>fdw_fd := 0\<rparr>, cp_output := f\<lparr>fdw_fd := 0\<rparr>\<rparr>"
  have "fdw_fd (cp_input ?s) \<noteq> fdw_fd (cp_socket ?s)" "fdw_fd (cp_socket ?s) \<noteq> fdw_fd (cp_output ?s)" by simp_all
  then show "(cp_input :: 'w copier \<Rightarrow> fd_wrapper) \<noteq> cp_socket" "(cp_socket :: 'w copier \<Rightarrow> fd_wrapper) \<noteq> cp_output" by metis+
qed

lemma cp_rules_distinct: "distinct (cp_rules sys)"
  by (simp add: cp_rules_eq cp_fields_differ)

lemma cp_rules_four: "cp_rules sys = [cp_rule sys 0, cp_rule sys 1, cp_rule sys 2, cp_rule sys 3]"
  by (simp add: cp_rules_eq)

text \<open>The two directions with the rules \<open>R\<close> registered.\<close>

definition cp_inv :: "'w posix \<Rightarrow> 'w traffic \<Rightarrow> int \<Rightarrow> 'w copier rule set \<Rightarrow> 'w copier \<Rightarrow> bool" where
  "cp_inv sys t n R s \<longleftrightarrow> posix_io sys t \<and> n \<noteq> 0 \<and> n \<noteq> 1 \<and>
     fdw_fd (cp_input s) = 0 \<and> fdw_fd (cp_output s) = 1 \<and> fdw_fd (cp_socket s) = n \<and>
     flow t 0 n (cp_rule sys 0 \<in> R) (cp_rule sys 1 \<in> R) (fd_eof (cp_input s)) (cp_outbound_shutdown s) (cp_outbound s) (cp_world s) \<and>
     flow t n 1 (cp_rule sys 2 \<in> R) (cp_rule sys 3 \<in> R) (fd_eof (cp_socket s)) (cp_inbound_shutdown s) (cp_inbound s) (cp_world s)"

lemma cp_read_input_keeps:
  assumes inv: "cp_inv sys t n R s" and r: "cp_rule sys 0 \<in> R" and more: "\<not> fd_eof (cp_input s)"
  shows "outcome system_error (\<lambda>s'. cp_inv sys t n R s' \<and> cp_socket s' = cp_socket s \<and>
    fdw_read_count (cp_input s') \<noteq> fdw_read_count (cp_input s)) (cp_read_input sys s)"
proof -
  let ?cap = "bs_remaining_capacity (cp_outbound s)"
  have io: "posix_io sys t" using inv by (simp add: cp_inv_def)
  note ok = fd_read_ok [OF io, of ?cap "cp_input s" "cp_world s"]
  show ?thesis
  proof (cases "fd_read sys ?cap (cp_input s) (cp_world s)")
    case (Inl e)
    with ok show ?thesis by (auto simp: cp_read_input_def)
  next
    case (Inr x)
    obtain d f w where x: "x = (d, f, w)" by (cases x)
    with ok Inr have d: "length d \<le> unat ?cap" "fdw_fd f = fdw_fd (cp_input s)" "fdw_read_count f \<noteq> fdw_read_count (cp_input s)"
      and w: "\<And>x. given t x w = given t x (cp_world s)" "taken t 0 w = taken t 0 (cp_world s) @ [d]"
        "taken t n w = taken t n (cp_world s)"
      using inv by (auto simp: cp_inv_def fd_register_read_def)
    let ?st = "snd (bs_write d (cp_outbound s))"
    have "flow t 0 n True (cp_rule sys 1 \<in> R) (fd_eof f) (cp_outbound_shutdown s) (if fd_eof f then bs_end_input ?st else ?st) w"
      by (rule flow_read [OF _ w(2,1) d(1)]) (use inv r more in \<open>simp add: cp_inv_def\<close>)
    moreover have "flow t n 1 (cp_rule sys 2 \<in> R) (cp_rule sys 3 \<in> R) (fd_eof (cp_socket s)) (cp_inbound_shutdown s) (cp_inbound s) w"
      using inv w(1,3) by (simp add: cp_inv_def flow_frame [of t n w "cp_world s"])
    ultimately show ?thesis using inv r d Inr x by (cases "fd_eof f") (simp_all add: cp_read_input_def cp_inv_def Let_def)
  qed
qed

lemma cp_read_socket_keeps:
  assumes inv: "cp_inv sys t n R s" and r: "cp_rule sys 2 \<in> R" and more: "\<not> fd_eof (cp_socket s)"
  shows "outcome system_error (\<lambda>s'. cp_inv sys t n R s' \<and> cp_input s' = cp_input s \<and>
    fdw_read_count (cp_socket s') \<noteq> fdw_read_count (cp_socket s)) (cp_read_socket sys s)"
proof -
  let ?cap = "bs_remaining_capacity (cp_inbound s)"
  have io: "posix_io sys t" using inv by (simp add: cp_inv_def)
  note ok = fd_read_ok [OF io, of ?cap "cp_socket s" "cp_world s"]
  show ?thesis
  proof (cases "fd_read sys ?cap (cp_socket s) (cp_world s)")
    case (Inl e)
    with ok show ?thesis by (auto simp: cp_read_socket_def)
  next
    case (Inr x)
    obtain d f w where x: "x = (d, f, w)" by (cases x)
    with ok Inr have d: "length d \<le> unat ?cap" "fdw_fd f = fdw_fd (cp_socket s)" "fdw_read_count f \<noteq> fdw_read_count (cp_socket s)"
      and w: "\<And>x. given t x w = given t x (cp_world s)" "taken t n w = taken t n (cp_world s) @ [d]"
        "taken t 0 w = taken t 0 (cp_world s)"
      using inv by (auto simp: cp_inv_def fd_register_read_def)
    let ?st = "snd (bs_write d (cp_inbound s))"
    have "flow t n 1 True (cp_rule sys 3 \<in> R) (fd_eof f) (cp_inbound_shutdown s) (if fd_eof f then bs_end_input ?st else ?st) w"
      by (rule flow_read [OF _ w(2,1) d(1)]) (use inv r more in \<open>simp add: cp_inv_def\<close>)
    moreover have "flow t 0 n (cp_rule sys 0 \<in> R) (cp_rule sys 1 \<in> R) (fd_eof (cp_input s)) (cp_outbound_shutdown s) (cp_outbound s) w"
      using inv w(1,3) by (simp add: cp_inv_def flow_frame [of t 0 w "cp_world s"])
    ultimately show ?thesis using inv r d Inr x by (cases "fd_eof f") (simp_all add: cp_read_socket_def cp_inv_def Let_def)
  qed
qed

lemma cp_peek_small: "length (concat (view_list_of_string (bs_peek_output (min max_copy_length m) st))) < 2 ^ 31"
proof -
  have "unat (min max_copy_length m) \<le> 65536" by (simp add: min_def max_copy_length_def word_le_nat_alt)
  then show ?thesis by (simp add: view_list_of_string_def bs_peek_output_def Let_def)
qed

lemma cp_write_socket_keeps:
  assumes inv: "cp_inv sys t n R s" and r: "cp_rule sys 1 \<in> R"
  shows "outcome system_error (\<lambda>s'. cp_inv sys t n R s' \<and> cp_input s' = cp_input s \<and> fd_eof (cp_socket s') = fd_eof (cp_socket s) \<and>
    fdw_write_count (cp_socket s') \<noteq> fdw_write_count (cp_socket s)) (cp_write_socket sys s)"
proof -
  let ?str = "bs_peek_output (min max_copy_length (bs_buffer_size (cp_outbound s))) (cp_outbound s)"
  have io: "posix_io sys t" using inv by (simp add: cp_inv_def)
  note ok = fd_write_ok [OF io cp_peek_small [of "bs_buffer_size (cp_outbound s)" "cp_outbound s"], where write_all = False and f = "cp_socket s" and w = "cp_world s"]
  show ?thesis
  proof (cases "fd_write sys (view_list_of_string ?str) False (cp_socket s) (cp_world s)")
    case (Inl e)
    with ok show ?thesis by (auto simp: cp_write_socket_def Let_def)
  next
    case wr: (Inr x)
    obtain k f w where x: "x = (k, f, w)" by (cases x)
    with ok wr obtain chunks where chunks: "prefix (concat chunks) ?str" "unat k = length (concat chunks)" "length chunks = 1"
      and gave: "fd_gave t chunks (cp_socket s) (cp_world s) f w" by (auto simp: view_list_of_string_def)
    have f: "fdw_fd f = fdw_fd (cp_socket s)" "fdw_write_count f = fdw_write_count (cp_socket s) + 1" "fdw_eof f = fdw_eof (cp_socket s)"
      and w: "\<And>x. taken t x w = taken t x (cp_world s)" "given t n w = given t n (cp_world s) @ chunks"
        "given t 1 w = given t 1 (cp_world s)"
      using gave inv chunks(3) by (auto simp: cp_inv_def fd_gave_def)
    let ?flow = "\<lambda>shut st. flow t 0 n (cp_rule sys 0 \<in> R) True (fd_eof (cp_input s)) shut st w"
    have "\<exists>st. bs_pop_output k (cp_outbound s) = Inr st \<and> ?flow (cp_outbound_shutdown s) st \<and> (bs_eof st \<longrightarrow> ?flow True st)"
      by (rule flow_write [OF _ w(1,2) chunks(1,2)]) (use inv r in \<open>simp add: cp_inv_def\<close>)
    then obtain st where st: "bs_pop_output k (cp_outbound s) = Inr st" "?flow (cp_outbound_shutdown s) st" "bs_eof st \<longrightarrow> ?flow True st" by blast
    have other: "flow t n 1 (cp_rule sys 2 \<in> R) (cp_rule sys 3 \<in> R) (fd_eof (cp_socket s)) (cp_inbound_shutdown s) (cp_inbound s) w"
      using inv w(1,3) by (simp add: cp_inv_def flow_frame [of t n w "cp_world s"])
    have inv': "cp_inv sys t n R (s\<lparr>cp_socket := f, cp_world := w, cp_outbound := st\<rparr>)"
      using inv r f st(2) other by (simp add: cp_inv_def fd_eof_def)
    note fin = sock_shutdown_ok [OF io, where how = SHUT_WR and f = f and w = w, simplified]
    show ?thesis
    proof (cases "bs_eof st")
      case False
      with wr x st f inv' show ?thesis by (simp add: cp_write_socket_def Let_def fd_eof_def)
    next
      case eof: True
      show ?thesis
      proof (cases "sock_shutdown sys SHUT_WR f w")
        case (Inl e)
        with eof fin wr x st show ?thesis by (auto simp: cp_write_socket_def Let_def)
      next
        case y: (Inr y)
        obtain f' w' where y': "y = (f', w')" by (cases y)
        with fin y f have f': "fdw_fd f' = fdw_fd (cp_socket s)" "fdw_eof f' = fdw_eof (cp_socket s)" "fdw_write_count f' \<noteq> fdw_write_count (cp_socket s)"
          and q: "quiet t w w'" by (auto simp: SHUT_RD_def SHUT_WR_def)
        have "cp_inv sys t n R (s\<lparr>cp_outbound := st, cp_socket := f', cp_world := w', cp_outbound_shutdown := True\<rparr>)"
          using inv r f' st(3) eof other q by (simp add: cp_inv_def fd_eof_def quiet_def flow_frame [of t _ w' w])
        with eof y y' wr x st f' show ?thesis by (simp add: cp_write_socket_def Let_def fd_eof_def)
      qed
    qed
  qed
qed

lemma cp_write_output_keeps:
  assumes inv: "cp_inv sys t n R s" and r: "cp_rule sys 3 \<in> R"
  shows "outcome system_error (\<lambda>s'. cp_inv sys t n R s' \<and> cp_input s' = cp_input s \<and> cp_socket s' = cp_socket s \<and>
    fdw_write_count (cp_output s') \<noteq> fdw_write_count (cp_output s)) (cp_write_output sys s)"
proof -
  let ?str = "bs_peek_output (min max_copy_length (bs_buffer_size (cp_inbound s))) (cp_inbound s)"
  have io: "posix_io sys t" using inv by (simp add: cp_inv_def)
  note ok = fd_write_ok [OF io cp_peek_small [of "bs_buffer_size (cp_inbound s)" "cp_inbound s"], where write_all = False and f = "cp_output s" and w = "cp_world s"]
  show ?thesis
  proof (cases "fd_write sys (view_list_of_string ?str) False (cp_output s) (cp_world s)")
    case (Inl e)
    with ok show ?thesis by (auto simp: cp_write_output_def Let_def)
  next
    case wr: (Inr x)
    obtain k f w where x: "x = (k, f, w)" by (cases x)
    with ok wr obtain chunks where chunks: "prefix (concat chunks) ?str" "unat k = length (concat chunks)" "length chunks = 1"
      and gave: "fd_gave t chunks (cp_output s) (cp_world s) f w" by (auto simp: view_list_of_string_def)
    have f: "fdw_fd f = fdw_fd (cp_output s)" "fdw_write_count f = fdw_write_count (cp_output s) + 1"
      and w: "\<And>x. taken t x w = taken t x (cp_world s)" "given t 1 w = given t 1 (cp_world s) @ chunks"
        "given t n w = given t n (cp_world s)"
      using gave inv chunks(3) by (auto simp: cp_inv_def fd_gave_def)
    let ?flow = "\<lambda>shut st. flow t n 1 (cp_rule sys 2 \<in> R) True (fd_eof (cp_socket s)) shut st w"
    have "\<exists>st. bs_pop_output k (cp_inbound s) = Inr st \<and> ?flow (cp_inbound_shutdown s) st \<and> (bs_eof st \<longrightarrow> ?flow True st)"
      by (rule flow_write [OF _ w(1,2) chunks(1,2)]) (use inv r in \<open>simp add: cp_inv_def\<close>)
    then obtain st where st: "bs_pop_output k (cp_inbound s) = Inr st" "?flow (cp_inbound_shutdown s) st" "bs_eof st \<longrightarrow> ?flow True st" by blast
    have other: "flow t 0 n (cp_rule sys 0 \<in> R) (cp_rule sys 1 \<in> R) (fd_eof (cp_input s)) (cp_outbound_shutdown s) (cp_outbound s) w"
      using inv w(1,3) by (simp add: cp_inv_def flow_frame [of t 0 w "cp_world s"])
    have inv': "cp_inv sys t n R (s\<lparr>cp_output := f, cp_world := w, cp_inbound := st\<rparr>)"
      using inv r f st(2) other by (simp add: cp_inv_def)
    note fin = fdw_close_ok [OF io, where f = f and w = w]
    show ?thesis
    proof (cases "bs_eof st")
      case False
      with wr x st f inv' show ?thesis by (simp add: cp_write_output_def Let_def)
    next
      case eof: True
      show ?thesis
      proof (cases "fdw_close sys f w")
        case (Inl e)
        with eof fin wr x st show ?thesis by (auto simp: cp_write_output_def Let_def)
      next
        case y: (Inr y)
        obtain f' w' where y': "y = (f', w')" by (cases y)
        with fin y f have f': "fdw_fd f' = fdw_fd (cp_output s)" "fdw_write_count f' \<noteq> fdw_write_count (cp_output s)"
          and q: "quiet t w w'" by auto
        have "cp_inv sys t n R (s\<lparr>cp_inbound := st, cp_output := f', cp_world := w', cp_inbound_shutdown := True\<rparr>)"
          using inv r f' st(3) eof other q by (simp add: cp_inv_def quiet_def flow_frame [of t _ w' w])
        with eof y y' wr x st f' show ?thesis by (simp add: cp_write_output_def Let_def)
      qed
    qed
  qed
qed

subsection \<open>The rules as a client of the event loop\<close>

lemma cp_poll_quiet:
  assumes "posix_io sys t"
  shows "\<exists>w. snd (snd (cp_poll sys fds ms s)) = s\<lparr>cp_world := w\<rparr> \<and> quiet t (cp_world s) w"
    and "length (fst (snd (cp_poll sys fds ms s))) = length fds"
proof -
  have "quiet t (cp_world s) (snd (snd (px_poll sys fds ms (cp_world s)))) \<and>
      length (fst (snd (px_poll sys fds ms (cp_world s)))) = length fds"
    using assms unfolding posix_io_def by blast
  then show "\<exists>w. snd (snd (cp_poll sys fds ms s)) = s\<lparr>cp_world := w\<rparr> \<and> quiet t (cp_world s) w"
    and "length (fst (snd (cp_poll sys fds ms s))) = length fds"
    by (auto simp: cp_poll_def split_beta)
qed

lemma cp_inv_world: "cp_inv sys t n R s \<Longrightarrow> quiet t (cp_world s) w \<Longrightarrow> cp_inv sys t n R (s\<lparr>cp_world := w\<rparr>)"
  by (simp add: cp_inv_def quiet_def flow_frame [of t _ w "cp_world s"])

text \<open>A reading rule is served only while its descriptor is not at the end of file.\<close>

definition cp_guard :: "'w copier rule \<Rightarrow> 'w copier \<Rightarrow> bool" where
  "cp_guard r s \<longleftrightarrow> (rl_direction r = In \<longrightarrow> \<not> fd_eof (rl_fd r s))"

lemma cp_guard_frame:
  assumes "r \<in> set (cp_rules sys)" and "cp_guard r s" and "r = cp_rule sys 0 \<Longrightarrow> fd_eof (cp_input s') = fd_eof (cp_input s)"
    and "r = cp_rule sys 2 \<Longrightarrow> fd_eof (cp_socket s') = fd_eof (cp_socket s)"
  shows "cp_guard r s'"
  using assms by (auto simp: cp_rules_eq cp_guard_def)

lemma cp_guards_frame:
  assumes "r = cp_rule sys 0 \<or> fd_eof (cp_input s') = fd_eof (cp_input s)"
    and "r = cp_rule sys 2 \<or> fd_eof (cp_socket s') = fd_eof (cp_socket s)"
  shows "\<forall>r' \<in> set (cp_rules sys). r' \<noteq> r \<longrightarrow> cp_guard r' s \<longrightarrow> cp_guard r' s'"
proof (intro ballI impI)
  fix r' assume "r' \<in> set (cp_rules sys)" "r' \<noteq> r" "cp_guard r' s"
  with assms show "cp_guard r' s'" by (intro cp_guard_frame [of r' sys s s']) simp_all
qed

lemma cp_rule_simps:
  "rl_fd (cp_rule sys 0) = cp_input" "rl_direction (cp_rule sys 0) = In" "rl_callback (cp_rule sys 0) = cp_read_input sys"
  "rl_fd (cp_rule sys 1) = cp_socket" "rl_direction (cp_rule sys 1) = Out" "rl_callback (cp_rule sys 1) = cp_write_socket sys"
  "rl_fd (cp_rule sys 2) = cp_socket" "rl_direction (cp_rule sys 2) = In" "rl_callback (cp_rule sys 2) = cp_read_socket sys"
  "rl_fd (cp_rule sys 3) = cp_output" "rl_direction (cp_rule sys 3) = Out" "rl_callback (cp_rule sys 3) = cp_write_output sys"
  "rl_cancel (cp_rule sys 0) = cp_end_outbound" "rl_cancel (cp_rule sys 1) = cp_end_outbound"
  "rl_cancel (cp_rule sys 2) = cp_end_inbound" "rl_cancel (cp_rule sys 3) = cp_end_inbound"
  "rl_interest (cp_rule sys 1) = cp_wants_socket_out" "rl_interest (cp_rule sys 3) = cp_wants_output"
  by (simp_all add: cp_rules_eq)

lemmas cp_service = service_count_def fd_read_count_def fd_write_count_def cp_rule_simps

lemma cp_rule_cases:
  assumes "r \<in> R" and "R \<subseteq> set (cp_rules sys)"
  obtains "r = cp_rule sys 0" | "r = cp_rule sys 1" | "r = cp_rule sys 2" | "r = cp_rule sys 3"
proof -
  from assms have "r \<in> set [cp_rule sys 0, cp_rule sys 1, cp_rule sys 2, cp_rule sys 3]"
    unfolding cp_rules_four [symmetric] by blast
  with that show thesis by auto
qed

lemma cp_callback_keeps:
  assumes r: "r \<in> R" "R \<subseteq> set (cp_rules sys)" and inv: "cp_inv sys t n R s" and g: "cp_guard r s"
  shows "outcome system_error (\<lambda>s'. cp_inv sys t n R s' \<and> (\<forall>r' \<in> set (cp_rules sys). r' \<noteq> r \<longrightarrow> cp_guard r' s \<longrightarrow> cp_guard r' s') \<and>
    (service_count r s' \<noteq> service_count r s \<or> rl_interest r s' = Inr False)) (rl_callback r s)"
  using r
proof (cases rule: cp_rule_cases)
  case 1
  then have "\<not> fd_eof (cp_input s)" using g by (simp add: cp_guard_def cp_rule_simps)
  from cp_read_input_keeps [OF inv r(1) [unfolded 1] this] show ?thesis
    unfolding 1 cp_service by (rule outcome_mono) (elim conjE, intro conjI cp_guards_frame, simp_all)
next
  case 2
  from cp_write_socket_keeps [OF inv r(1) [unfolded 2]] show ?thesis
    unfolding 2 cp_service by (rule outcome_mono) (elim conjE, intro conjI cp_guards_frame, simp_all)
next
  case 3
  then have "\<not> fd_eof (cp_socket s)" using g by (simp add: cp_guard_def cp_rule_simps)
  from cp_read_socket_keeps [OF inv r(1) [unfolded 3] this] show ?thesis
    unfolding 3 cp_service by (rule outcome_mono) (elim conjE, intro conjI cp_guards_frame, simp_all)
next
  case 4
  from cp_write_output_keeps [OF inv r(1) [unfolded 4]] show ?thesis
    unfolding 4 cp_service by (rule outcome_mono) (elim conjE, intro conjI cp_guards_frame, simp_all)
qed

lemma cp_rules_differ:
  "cp_rule sys 0 \<noteq> cp_rule sys 1" "cp_rule sys 0 \<noteq> cp_rule sys 2" "cp_rule sys 0 \<noteq> cp_rule sys 3"
  "cp_rule sys 1 \<noteq> cp_rule sys 2" "cp_rule sys 1 \<noteq> cp_rule sys 3" "cp_rule sys 2 \<noteq> cp_rule sys 3"
  using cp_rules_distinct [of sys] by (subst (asm) cp_rules_four; simp)+

lemma cp_inv_flows:
  assumes "cp_inv sys t n R s"
  shows "flow t 0 n (cp_rule sys 0 \<in> R) (cp_rule sys 1 \<in> R) (fd_eof (cp_input s)) (cp_outbound_shutdown s) (cp_outbound s) (cp_world s)"
    and "flow t n 1 (cp_rule sys 2 \<in> R) (cp_rule sys 3 \<in> R) (fd_eof (cp_socket s)) (cp_inbound_shutdown s) (cp_inbound s) (cp_world s)"
  using assms by (simp_all add: cp_inv_def)

lemma cp_cancel_keeps:
  assumes r: "r \<in> R" "R \<subseteq> set (cp_rules sys)" and inv: "cp_inv sys t n R s"
  shows "outcome system_error (\<lambda>s'. cp_inv sys t n (R - {r}) s' \<and>
    (\<forall>r' \<in> set (cp_rules sys). r' \<noteq> r \<longrightarrow> cp_guard r' s \<longrightarrow> cp_guard r' s')) (rl_cancel r s)"
proof -
  note differ = cp_rules_differ [of sys] cp_rules_differ [of sys, symmetric]
  note fl = cp_inv_flows [OF inv]
  from r show ?thesis
  proof (cases rule: cp_rule_cases)
    case 1
    have "cp_inv sys t n (R - {cp_rule sys 0}) (s\<lparr>cp_outbound := bs_end_input (cp_outbound s)\<rparr>)"
      using inv flow_stop_reading [OF fl(1)] differ by (simp add: cp_inv_def)
    then show ?thesis unfolding 1 cp_rule_simps cp_end_outbound_def outcome_simps by (intro conjI cp_guards_frame) simp_all
  next
    case 2
    have "cp_inv sys t n (R - {cp_rule sys 1}) (s\<lparr>cp_outbound := bs_end_input (cp_outbound s)\<rparr>)"
      using inv flow_stop_writing [of t 0 n] fl(1) r(1) 2 differ by (simp add: cp_inv_def)
    then show ?thesis unfolding 2 cp_rule_simps cp_end_outbound_def outcome_simps by (intro conjI cp_guards_frame) simp_all
  next
    case 3
    have "cp_inv sys t n (R - {cp_rule sys 2}) (s\<lparr>cp_inbound := bs_end_input (cp_inbound s)\<rparr>)"
      using inv flow_stop_reading [OF fl(2)] differ by (simp add: cp_inv_def)
    then show ?thesis unfolding 3 cp_rule_simps cp_end_inbound_def outcome_simps by (intro conjI cp_guards_frame) simp_all
  next
    case 4
    have "cp_inv sys t n (R - {cp_rule sys 3}) (s\<lparr>cp_inbound := bs_end_input (cp_inbound s)\<rparr>)"
      using inv flow_stop_writing [of t n 1] fl(2) r(1) 4 differ by (simp add: cp_inv_def)
    then show ?thesis unfolding 4 cp_rule_simps cp_end_inbound_def outcome_simps by (intro conjI cp_guards_frame) simp_all
  qed
qed

interpretation copier: event_client "cp_poll sys" "\<lambda>s. px_errno sys (cp_world s)" "cp_rules sys" "cp_inv sys t n" cp_guard system_error
  for sys :: "'w posix" and t n
proof
  show "distinct (cp_rules sys)" by (rule cp_rules_distinct)
  show "system_error poll_error" by auto
next
  fix R and s :: "'w copier" and fds ms
  assume inv: "cp_inv sys t n R s"
  then have io: "posix_io sys t" by (simp add: cp_inv_def)
  show "length (fst (snd (cp_poll sys fds ms s))) = length fds" by (rule cp_poll_quiet(2) [OF io])
  show "cp_inv sys t n R (snd (snd (cp_poll sys fds ms s)))" using cp_poll_quiet(1) [OF io] cp_inv_world [OF inv] by metis
  fix r assume r: "r \<in> R" "R \<subseteq> set (cp_rules sys)" and g: "cp_guard r s"
  show "cp_guard r (snd (snd (cp_poll sys fds ms s)))"
    by (rule cp_guard_frame [OF _ g, of sys]) (use r in \<open>auto simp: cp_poll_def split_beta\<close>)
next
  fix r R and s :: "'w copier"
  assume r: "r \<in> R" "R \<subseteq> set (cp_rules sys)" and inv: "cp_inv sys t n R s"
  then show "\<exists>b. rl_interest r s = Inr b"
    by (auto simp: cp_rules_eq cp_wants_input_def cp_wants_socket_out_def cp_wants_socket_in_def cp_wants_output_def)
  show "cp_guard r s" if "\<not> (rl_direction r = In \<and> fd_eof (rl_fd r s))" using that by (simp add: cp_guard_def)
qed (erule (2) cp_cancel_keeps, erule (3) cp_callback_keeps)

subsection \<open>Properties\<close>

text \<open>The states the loop goes through, with the rules that are left.\<close>

inductive cp_reaches :: "'w posix \<Rightarrow> fd_wrapper \<Rightarrow> 'w \<Rightarrow> 'w copier rule list \<Rightarrow> 'w copier \<Rightarrow> bool"
  for sys socket w where
  cp_start: "cp_init sys socket w = Inr s \<Longrightarrow> cp_reaches sys socket w (cp_rules sys) s"
| cp_next: "cp_reaches sys socket w rules s \<Longrightarrow> cp_wait sys rules s = Inr (res, rules', s') \<Longrightarrow>
    cp_reaches sys socket w rules' s'"

definition untouched :: "'w traffic \<Rightarrow> int \<Rightarrow> 'w \<Rightarrow> bool" where
  "untouched t fd w \<longleftrightarrow> taken t fd w = [] \<and> given t fd w = []"

lemma cp_init_inv:
  assumes io: "posix_io sys t" and init: "cp_init sys socket w = Inr s" and fd: "fdw_fd socket \<noteq> 0" "fdw_fd socket \<noteq> 1"
    and fresh: "untouched t 0 w" "untouched t 1 w" "untouched t (fdw_fd socket) w"
  shows "cp_inv sys t (fdw_fd socket) (set (cp_rules sys)) s"
proof -
  from init obtain w1 w2 w3 inp outp where
    b: "fd_set_blocking sys False socket w = Inr w1" "fd_set_blocking sys False inp w1 = Inr w2" "fd_set_blocking sys False outp w2 = Inr w3"
    and f: "fdw_init 0 = Inr inp" "fdw_init 1 = Inr outp"
    and s: "s = \<lparr>cp_input = inp, cp_output = outp, cp_socket = socket, cp_outbound = bs_init copy_buffer_size,
      cp_inbound = bs_init copy_buffer_size, cp_outbound_shutdown = False, cp_inbound_shutdown = False, cp_world = w3\<rparr>"
    by (auto simp: cp_init_def bindE_eq_Inr_iff)
  note q = b [THEN fd_set_blocking_ok [OF io]]
  have init_open: "\<not> bs_input_ended (bs_init copy_buffer_size)" by (simp add: bs_input_ended_def bs_init_def)
  have "quiet t w w3" by (rule quiet_trans [OF quiet_trans [OF q(1,2)] q(3)])
  then have "flow t src dst a b c False (bs_init copy_buffer_size) w3" if "untouched t src w" "untouched t dst w" for src dst a b c
    using that init_open by (simp add: flow_def copied_def untouched_def quiet_def)
  then show ?thesis using f fd fresh io by (auto simp: s cp_inv_def fdw_init_def)
qed

lemma cp_reaches_inv:
  assumes "cp_reaches sys socket w rules s" and "posix_io sys t" and "fdw_fd socket \<noteq> 0" "fdw_fd socket \<noteq> 1"
    and "untouched t 0 w" "untouched t 1 w" "untouched t (fdw_fd socket) w"
  shows "cp_inv sys t (fdw_fd socket) (set rules) s \<and> subseq rules (cp_rules sys)"
  using assms
proof (induction rule: cp_reaches.induct)
  case (cp_start s)
  then show ?case by (auto intro: cp_init_inv)
next
  case (cp_next rules s res rules' s')
  then have inv: "cp_inv sys t (fdw_fd socket) (set rules) s" "subseq rules (cp_rules sys)" by blast+
  from copier.wait_keeps [OF inv(2,1), of "- 1"] cp_next.hyps(2) show ?case by (simp add: cp_wait_def)
qed

text \<open>The loop ends by itself when no rule is interested: then no registered writer has bytes left.\<close>

lemma cp_exit_empty:
  assumes "cp_wait sys rules s = Inr (Exit, rules', s')" and "px_errno sys (cp_world s') \<noteq> EINTR" and "subseq rules (cp_rules sys)"
  shows "cp_rule sys 1 \<in> set rules' \<Longrightarrow> bs_size (cp_outbound s') = 0" "cp_rule sys 3 \<in> set rules' \<Longrightarrow> bs_size (cp_inbound s') = 0"
proof -
  let ?view = "\<lambda>s. (bs_size (cp_outbound s), bs_size (cp_inbound s))"
  have rules: "set rules \<subseteq> set (cp_rules sys)" using assms(3) by (auto dest: list_emb_set)
  from wait_exit [OF assms(1) [unfolded cp_wait_def] assms(2)] obtain pfds where
    "el_setup rules s = Inr (pfds, False, rules', s')" by blast
  moreover have "\<forall>r \<in> set (cp_rules sys). \<forall>s s'. rl_cancel r s = Inr s' \<longrightarrow> ?view s' = ?view s"
    by (auto simp: cp_rules_eq cp_end_outbound_def cp_end_inbound_def)
  then have "\<forall>r \<in> set rules. \<forall>s s'. rl_cancel r s = Inr s' \<longrightarrow> ?view s' = ?view s"
    using rules by (meson subsetD)
  ultimately have "?view s' = ?view s \<and> (\<forall>r \<in> set rules'. \<exists>s1. ?view s1 = ?view s \<and> rl_interest r s1 = Inr False)"
    by (rule setup_idle)
  then have idle: "\<exists>s1. ?view s1 = ?view s' \<and> rl_interest r s1 = Inr False" if "r \<in> set rules'" for r using that by fastforce
  show "cp_rule sys 1 \<in> set rules' \<Longrightarrow> bs_size (cp_outbound s') = 0" "cp_rule sys 3 \<in> set rules' \<Longrightarrow> bs_size (cp_inbound s') = 0"
    by (auto dest!: idle simp: cp_rule_simps [unfolded One_nat_def] cp_wants_socket_out_def cp_wants_output_def bs_buffer_empty_def)
qed

text \<open>
  C36. The copy loop copies, and loses nothing unless a writer hangs up. At every turn of the loop,
  whatever parts of the data each system call transfers: what was written to the socket is a
  prefix of what was read from the standard input, and what was written to the standard output a
  prefix of what was read from the socket. What is missing is in the buffer of the direction, also
  after the end of the input, unless the rule that writes was cancelled (a hang-up) before the end
  had been passed on; once the end has been passed on, the buffer is empty. The next turn returns
  or throws the error of a system call; no busy wait is reported, and no index is out of range.
  When it says that the loop is done, not interrupted by a signal, then in each direction whose
  writing rule was not cancelled before the end, every byte that was read has been written.
\<close>

theorem copies_both_ways:
  assumes "cp_reaches sys socket w rules s" and "posix_io sys t" and "fd_num socket \<noteq> 0" and "fd_num socket \<noteq> 1"
    and "untouched t 0 w" and "untouched t 1 w" and "untouched t (fd_num socket) w"
  shows "prefix (concat (given t (fd_num socket) (cp_world s))) (concat (taken t 0 (cp_world s))) \<and>
    prefix (concat (given t 1 (cp_world s))) (concat (taken t (fd_num socket) (cp_world s))) \<and>
    (cp_rules sys ! 1 \<notin> set rules \<and> \<not> cp_outbound_shutdown s \<and> bs_input_ended (cp_outbound s) \<or>
      concat (taken t 0 (cp_world s)) = concat (given t (fd_num socket) (cp_world s)) @ bs_content (cp_outbound s)) \<and>
    (cp_rules sys ! 3 \<notin> set rules \<and> \<not> cp_inbound_shutdown s \<and> bs_input_ended (cp_inbound s) \<or>
      concat (taken t (fd_num socket) (cp_world s)) = concat (given t 1 (cp_world s)) @ bs_content (cp_inbound s)) \<and>
    (cp_outbound_shutdown s \<longrightarrow> bs_content (cp_outbound s) = []) \<and>
    (cp_inbound_shutdown s \<longrightarrow> bs_content (cp_inbound s) = []) \<and>
    outcome system_error (\<lambda>(res, rules', s'). res = Exit \<and> px_errno sys (cp_world s') \<noteq> EINTR \<longrightarrow>
      (cp_rules sys ! 1 \<in> set rules' \<or> cp_outbound_shutdown s' \<longrightarrow>
        concat (given t (fd_num socket) (cp_world s')) = concat (taken t 0 (cp_world s'))) \<and>
      (cp_rules sys ! 3 \<in> set rules' \<or> cp_inbound_shutdown s' \<longrightarrow>
        concat (given t 1 (cp_world s')) = concat (taken t (fd_num socket) (cp_world s')))) (cp_wait sys rules s)"
proof -
  from cp_reaches_inv [OF assms(1,2)] assms(3-) have inv: "cp_inv sys t (fd_num socket) (set rules) s" and rules: "subseq rules (cp_rules sys)"
    by (auto simp: fd_num_def)
  note fl = cp_inv_flows [OF inv]
  have "outcome system_error (\<lambda>(res, rules', s'). res = Exit \<and> px_errno sys (cp_world s') \<noteq> EINTR \<longrightarrow>
      (cp_rules sys ! 1 \<in> set rules' \<or> cp_outbound_shutdown s' \<longrightarrow>
        concat (given t (fd_num socket) (cp_world s')) = concat (taken t 0 (cp_world s'))) \<and>
      (cp_rules sys ! 3 \<in> set rules' \<or> cp_inbound_shutdown s' \<longrightarrow>
        concat (given t 1 (cp_world s')) = concat (taken t (fd_num socket) (cp_world s')))) (cp_wait sys rules s)"
  proof (rule outcome_mono [OF copier.wait_keeps [OF rules inv, of "- 1", folded cp_wait_def]], clarify)
    fix rules' s' assume exit: "cp_wait sys rules s = Inr (Exit, rules', s')" "px_errno sys (cp_world s') \<noteq> EINTR"
      and inv': "cp_inv sys t (fd_num socket) (set rules') s'"
    note empty = cp_exit_empty [OF exit rules] and fl' = cp_inv_flows [OF inv']
    show "(cp_rules sys ! 1 \<in> set rules' \<or> cp_outbound_shutdown s' \<longrightarrow>
        concat (given t (fd_num socket) (cp_world s')) = concat (taken t 0 (cp_world s'))) \<and>
      (cp_rules sys ! 3 \<in> set rules' \<or> cp_inbound_shutdown s' \<longrightarrow>
        concat (given t 1 (cp_world s')) = concat (taken t (fd_num socket) (cp_world s')))"
      using flow_complete [OF fl'(1) _ empty(1)] flow_complete [OF fl'(2) _ empty(2)] by blast
  qed
  with flow_account [OF fl(1)] flow_account [OF fl(2)] show ?thesis by blast
qed

theorem copies_both_ways_witness:
  "let sys = kernel_posix 2; t = kernel_traffic;
       f = \<lparr>fdw_fd = 5, fdw_eof = False, fdw_closed = False, fdw_read_count = 0, fdw_write_count = 0\<rparr>;
       w = \<lparr>k_input = (\<lambda>_. [1, 2, 3]), k_taken = (\<lambda>_. []), k_given = (\<lambda>_. [])\<rparr>
   in \<exists>s. cp_reaches sys f w (cp_rules sys) s \<and>
    concat (taken t 0 (cp_world s)) = concat (given t (fd_num f) (cp_world s)) @ bs_content (cp_outbound s) \<and>
    outcome system_error (\<lambda>_. True) (cp_wait sys (cp_rules sys) s)"
proof -
  let ?sys = "kernel_posix 2" and ?f = "\<lparr>fdw_fd = 5, fdw_eof = False, fdw_closed = False, fdw_read_count = 0, fdw_write_count = 0\<rparr>"
  let ?w = "\<lparr>k_input = (\<lambda>_. [1, 2, 3]), k_taken = (\<lambda>_. []), k_given = (\<lambda>_. [])\<rparr> :: kernel"
  let ?s = "\<lparr>cp_input = ?f\<lparr>fdw_fd := 0\<rparr>, cp_output = ?f\<lparr>fdw_fd := 1\<rparr>, cp_socket = ?f, cp_outbound = bs_init copy_buffer_size,
    cp_inbound = bs_init copy_buffer_size, cp_outbound_shutdown = False, cp_inbound_shutdown = False, cp_world = ?w\<rparr>"
  have "cp_init ?sys ?f ?w = Inr ?s" by (simp add: cp_init_def fdw_init_def fd_set_blocking_def SystemCall_def)
  then have reach: "cp_reaches ?sys ?f ?w (cp_rules ?sys) ?s" by (rule cp_start)
  have fresh: "untouched kernel_traffic x ?w" for x by (simp add: untouched_def kernel_traffic_def)
  have fd: "fd_num ?f \<noteq> 0" "fd_num ?f \<noteq> 1" by (simp_all add: fd_num_def)
  note all_parts = copies_both_ways [OF reach posix_io_kernel fd fresh fresh fresh]
  have all: "(cp_rules ?sys ! 1 \<notin> set (cp_rules ?sys) \<and> \<not> cp_outbound_shutdown ?s \<and> bs_input_ended (cp_outbound ?s) \<or>
      concat (taken kernel_traffic 0 (cp_world ?s)) = concat (given kernel_traffic (fd_num ?f) (cp_world ?s)) @ bs_content (cp_outbound ?s))"
    and turn: "\<exists>P. outcome system_error P (cp_wait ?sys (cp_rules ?sys) ?s)"
    using all_parts by blast+
  have "cp_rules ?sys ! 1 \<in> set (cp_rules ?sys)" by (rule nth_mem) (simp add: cp_rules_eq)
  with all have "concat (taken kernel_traffic 0 (cp_world ?s)) = concat (given kernel_traffic (fd_num ?f) (cp_world ?s)) @ bs_content (cp_outbound ?s)"
    by blast
  moreover from turn have "outcome system_error (\<lambda>_. True) (cp_wait ?sys (cp_rules ?sys) ?s)" by (auto elim: outcome_mono)
  ultimately show ?thesis unfolding Let_def using reach by blast
qed

end
