(* ===== verification/Spec2Isabelle.thy ===== *)
theory Spec2Isabelle
  imports Sponge_Delivery Router Ethernet_Path Stream_Copy
begin

text \<open>
  Sponge (CS144): a TCP/IP stack in user space, in C++.

  The program. \<^verbatim>\<open>libsponge\<close> holds the protocol engine: a byte stream with flow control
  (\<^verbatim>\<open>byte_stream\<close>), a reassembler of substrings (\<^verbatim>\<open>stream_reassembler\<close>), sequence numbers modulo
  2^32 (\<^verbatim>\<open>wrapping_integers\<close>), the receiver, the sender with its retransmission timer, and the
  connection that glues them (\<^verbatim>\<open>tcp_receiver\<close>, \<^verbatim>\<open>tcp_sender\<close>, \<^verbatim>\<open>tcp_connection\<close>), an Ethernet interface
  with ARP (\<^verbatim>\<open>network_interface\<close>) and an IP router (\<^verbatim>\<open>router\<close>). \<^verbatim>\<open>tcp_helpers\<close> holds the formats
  (Ethernet, ARP, IPv4, TCP), the summaries of states, the adapters that carry segments over UDP, TUN
  and Ethernet devices, and \<^verbatim>\<open>TCPSpongeSocket\<close>, which runs a connection over an adapter in an event
  loop. \<^verbatim>\<open>util\<close> wraps the operating system (file descriptors, sockets, devices, \<^verbatim>\<open>poll\<close>) and holds
  buffers, parsers and checksums; \<^verbatim>\<open>apps\<close> are command-line programs.

  How it is modelled. Pure code is a function; an object is a record that is passed and returned; a
  C++ exception, and behaviour the language leaves undefined, is a value of \<open>exn\<close> in the result type
  \<open>exn + 'a\<close>. Machine integers are words of their width; lengths of containers are natural numbers where
  the code cannot overflow, and \<open>sz\<close> takes a length into a \<^verbatim>\<open>size_t\<close>. Code outside the sources is an
  argument: \<open>gai\<close> and \<open>gni\<close> (\<^verbatim>\<open>getaddrinfo\<close>, \<^verbatim>\<open>getnameinfo\<close>), \<open>sys\<close> and \<open>net\<close> (the system calls, over a
  kernel state of any type), \<open>iter\<close> (the order in which a hash table is traversed), \<open>rand\<close> or a number (random generators).
  What a theorem relies on about them is a named predicate: \<open>numeric_hosts\<close>, \<open>numeric_names\<close>, \<open>hash_order\<close>,
  \<open>posix_io\<close>, \<open>host_kernel\<close>; each has an instance that the witnesses use (\<open>ipv4_hosts\<close>, \<open>ipv4_names\<close>,
  \<open>map fst\<close>, \<open>kernel_posix\<close>, \<open>small_host\<close>).

  The theories.
  \<^item> \<open>Sponge_Prelude\<close>: integers, exceptions, \<open>bindE\<close>, \<open>outcome\<close> and \<open>ensures\<close> (what a call that may throw
    leaves), generic facts on words and lists.
  \<^item> \<open>Buffer\<close> (\<^verbatim>\<open>util/buffer\<close>), \<open>Net_Parser\<close> (\<^verbatim>\<open>util/parser\<close>), \<open>Internet_Checksum\<close> (\<^verbatim>\<open>util/util\<close>),
    \<open>Address\<close> (\<^verbatim>\<open>util/address\<close>), \<open>Ethernet\<close>, \<open>IPv4\<close>, \<open>TCP_Segment\<close> (\<^verbatim>\<open>tcp_helpers/*_{header,frame,datagram,segment}\<close>,
    \<^verbatim>\<open>arp_message\<close>): the formats. Lemmas: what is serialized parses back, checksums verify, and parsers
    never throw. The locales \<open>consumable\<close> and \<open>byte_rope\<close> are the contract of the three buffer classes.
  \<^item> \<open>Byte_Stream\<close>, \<open>Wrapping_Integers\<close>, \<open>Stream_Reassembler\<close>, \<open>TCP_Receiver\<close>, \<open>TCP_Sender\<close>, \<open>TCP_State\<close>,
    \<open>TCP_Connection\<close>: the engine, one definition per method. \<open>Byte_Stream\<close> proves that it is a bounded
    FIFO (locale \<open>flow_stream\<close>); \<open>Wrapping_Integers\<close> that \<^verbatim>\<open>unwrap\<close> finds the closest number.
  \<^item> \<open>Reassembly\<close>, \<open>Sending\<close>, \<open>Connections\<close>: correctness of the engine. The invariants relate the state to
    the stream that was sent: \<open>Reassembly\<close> for any pushes of excerpts of it, \<open>Sending\<close> for any behaviour of
    the writer, the peer and the clock, \<open>Connections\<close> for two connections and a network that loses,
    duplicates, delays and reorders segments.
  \<^item> \<open>TCP_Over_IP\<close>, \<open>Adapters\<close> (\<^verbatim>\<open>fd_adapter\<close>, \<^verbatim>\<open>tuntap_adapter\<close>, \<^verbatim>\<open>lossy_fd_adapter\<close>): segments in datagrams. The
    locales \<open>fd_adapter\<close> and \<open>plain_writer\<close> are the contract of an adapter from which the lossy wrapper's properties
    follow. \<open>Stack\<close> carries the delivery theorem from segments to datagrams.
  \<^item> \<open>Network_Interface\<close>, \<open>Router\<close>: ARP and forwarding, with the longest-prefix match as reference.
    \<open>Ethernet_Path\<close>: a segment on its way through interfaces and adapters.
  \<^item> \<open>File_Descriptor\<close>, \<open>Sockets\<close>, \<open>Event_Loop\<close>, \<open>Stream_Copy\<close> (\<^verbatim>\<open>util/{file_descriptor,socket,tun,eventloop}\<close>,
    \<^verbatim>\<open>apps/bidirectional_stream_copy\<close>): the code around the system calls. The locale \<open>event_client\<close> is
    the contract of a set of rules: from an invariant, which may depend on the rules that are still
    registered, and which callbacks and cancellations keep, it gives what a call of \<^verbatim>\<open>wait_next_event\<close> does.
  \<^item> \<open>Sponge_Socket\<close>, \<open>Sponge_Delivery\<close> (\<^verbatim>\<open>tcp_helpers/tcp_sponge_socket\<close>): the socket over any of the
    five adapters, and end-to-end delivery between the applications of two hosts.

  Termination and bounds. Loops are recursive functions with a termination proof (\<^verbatim>\<open>fill_window\<close>,
  \<^verbatim>\<open>write\<close>, \<^verbatim>\<open>route\<close>); the two loops that may run for ever, \<^verbatim>\<open>_tcp_loop\<close> and the copy loop, are partial functions
  whose value \<open>None\<close> is not returning, and the theorems speak of every state they pass through. There is no fuel.
  The delivery theorems hold for streams of fewer than 2^32 - 2 bytes, since the receiver unwraps sequence
  numbers from the checkpoint 0.

  Where the code departs from its comments or from what it is meant to do, theorems of the kind \<open>error\<close> say
  how; the main theorems hold in spite of it.

  Not modelled. Messages on the terminal, except that calls inside them that can throw are kept where they
  affect the state; the frames an Ethernet adapter sends while a datagram it read makes the unwrapping throw,
  which the code writes before the exception; \<^verbatim>\<open>timestamp_ms\<close> and \<^verbatim>\<open>get_random_generator\<close> (their results are arguments);
  the second thread of \<^verbatim>\<open>TCPSpongeSocket\<close> runs in turns with its owner, so data races on the flag
  \<^verbatim>\<open>_abort\<close> are outside; reference counts, moves and destructors that only free memory; the command-line
  programs other than the stream copy, which parse arguments and print; the network simulator, a test of
  the router; the text forms of headers and messages.
\<close>

end
